(* ===== verification/Prelude.thy ===== *)
theory Prelude
  imports Main "HOL-Library.Word" "HOL-Library.Char_ord" "HOL-Library.List_Lexorder"
begin

text \<open>
  Shared ground of the ShardCache development: the machine integers the C++ sources use, the
  time arithmetic of \<open>std::chrono\<close>, the rule collections the components extend, and
  generic lemmas on lists and words. Nothing in this theory is about one component.
\<close>

unbundle bit_operations_syntax

section \<open>Machine types\<close>

type_synonym u8 = "8 word"
type_synonym u16 = "16 word"
type_synonym u32 = "32 word"
type_synonym u64 = "64 word"

text \<open>
  A \<open>steady_clock\<close> time point is its tick count in nanoseconds, a
  \<open>std::chrono::milliseconds\<close> value its count. Both are signed 64-bit counts whose overflow
  is undefined behaviour in C++; they are unbounded here, and the bound that keeps the real
  counts in range is a theorem about the values the command parser lets through.
\<close>

type_synonym ticks = int
type_synonym millis = int

definition ticks_of_millis :: "millis \<Rightarrow> ticks" where
  "ticks_of_millis ms = ms * 1000000"

text \<open>Signed division in C++ truncates towards zero, and so does \<open>duration_cast\<close>.\<close>

definition trunc_div :: "int \<Rightarrow> int \<Rightarrow> int" where
  "trunc_div a b = sgn a * sgn b * (\<bar>a\<bar> div \<bar>b\<bar>)"

definition millis_of_ticks :: "ticks \<Rightarrow> millis" where
  "millis_of_ticks t = trunc_div t 1000000"

definition seconds_of_ticks :: "ticks \<Rightarrow> int" where
  "seconds_of_ticks t = trunc_div t 1000000000"

section \<open>Rule collections\<close>

named_theorems lww_simps \<open>the last-writer-wins order\<close>
named_theorems cache_defs \<open>definitions of the cache operations\<close>
named_theorems cache_wf_intros \<open>cache operations keep the cache invariant\<close>
named_theorems word_inj \<open>injective steps of the hash functions\<close>

section \<open>Truncating division\<close>

lemma trunc_div_nonneg: "0 \<le> a \<Longrightarrow> 0 < b \<Longrightarrow> trunc_div a b = a div b"
  by (cases "a = 0") (auto simp: trunc_div_def)

lemma millis_of_ticks_nonneg: "0 \<le> t \<Longrightarrow> 0 \<le> millis_of_ticks t"
  by (simp add: millis_of_ticks_def trunc_div_nonneg pos_imp_zdiv_nonneg_iff)

lemma millis_of_ticks_of_millis [simp]: "millis_of_ticks (ticks_of_millis ms) = ms"
proof -
  have "sgn (ms * 1000000) = sgn ms" by (simp add: sgn_mult)
  moreover have "\<bar>ms * 1000000\<bar> div 1000000 = \<bar>ms\<bar>" by (simp add: abs_mult)
  ultimately show ?thesis
    by (simp add: millis_of_ticks_def ticks_of_millis_def trunc_div_def mult_sgn_abs)
qed

lemma millis_of_ticks_le: "0 \<le> t \<Longrightarrow> ticks_of_millis (millis_of_ticks t) \<le> t"
  by (simp add: millis_of_ticks_def ticks_of_millis_def trunc_div_nonneg)

section \<open>Lists\<close>

lemma filter_key_unique:
  "distinct (map f xs) \<Longrightarrow> x \<in> set xs \<Longrightarrow> filter (\<lambda>y. f y = f x) xs = [x]"
  by (induction xs) (auto simp: filter_empty_conv image_iff)

lemma find_unique:
  "distinct (map f xs) \<Longrightarrow> x \<in> set xs \<Longrightarrow> f x = a \<Longrightarrow> List.find (\<lambda>y. f y = a) xs = Some x"
  by (induction xs) (auto simp: image_iff)

lemma rotate_le: "n \<le> length xs \<Longrightarrow> rotate n xs = drop n xs @ take n xs"
  by (cases "n = length xs") (simp_all add: rotate_drop_take)

lemma find_key_None: "a \<notin> f ` set xs \<Longrightarrow> List.find (\<lambda>y. f y = a) xs = None"
  by (induction xs) auto

lemma map_of_filter_neq: "map_of (filter (\<lambda>p. fst p \<noteq> k) m) = (map_of m)(k := None)"
  by (induction m) (auto simp: fun_eq_iff)

lemma map_of_filter_snd:
  "distinct (map fst m) \<Longrightarrow>
   map_of (filter (\<lambda>p. P (snd p)) m) k =
     (case map_of m k of None \<Rightarrow> None | Some v \<Rightarrow> if P v then Some v else None)"
  by (induction m) (auto simp: map_of_eq_None_iff split: option.split)

lemma length_filter_neq:
  "distinct (map f xs) \<Longrightarrow> x \<in> set xs \<Longrightarrow>
   Suc (length (filter (\<lambda>y. f y \<noteq> f x) xs)) = length xs"
  by (induction xs) (auto simp: image_iff filter_id_conv intro!: arg_cong [where f = length], metis)

text \<open>Splitting off a word at the front of a string makes progress.\<close>

lemma after_word_shorter:
  assumes "t = dropWhile P s" "t \<noteq> []"
  shows "length (dropWhile (\<lambda>c. \<not> P c) t) < length s"
proof -
  have "\<not> P (hd t)" using assms hd_dropWhile [of P s] by simp
  then have "length (dropWhile (\<lambda>c. \<not> P c) t) < length t"
    using assms(2) by (cases t) (auto simp: le_imp_less_Suc length_dropWhile_le)
  also have "\<dots> \<le> length s" by (simp add: assms(1) length_dropWhile_le)
  finally show ?thesis .
qed

text \<open>The elements of a list whose key was not seen before, in order.\<close>

fun first_by :: "('a \<Rightarrow> 'k) \<Rightarrow> 'k set \<Rightarrow> 'a list \<Rightarrow> 'a list" where
  "first_by f S [] = []"
| "first_by f S (x # xs) =
     (if f x \<in> S then first_by f S xs else x # first_by f (insert (f x) S) xs)"

lemma first_by_keys:
  "f ` set (first_by f S xs) = f ` set xs - S"
  "distinct (map f (first_by f S xs))"
  by (induction f S xs rule: first_by.induct) auto

lemma first_by_subset: "set (first_by f S xs) \<subseteq> set xs"
  by (induction f S xs rule: first_by.induct) auto

lemma first_by_filter:
  "S - {k} = S' - {k} \<Longrightarrow>
   filter (\<lambda>x. f x \<noteq> k) (first_by f S xs) = first_by f S' (filter (\<lambda>x. f x \<noteq> k) xs)"
proof (induction f S xs arbitrary: S' rule: first_by.induct)
  case (2 f S x xs)
  show ?case
  proof (cases "f x = k")
    case True
    with 2 show ?thesis by auto
  next
    case False
    with "2.prems" have "f x \<in> S \<longleftrightarrow> f x \<in> S'"
      and "insert (f x) S - {k} = insert (f x) S' - {k}" by auto
    with 2 False show ?thesis by auto
  qed
qed simp

lemma first_by_snoc:
  "first_by f S (xs @ [x]) =
     first_by f S xs @ (if f x \<in> S \<union> f ` set xs then [] else [x])"
  by (induction f S xs rule: first_by.induct) auto

text \<open>Removing repetitions commutes with a renaming that is injective on what is there.\<close>

lemma map_first_by:
  assumes "inj_on (\<lambda>x. f (g x)) (S \<union> set xs)"
  shows "map g (first_by (\<lambda>x. x) S xs) = first_by f ((\<lambda>x. f (g x)) ` S) (map g xs)"
  using assms
proof (induction xs arbitrary: S)
  case (Cons x xs)
  have "f (g x) \<in> (\<lambda>x. f (g x)) ` S \<longleftrightarrow> x \<in> S"
    using Cons.prems by (auto simp: inj_on_def)
  moreover have "map g (first_by (\<lambda>x. x) S xs) = first_by f ((\<lambda>x. f (g x)) ` S) (map g xs)"
    using Cons.prems by (intro Cons.IH) (auto simp: inj_on_def)
  moreover have "map g (first_by (\<lambda>x. x) (insert x S) xs) =
      first_by f ((\<lambda>x. f (g x)) ` insert x S) (map g xs)"
    using Cons.prems by (intro Cons.IH) (auto simp: inj_on_def)
  ultimately show ?case by auto
qed simp

lemma take_filter_distinct:
  "distinct (map f xs) \<Longrightarrow>
   take n (filter (\<lambda>x. f x \<noteq> k) (take (Suc n) xs)) = take n (filter (\<lambda>x. f x \<noteq> k) xs)"
proof (induction xs arbitrary: n)
  case (Cons x xs)
  show ?case
  proof (cases "f x = k")
    case True
    with Cons.prems have "filter (\<lambda>x. f x \<noteq> k) xs = xs"
      by (auto simp: filter_id_conv image_iff)
    moreover have "filter (\<lambda>x. f x \<noteq> k) (take n xs) = take n xs"
      using Cons.prems True by (auto simp: filter_id_conv image_iff dest!: in_set_takeD)
    ultimately show ?thesis using True by simp
  next
    case False
    with Cons show ?thesis by (cases n) auto
  qed
qed simp

lemma sum_list_update_word:
  fixes f :: "'a \<Rightarrow> 'b::ab_group_add"
  assumes "i < length xs"
  shows "sum_list (map f (xs[i := x])) = sum_list (map f xs) - f (xs ! i) + f x"
  using assms by (induction xs arbitrary: i) (auto split: nat.splits simp: nth_Cons')

section \<open>Words\<close>

text \<open>Multiplication by an odd constant is undone by its inverse.\<close>

lemma mult_cancel_by_inverse [word_inj]:
  fixes a b c d :: "'a::comm_ring_1"
  assumes "c * d = 1" and "a * c = b * c"
  shows "a = b"
proof -
  have "a * (c * d) = b * (c * d)" using assms(2) by (simp flip: mult.assoc)
  with assms(1) show ?thesis by simp
qed

lemma xor_cancel_right [word_inj]:
  fixes a b c :: "'a::len word"
  shows "a XOR c = b XOR c \<longleftrightarrow> a = b"
  by (metis xor.assoc xor.right_neutral xor_self_eq)

lemma xor_cancel_left [word_inj]:
  fixes a b c :: "'a::len word"
  shows "c XOR a = c XOR b \<longleftrightarrow> a = b"
  by (simp add: xor.commute [of c] xor_cancel_right)

lemma unat_u64_less: "unat (w :: u64) < 2 ^ 64"
  using unsigned_less [of w] by simp

text \<open>A byte keeps its value in any word of at least eight bits.\<close>

lemma unat_of_char:
  assumes "8 \<le> LENGTH('a::len)" shows "unat (of_char c :: 'a word) = of_char c"
proof -
  have "(256 :: nat) \<le> 2 ^ LENGTH('a)"
    using power_increasing [OF assms, of "2 :: nat"] by simp
  then have "of_char c mod 2 ^ LENGTH('a) = (of_char c :: nat)"
    using nat_of_char_less_256 [of c] by (intro mod_less) linarith
  then show ?thesis using unat_of_nat [of "of_char c", where 'a = 'a] by (simp add: of_nat_of_char)
qed

lemma of_char_word_inj [word_inj]:
  assumes "8 \<le> LENGTH('a::len)"
  shows "(of_char c :: 'a word) = of_char d \<longleftrightarrow> c = d"
  by (metis unat_of_char [OF assms] of_char_eq_iff)

text \<open>A right xor-shift loses nothing: the high bits are intact and give back the lower ones.\<close>

lemma xor_shift_inj [word_inj]:
  fixes x y :: "'a::len word"
  assumes s: "0 < s" and eq: "x XOR drop_bit s x = y XOR drop_bit s y"
  shows "x = y"
proof -
  have "bit x n = bit y n" for n
  proof (induction "LENGTH('a) - n" arbitrary: n rule: less_induct)
    case less
    show ?case
    proof (cases "n < LENGTH('a)")
      case True
      then have "bit x (s + n) = bit y (s + n)" using s by (intro less) auto
      moreover have "bit (x XOR drop_bit s x) n = bit (y XOR drop_bit s y) n"
        by (simp add: eq)
      ultimately show ?thesis by (auto simp: bit_xor_iff bit_drop_bit_eq)
    next
      case False
      then show ?thesis by (simp add: bit_imp_le_length not_less) (meson bit_imp_le_length not_less)
    qed
  qed
  then show ?thesis by (intro bit_eqI) simp
qed

end
