(* ===== verification/Cache_Entry.thy ===== *)
theory Cache_Entry
  imports Prelude
begin

text \<open>
  Stored entries and the last-writer-wins order that resolves concurrent writes
  (\<open>include/shardcache/cache_entry.hpp\<close>): the entry a replica keeps, the value it exchanges
  with other replicas, and \<open>supersedes\<close>, by which every replica decides alike.
\<close>

record CacheEntry =
  ce_value :: string
  ce_expires_at :: "ticks option"
  ce_version :: u64
  ce_tombstone :: bool

definition is_expired :: "CacheEntry \<Rightarrow> ticks \<Rightarrow> bool" where
  "is_expired e now =
     (case ce_expires_at e of
        None \<Rightarrow> False
      | Some t \<Rightarrow> t \<le> now)"

record VersionedValue =
  vv_value :: string
  vv_version :: u64
  vv_tombstone :: bool
  vv_ttl :: "millis option"

text \<open>
  Higher version wins; on a tie deletes win, then the larger value. \<open>std::string\<close> compares
  its bytes as unsigned characters, lexicographically, as \<open><\<close> on \<open>string\<close> does here.
\<close>

definition supersedes :: "u64 \<Rightarrow> bool \<Rightarrow> string \<Rightarrow> CacheEntry \<Rightarrow> bool" where
  "supersedes version tombstone value current =
     (if version \<noteq> ce_version current then ce_version current < version
      else if tombstone \<noteq> ce_tombstone current then tombstone
      else ce_value current < value)"

section \<open>The order behind it\<close>

text \<open>
  The part of an entry the order looks at. Comparing stamps is comparing triples
  lexicographically, so it is a linear order.
\<close>

type_synonym stamp = "u64 \<times> bool \<times> string"

definition stamp_of_entry :: "CacheEntry \<Rightarrow> stamp" where
  "stamp_of_entry e = (ce_version e, ce_tombstone e, ce_value e)"

definition stamp_of_value :: "VersionedValue \<Rightarrow> stamp" where
  "stamp_of_value v = (vv_version v, vv_tombstone v, vv_value v)"

definition stamp_less :: "stamp \<Rightarrow> stamp \<Rightarrow> bool" where
  "stamp_less a b \<longleftrightarrow>
     (case a of (va, ta, sa) \<Rightarrow> case b of (vb, tb, sb) \<Rightarrow>
        va < vb \<or> va = vb \<and> (ta < tb \<or> ta = tb \<and> sa < sb))"

definition stamp_le :: "stamp \<Rightarrow> stamp \<Rightarrow> bool" where
  "stamp_le a b \<longleftrightarrow> a = b \<or> stamp_less a b"

lemma supersedes_stamp [lww_simps]:
  "supersedes ver tomb val e \<longleftrightarrow> stamp_less (stamp_of_entry e) (ver, tomb, val)"
  by (auto simp: supersedes_def stamp_less_def stamp_of_entry_def)

lemma stamp_less_irrefl [simp]: "\<not> stamp_less a a"
  by (cases a) (auto simp: stamp_less_def)

lemma stamp_less_trans: "stamp_less a b \<Longrightarrow> stamp_less b c \<Longrightarrow> stamp_less a c"
  by (cases a; cases b; cases c) (auto simp: stamp_less_def)

lemma stamp_less_total: "stamp_less a b \<or> a = b \<or> stamp_less b a"
  by (cases a; cases b) (auto simp: stamp_less_def)

interpretation stamp: linorder stamp_le stamp_less
proof
  fix a b c :: stamp
  show "stamp_less a b \<longleftrightarrow> stamp_le a b \<and> \<not> stamp_le b a"
    by (auto simp: stamp_le_def dest: stamp_less_trans)
  show "stamp_le a a"
    by (simp add: stamp_le_def)
  show "stamp_le a b \<Longrightarrow> stamp_le b c \<Longrightarrow> stamp_le a c"
    by (auto simp: stamp_le_def dest: stamp_less_trans)
  show "stamp_le a b \<Longrightarrow> stamp_le b a \<Longrightarrow> a = b"
    by (auto simp: stamp_le_def dest: stamp_less_trans)
  show "stamp_le a b \<or> stamp_le b a"
    using stamp_less_total [of a b] by (auto simp: stamp_le_def)
qed

lemma stamp_le_version: "stamp_le (va, ta, sa) (vb, tb, sb) \<Longrightarrow> va \<le> vb"
  by (auto simp: stamp_le_def stamp_less_def)

lemma not_supersedes_iff [lww_simps]:
  "\<not> supersedes ver tomb val e \<longleftrightarrow> stamp_le (ver, tomb, val) (stamp_of_entry e)"
  by (simp add: supersedes_stamp stamp.not_less)

end
