(* ===== verification/Std_Map.thy ===== *)
theory Std_Map
  imports Prelude "HOL-Library.AList"
begin

text \<open>
  The associative containers of the C++ standard library as the sources use them.
  \<open>std::map\<close> is an association list kept in strictly ascending key order, so that iteration
  and \<open>lower_bound\<close> see the order the container promises. \<open>std::unordered_map\<close> is an
  association list with distinct keys; its order stands for the unspecified iteration order.
\<close>

section \<open>Ordered maps\<close>

text \<open>\<open>m[k] = v\<close>\<close>

fun map_insert :: "'k::linorder \<Rightarrow> 'v \<Rightarrow> ('k \<times> 'v) list \<Rightarrow> ('k \<times> 'v) list" where
  "map_insert k v [] = [(k, v)]"
| "map_insert k v ((a, b) # m) =
     (if k < a then (k, v) # (a, b) # m
      else if k = a then (k, v) # m
      else (a, b) # map_insert k v m)"

text \<open>\<open>m.erase(k)\<close>\<close>

fun map_erase :: "'k::linorder \<Rightarrow> ('k \<times> 'v) list \<Rightarrow> ('k \<times> 'v) list" where
  "map_erase k [] = []"
| "map_erase k ((a, b) # m) = (if k = a then m else (a, b) # map_erase k m)"

text \<open>
  \<open>m.lower_bound(k)\<close>, and \<open>std::lower_bound\<close> on a sorted vector: the position of the first
  key that is not below \<open>k\<close>; the length stands for \<open>end()\<close>.
\<close>

definition lower_bound :: "'k::linorder \<Rightarrow> 'k list \<Rightarrow> nat" where
  "lower_bound k ks = length (takeWhile (\<lambda>a. a < k) ks)"

definition map_wf :: "('k::linorder \<times> 'v) list \<Rightarrow> bool" where
  "map_wf m \<longleftrightarrow> sorted_wrt (<) (map fst m)"

lemma map_of_map_insert: "map_of (map_insert k v m) = (map_of m)(k \<mapsto> v)"
  by (induction m) (auto simp: fun_eq_iff)

lemma keys_map_insert: "fst ` set (map_insert k v m) = insert k (fst ` set m)"
  by (induction k v m rule: map_insert.induct) auto

lemma map_wf_insert: "map_wf m \<Longrightarrow> map_wf (map_insert k v m)"
proof (induction m)
  case Nil
  then show ?case by (simp add: map_wf_def)
next
  case (Cons p m)
  obtain a b where p: "p = (a, b)" by (cases p)
  have keys: "set (map fst (map_insert k v m)) = insert k (set (map fst m))"
    using keys_map_insert [of k v m] by simp
  from Cons p show ?case by (auto simp: map_wf_def keys simp del: set_map)
qed

lemma set_map_erase_subset: "set (map_erase k m) \<subseteq> set m"
  by (induction k m rule: map_erase.induct) auto

lemma map_wf_erase: "map_wf m \<Longrightarrow> map_wf (map_erase k m)"
proof (induction m)
  case Nil
  then show ?case by (simp add: map_wf_def)
next
  case (Cons p m)
  with set_map_erase_subset [of k m] show ?case by (cases p) (auto simp: map_wf_def)
qed

lemma map_wf_distinct: "map_wf m \<Longrightarrow> distinct (map fst m)"
  by (auto simp: map_wf_def strict_sorted_iff)

lemma map_of_map_erase: "map_wf m \<Longrightarrow> map_of (map_erase k m) = (map_of m)(k := None)"
proof (induction m)
  case Nil
  then show ?case by simp
next
  case (Cons p m)
  then have "distinct (map fst (p # m))" by (blast dest: map_wf_distinct)
  with Cons show ?case
    by (cases p) (auto simp: fun_eq_iff map_wf_def map_of_eq_None_iff)
qed

text \<open>Sorted association lists are canonical: equal lookups, equal containers.\<close>

lemma map_wf_ext:
  assumes "map_wf m" and "map_wf m'" and "map_of m = map_of m'"
  shows "m = m'"
proof (rule map_sorted_distinct_set_unique)
  show "set m = set m'"
    using assms by (metis map_wf_distinct set_map_of_compr)
  with assms show "inj_on fst (set m \<union> set m')"
    by (simp add: map_wf_distinct distinct_map [THEN iffD1])
qed (use assms in \<open>auto simp: map_wf_def strict_sorted_iff\<close>)

section \<open>Unordered maps\<close>

text \<open>\<open>m[k] = v\<close>, \<open>m.emplace(k, v)\<close> (which keeps an existing binding) and \<open>m.erase(k)\<close>\<close>

definition umap_set :: "'k \<Rightarrow> 'v \<Rightarrow> ('k \<times> 'v) list \<Rightarrow> ('k \<times> 'v) list" where
  "umap_set k v m = AList.update k v m"

definition umap_emplace :: "'k \<Rightarrow> 'v \<Rightarrow> ('k \<times> 'v) list \<Rightarrow> ('k \<times> 'v) list" where
  "umap_emplace k v m = (case map_of m k of Some _ \<Rightarrow> m | None \<Rightarrow> (k, v) # m)"

definition umap_erase :: "'k \<Rightarrow> ('k \<times> 'v) list \<Rightarrow> ('k \<times> 'v) list" where
  "umap_erase k m = filter (\<lambda>p. fst p \<noteq> k) m"

definition umap_wf :: "('k \<times> 'v) list \<Rightarrow> bool" where
  "umap_wf m \<longleftrightarrow> distinct (map fst m)"

lemma umap_wf_empty [simp]: "umap_wf []"
  by (simp add: umap_wf_def)

lemma umap_wf_set: "umap_wf m \<Longrightarrow> umap_wf (umap_set k v m)"
  by (simp add: umap_wf_def umap_set_def distinct_update)

lemma umap_wf_erase: "umap_wf m \<Longrightarrow> umap_wf (umap_erase k m)"
  by (simp add: umap_wf_def umap_erase_def distinct_map_filter)

lemma umap_wf_emplace: "umap_wf m \<Longrightarrow> umap_wf (umap_emplace k v m)"
  by (auto simp: umap_wf_def umap_emplace_def map_of_eq_None_iff split: option.split)

lemma map_of_umap_set: "map_of (umap_set k v m) = (map_of m)(k \<mapsto> v)"
  by (simp add: umap_set_def update_conv')

lemma map_of_umap_erase: "map_of (umap_erase k m) = (map_of m)(k := None)"
  by (simp add: umap_erase_def map_of_filter_neq)

lemma map_of_umap_emplace:
  "map_of (umap_emplace k v m) = (if map_of m k = None then (map_of m)(k \<mapsto> v) else map_of m)"
  by (auto simp: umap_emplace_def split: option.split)

lemma length_umap_emplace:
  "length (umap_emplace k v m) = (if map_of m k = None then Suc (length m) else length m)"
  by (auto simp: umap_emplace_def split: option.split)

lemma length_umap_erase:
  assumes "umap_wf m" and "map_of m k \<noteq> None"
  shows "Suc (length (umap_erase k m)) = length m"
proof -
  from assms(2) obtain v where "(k, v) \<in> set m" by (auto dest: map_of_SomeD)
  with assms(1) show ?thesis
    using length_filter_neq [of fst m "(k, v)"] by (simp add: umap_wf_def umap_erase_def)
qed

section \<open>The interface both containers offer\<close>

text \<open>
  What the clients (the hash ring, the membership table, the key index of a cache) rely on:
  a store or an erase changes the binding of its own key only, and keeps the container's
  invariant. The loops of the clients, a run of stores or of erases, are treated once here.
\<close>

locale assoc_container =
  fixes upd :: "'k \<Rightarrow> 'v \<Rightarrow> 'm \<Rightarrow> 'm"
    and del :: "'k \<Rightarrow> 'm \<Rightarrow> 'm"
    and look :: "'m \<Rightarrow> 'k \<Rightarrow> 'v option"
    and inv :: "'m \<Rightarrow> bool"
  assumes look_upd: "inv m \<Longrightarrow> look (upd k v m) = (look m)(k \<mapsto> v)"
    and look_del: "inv m \<Longrightarrow> look (del k m) = (look m)(k := None)"
    and inv_upd: "inv m \<Longrightarrow> inv (upd k v m)"
    and inv_del: "inv m \<Longrightarrow> inv (del k m)"
begin

lemma inv_fold_upd: "inv m \<Longrightarrow> inv (fold (\<lambda>x. upd (key x) (val x)) xs m)"
  by (induction xs arbitrary: m) (auto simp: inv_upd)

lemma inv_fold_del: "inv m \<Longrightarrow> inv (fold (\<lambda>x. del (key x)) xs m)"
  by (induction xs arbitrary: m) (auto simp: inv_del)

lemma look_fold_upd_const:
  "inv m \<Longrightarrow> look (fold (\<lambda>x. upd (key x) v) xs m) k =
     (if k \<in> key ` set xs then Some v else look m k)"
  by (induction xs arbitrary: m) (auto simp: inv_upd look_upd)

lemma look_fold_del:
  "inv m \<Longrightarrow> look (fold (\<lambda>x. del (key x)) xs m) k =
     (if k \<in> key ` set xs then None else look m k)"
  by (induction xs arbitrary: m) (auto simp: inv_del look_del)

text \<open>Erasing again what a run of stores added gives back the container, if the keys were new.\<close>

lemma look_del_after_upd:
  assumes "inv m" and "\<And>x. x \<in> set xs \<Longrightarrow> look m (key x) = None"
  shows "look (fold (\<lambda>x. del (key x)) xs (fold (\<lambda>x. upd (key x) v) xs m)) = look m"
proof
  fix k
  have "inv (fold (\<lambda>x. upd (key x) v) xs m)"
    using assms(1) by (rule inv_fold_upd)
  with assms show "look (fold (\<lambda>x. del (key x)) xs (fold (\<lambda>x. upd (key x) v) xs m)) k = look m k"
    by (auto simp: look_fold_del look_fold_upd_const)
qed

end

interpretation om: assoc_container map_insert map_erase map_of map_wf
  by unfold_locales
    (auto simp: map_of_map_insert map_of_map_erase map_wf_insert map_wf_erase)

interpretation um: assoc_container umap_set umap_erase map_of umap_wf
  by unfold_locales
    (auto simp: map_of_umap_set map_of_umap_erase umap_wf_set umap_wf_erase)

section \<open>Lower bound\<close>

lemma lower_bound_le [simp]: "lower_bound k ks \<le> length ks"
  by (simp add: lower_bound_def length_takeWhile_le)

lemma lower_bound_below: "i < lower_bound k ks \<Longrightarrow> ks ! i < k"
  unfolding lower_bound_def
  by (metis nth_mem set_takeWhileD takeWhile_nth)

lemma lower_bound_here: "lower_bound k ks < length ks \<Longrightarrow> k \<le> ks ! lower_bound k ks"
  using nth_length_takeWhile [of "\<lambda>a. a < k" ks] by (auto simp: lower_bound_def not_less)

end
