(* ===== verification/Cache.thy ===== *)
theory Cache
  imports Cache_Entry Std_Map "HOL-Library.Multiset"
begin

text \<open>
  One shard of the store (\<open>include/shardcache/cache.hpp\<close>, \<open>src/cache.cpp\<close>): a bounded map
  with least-recently-used eviction, expiry, versions and tombstones. The C++ class keeps the
  nodes in a \<open>std::list\<close> and indexes them by an \<open>unordered_map\<close> of list iterators; the model
  keeps both. An iterator is the identity of a list node, a number never given out twice, and
  a lookup goes through the index and then through the iterator, as in the code. Every
  critical section of the class is one function; the clock a section reads is its argument.
\<close>

section \<open>State\<close>

record CacheMetrics =
  m_hits :: u64
  m_misses :: u64
  m_sets :: u64
  m_deletes :: u64
  m_evictions :: u64
  m_expirations :: u64

record Node =
  nd_iter :: nat
  nd_key :: string
  nd_entry :: CacheEntry
  nd_last_promoted :: ticks

record Cache =
  c_capacity :: nat
  c_tombstone_ttl :: millis
  c_tombstones :: u64
  c_lru_list :: "Node list"
  c_entries :: "(string \<times> nat) list"
  c_next_iter :: nat
  c_metrics :: CacheMetrics

definition no_metrics :: CacheMetrics where
  "no_metrics = \<lparr>m_hits = 0, m_misses = 0, m_sets = 0, m_deletes = 0, m_evictions = 0,
     m_expirations = 0\<rparr>"

definition new_cache :: "nat \<Rightarrow> millis \<Rightarrow> Cache" where
  "new_cache capacity tombstone_ttl =
     \<lparr>c_capacity = capacity, c_tombstone_ttl = tombstone_ttl, c_tombstones = 0,
      c_lru_list = [], c_entries = [], c_next_iter = 0, c_metrics = no_metrics\<rparr>"

definition kPromoteInterval :: millis where
  "kPromoteInterval = 100"

section \<open>List and index primitives\<close>

text \<open>\<open>entries_.find(key)\<close> followed by the dereferenced iterator\<close>

definition find_node :: "string \<Rightarrow> Cache \<Rightarrow> Node option" where
  "find_node key c =
     (case map_of (c_entries c) key of
        None \<Rightarrow> None
      | Some it \<Rightarrow> List.find (\<lambda>n. nd_iter n = it) (c_lru_list c))"

text \<open>\<open>lru_list_.splice(lru_list_.begin(), lru_list_, it)\<close>\<close>

definition splice_front :: "Node \<Rightarrow> Node list \<Rightarrow> Node list" where
  "splice_front n ns = n # filter (\<lambda>m. nd_iter m \<noteq> nd_iter n) ns"

text \<open>A write through an iterator\<close>

definition store_node :: "Node \<Rightarrow> Node list \<Rightarrow> Node list" where
  "store_node n ns = map (\<lambda>m. if nd_iter m = nd_iter n then n else m) ns"

text \<open>\<open>lru_list_.emplace_front(key, entry)\<close> and \<open>entries_.emplace(key, lru_list_.begin())\<close>\<close>

definition emplace_front :: "string \<Rightarrow> CacheEntry \<Rightarrow> Cache \<Rightarrow> Cache" where
  "emplace_front key e c =
     c\<lparr>c_lru_list := \<lparr>nd_iter = c_next_iter c, nd_key = key, nd_entry = e,
                      nd_last_promoted = 0\<rparr> # c_lru_list c,
       c_entries := umap_emplace key (c_next_iter c) (c_entries c),
       c_next_iter := Suc (c_next_iter c)\<rparr>"

definition is_live :: "CacheEntry \<Rightarrow> ticks \<Rightarrow> bool" where
  "is_live e now \<longleftrightarrow> \<not> ce_tombstone e \<and> \<not> is_expired e now"

definition count_hit :: "Cache \<Rightarrow> Cache" where
  "count_hit c = c\<lparr>c_metrics := (c_metrics c)\<lparr>m_hits := m_hits (c_metrics c) + 1\<rparr>\<rparr>"

definition count_miss :: "Cache \<Rightarrow> Cache" where
  "count_miss c = c\<lparr>c_metrics := (c_metrics c)\<lparr>m_misses := m_misses (c_metrics c) + 1\<rparr>\<rparr>"

definition count_set :: "Cache \<Rightarrow> Cache" where
  "count_set c = c\<lparr>c_metrics := (c_metrics c)\<lparr>m_sets := m_sets (c_metrics c) + 1\<rparr>\<rparr>"

definition count_delete :: "Cache \<Rightarrow> Cache" where
  "count_delete c = c\<lparr>c_metrics := (c_metrics c)\<lparr>m_deletes := m_deletes (c_metrics c) + 1\<rparr>\<rparr>"

definition count_eviction :: "Cache \<Rightarrow> Cache" where
  "count_eviction c = c\<lparr>c_metrics := (c_metrics c)\<lparr>m_evictions := m_evictions (c_metrics c) + 1\<rparr>\<rparr>"

definition count_expiration :: "Cache \<Rightarrow> Cache" where
  "count_expiration c =
     c\<lparr>c_metrics := (c_metrics c)\<lparr>m_expirations := m_expirations (c_metrics c) + 1\<rparr>\<rparr>"

lemmas count_defs [cache_defs] = count_hit_def count_miss_def count_set_def count_delete_def
  count_eviction_def count_expiration_def

section \<open>Operations\<close>

definition erase_unsafe :: "Node \<Rightarrow> Cache \<Rightarrow> Cache" where
  "erase_unsafe n c =
     (let c1 = (if ce_tombstone (nd_entry n) then c\<lparr>c_tombstones := c_tombstones c - 1\<rparr> else c)
      in c1\<lparr>c_entries := umap_erase (nd_key n) (c_entries c1),
            c_lru_list := filter (\<lambda>m. nd_iter m \<noteq> nd_iter n) (c_lru_list c1)\<rparr>)"

definition evict_lru_unsafe :: "Cache \<Rightarrow> Cache" where
  "evict_lru_unsafe c =
     (if c_lru_list c = [] then c
      else count_eviction (erase_unsafe (last (c_lru_list c)) c))"

definition make_room :: "Cache \<Rightarrow> Cache" where
  "make_room c =
     (if 0 < c_capacity c \<and> c_capacity c \<le> length (c_entries c) then evict_lru_unsafe c else c)"

definition cache_set :: "ticks \<Rightarrow> string \<Rightarrow> string \<Rightarrow> millis option \<Rightarrow> Cache \<Rightarrow> Cache" where
  "cache_set now key val ttl c =
     (let expires_at = map_option (\<lambda>t. now + ticks_of_millis t) ttl;
          e = \<lparr>ce_value = val, ce_expires_at = expires_at, ce_version = 0, ce_tombstone = False\<rparr>;
          c1 = count_set c
      in case find_node key c1 of
           Some n \<Rightarrow>
             (let c2 = (if ce_tombstone (nd_entry n)
                        then c1\<lparr>c_tombstones := c_tombstones c1 - 1\<rparr> else c1);
                  n' = n\<lparr>nd_entry := e\<rparr>
              in c2\<lparr>c_lru_list := splice_front n' (store_node n' (c_lru_list c2))\<rparr>)
         | None \<Rightarrow> emplace_front key e (make_room c1))"

text \<open>
  \<open>get\<close> reads under the shared lock and promotes under the exclusive one. The two critical
  sections are separate functions, since other operations may run between them; the boolean
  says that the slow path is taken.
\<close>

definition get_shared :: "ticks \<Rightarrow> string \<Rightarrow> Cache \<Rightarrow> (string option \<times> bool) \<times> Cache" where
  "get_shared now key c =
     (case find_node key c of
        None \<Rightarrow> ((None, False), count_miss c)
      | Some n \<Rightarrow>
          if \<not> is_live (nd_entry n) now then ((None, False), count_miss c)
          else
            (let last = nd_last_promoted n;
                 interval = ticks_of_millis kPromoteInterval
             in ((Some (ce_value (nd_entry n)), \<not> (last \<noteq> 0 \<and> now - last < interval)),
                 count_hit c)))"

definition get_promote :: "ticks \<Rightarrow> string \<Rightarrow> Cache \<Rightarrow> Cache" where
  "get_promote now key c =
     (case find_node key c of
        None \<Rightarrow> c
      | Some n \<Rightarrow>
          (let n' = n\<lparr>nd_last_promoted := now\<rparr>
           in c\<lparr>c_lru_list := splice_front n' (store_node n' (c_lru_list c))\<rparr>))"

definition cache_get :: "ticks \<Rightarrow> string \<Rightarrow> Cache \<Rightarrow> string option \<times> Cache" where
  "cache_get now key c =
     (case get_shared now key c of
        ((val, slow), c1) \<Rightarrow> (val, if slow then get_promote now key c1 else c1))"

definition cache_remove :: "ticks \<Rightarrow> string \<Rightarrow> Cache \<Rightarrow> bool \<times> Cache" where
  "cache_remove now key c =
     (case find_node key c of
        None \<Rightarrow> (False, c)
      | Some n \<Rightarrow> (is_live (nd_entry n) now, count_delete (erase_unsafe n c)))"

definition cache_contains :: "ticks \<Rightarrow> string \<Rightarrow> Cache \<Rightarrow> bool" where
  "cache_contains now key c =
     (case find_node key c of None \<Rightarrow> False | Some n \<Rightarrow> is_live (nd_entry n) now)"

text \<open>\<open>apply\<close> returns whether the store changed and, through \<open>was_live\<close>, whether the key was
  visible before.\<close>

definition apply_expires_at :: "ticks \<Rightarrow> VersionedValue \<Rightarrow> Cache \<Rightarrow> ticks option" where
  "apply_expires_at now v c =
     (if vv_tombstone v then Some (now + ticks_of_millis (c_tombstone_ttl c))
      else map_option (\<lambda>t. now + ticks_of_millis t) (vv_ttl v))"

definition applied_entry :: "ticks \<Rightarrow> VersionedValue \<Rightarrow> Cache \<Rightarrow> CacheEntry" where
  "applied_entry now v c =
     \<lparr>ce_value = vv_value v, ce_expires_at = apply_expires_at now v c,
      ce_version = vv_version v, ce_tombstone = vv_tombstone v\<rparr>"

definition cache_apply ::
    "ticks \<Rightarrow> string \<Rightarrow> VersionedValue \<Rightarrow> Cache \<Rightarrow> (bool \<times> bool) \<times> Cache" where
  "cache_apply now key v c =
     (let e = applied_entry now v c in
      case find_node key c of
        Some n \<Rightarrow>
          (let was_live = is_live (nd_entry n) now in
           if \<not> is_expired (nd_entry n) now \<and>
              \<not> supersedes (vv_version v) (vv_tombstone v) (vv_value v) (nd_entry n)
           then ((False, was_live), c)
           else
             (let c1 = (if ce_tombstone (nd_entry n)
                        then c\<lparr>c_tombstones := c_tombstones c - 1\<rparr> else c);
                  c2 = (if vv_tombstone v
                        then c1\<lparr>c_tombstones := c_tombstones c1 + 1\<rparr> else c1);
                  n' = n\<lparr>nd_entry := e\<rparr>
              in ((True, was_live),
                  count_set (c2\<lparr>c_lru_list := splice_front n' (store_node n' (c_lru_list c2))\<rparr>))))
      | None \<Rightarrow>
          (let c1 = emplace_front key e (make_room c);
               c2 = (if vv_tombstone v then c1\<lparr>c_tombstones := c_tombstones c1 + 1\<rparr> else c1)
           in ((True, False), count_set c2)))"

definition versioned_of :: "ticks \<Rightarrow> CacheEntry \<Rightarrow> VersionedValue" where
  "versioned_of now e =
     \<lparr>vv_value = ce_value e, vv_version = ce_version e, vv_tombstone = ce_tombstone e,
      vv_ttl = (if ce_tombstone e then None
                else map_option (\<lambda>t. millis_of_ticks (t - now)) (ce_expires_at e))\<rparr>"

definition get_versioned :: "ticks \<Rightarrow> string \<Rightarrow> Cache \<Rightarrow> VersionedValue option \<times> Cache" where
  "get_versioned now key c =
     (case find_node key c of
        None \<Rightarrow> (None, count_miss c)
      | Some n \<Rightarrow>
          if is_expired (nd_entry n) now then (None, count_miss c)
          else (Some (versioned_of now (nd_entry n)),
                if ce_tombstone (nd_entry n) then count_miss c else count_hit c))"

definition cache_snapshot ::
    "ticks \<Rightarrow> Cache \<Rightarrow> (string \<times> VersionedValue) list \<Rightarrow> (string \<times> VersionedValue) list" where
  "cache_snapshot now c out =
     out @ map (\<lambda>n. (nd_key n, versioned_of now (nd_entry n)))
             (filter (\<lambda>n. \<not> is_expired (nd_entry n) now) (c_lru_list c))"

definition cache_size :: "Cache \<Rightarrow> u64" where
  "cache_size c = of_nat (length (c_entries c)) - c_tombstones c"

definition cache_clear :: "Cache \<Rightarrow> Cache" where
  "cache_clear c = c\<lparr>c_entries := [], c_lru_list := [], c_tombstones := 0\<rparr>"

definition cache_expire :: "ticks \<Rightarrow> string \<Rightarrow> millis \<Rightarrow> Cache \<Rightarrow> bool \<times> Cache" where
  "cache_expire now key ttl c =
     (case find_node key c of
        None \<Rightarrow> (False, c)
      | Some n \<Rightarrow>
          if ce_tombstone (nd_entry n) then (False, c)
          else if is_expired (nd_entry n) now then (False, count_expiration (erase_unsafe n c))
          else
            (let n' = n\<lparr>nd_entry := (nd_entry n)\<lparr>ce_expires_at := Some (now + ticks_of_millis ttl)\<rparr>\<rparr>
             in (True, c\<lparr>c_lru_list := store_node n' (c_lru_list c)\<rparr>)))"

definition cache_ttl :: "ticks \<Rightarrow> string \<Rightarrow> Cache \<Rightarrow> int option" where
  "cache_ttl now key c =
     (case find_node key c of
        None \<Rightarrow> None
      | Some n \<Rightarrow>
          if \<not> is_live (nd_entry n) now then None
          else
            (case ce_expires_at (nd_entry n) of
               None \<Rightarrow> None
             | Some t \<Rightarrow> (let diff = seconds_of_ticks (t - now) in Some (if 0 \<le> diff then diff else 0))))"

definition cache_pttl :: "ticks \<Rightarrow> string \<Rightarrow> Cache \<Rightarrow> int" where
  "cache_pttl now key c =
     (case find_node key c of
        None \<Rightarrow> -2
      | Some n \<Rightarrow>
          if \<not> is_live (nd_entry n) now then -2
          else
            (case ce_expires_at (nd_entry n) of
               None \<Rightarrow> -1
             | Some t \<Rightarrow> millis_of_ticks (t - now)))"

text \<open>The loop of \<open>purge_expired\<close> runs over the list once, erasing as it goes.\<close>

fun purge_loop :: "ticks \<Rightarrow> Node list \<Rightarrow> Cache \<Rightarrow> Cache" where
  "purge_loop now [] c = c"
| "purge_loop now (n # ns) c =
     purge_loop now ns
       (if is_expired (nd_entry n) now then count_expiration (erase_unsafe n c) else c)"

definition purge_expired :: "ticks \<Rightarrow> Cache \<Rightarrow> Cache" where
  "purge_expired now c = purge_loop now (c_lru_list c) c"

section \<open>Invariant\<close>

definition index_of :: "Node \<Rightarrow> string \<times> nat" where
  "index_of n = (nd_key n, nd_iter n)"

definition tombs :: "Node list \<Rightarrow> u64" where
  "tombs ns = sum_list (map (\<lambda>n. of_bool (ce_tombstone (nd_entry n))) ns)"

text \<open>
  The index holds exactly the iterators of the list, under their keys; keys and iterators are
  unique; the tombstone counter counts the tombstones; a bounded cache is within its capacity.
\<close>

definition wf_parts :: "nat \<Rightarrow> u64 \<Rightarrow> Node list \<Rightarrow> (string \<times> nat) list \<Rightarrow> nat \<Rightarrow> bool" where
  "wf_parts cap t ns es next \<longleftrightarrow>
     distinct (map nd_iter ns) \<and> distinct (map nd_key ns) \<and>
     (\<forall>n \<in> set ns. nd_iter n < next) \<and>
     mset es = mset (map index_of ns) \<and>
     t = tombs ns \<and>
     (0 < cap \<longrightarrow> length ns \<le> cap)"

definition cache_wf :: "Cache \<Rightarrow> bool" where
  "cache_wf c \<longleftrightarrow>
     wf_parts (c_capacity c) (c_tombstones c) (c_lru_list c) (c_entries c) (c_next_iter c)"

lemma index_of_sel [simp]: "fst (index_of n) = nd_key n" "snd (index_of n) = nd_iter n"
  by (simp_all add: index_of_def)

lemma wf_parts_entries:
  assumes "wf_parts cap t ns es next"
  shows "umap_wf es" and "length es = length ns" and "set es = index_of ` set ns"
proof -
  from assms have m: "mset es = mset (map index_of ns)" and d: "distinct (map nd_key ns)"
    by (auto simp: wf_parts_def)
  from m have "mset (map fst es) = mset (map fst (map index_of ns))"
    by (simp only: mset_map)
  then have "mset (map fst es) = mset (map nd_key ns)"
    by (simp add: comp_def)
  with d show "umap_wf es"
    by (metis mset_eq_imp_distinct_iff umap_wf_def)
  from m show "length es = length ns"
    by (metis length_map mset_eq_length)
  from m show "set es = index_of ` set ns"
    by (metis list.set_map mset_eq_setD)
qed

lemma wf_parts_lookup:
  assumes "wf_parts cap t ns es next"
  shows "map_of es k = Some it \<longleftrightarrow> (\<exists>n \<in> set ns. nd_key n = k \<and> nd_iter n = it)"
proof -
  have "map_of es k = Some it \<longleftrightarrow> (k, it) \<in> set es"
    using wf_parts_entries(1) [OF assms] by (simp add: umap_wf_def)
  also have "\<dots> \<longleftrightarrow> (\<exists>n \<in> set ns. nd_key n = k \<and> nd_iter n = it)"
    using wf_parts_entries(3) [OF assms] by (auto simp: index_of_def)
  finally show ?thesis .
qed

lemma wf_parts_key_inj:
  "wf_parts cap t ns es next \<Longrightarrow> n \<in> set ns \<Longrightarrow> m \<in> set ns \<Longrightarrow> nd_key n = nd_key m \<Longrightarrow> n = m"
  by (auto simp: wf_parts_def distinct_map dest: inj_onD)

lemma wf_parts_iter_inj:
  "wf_parts cap t ns es next \<Longrightarrow> n \<in> set ns \<Longrightarrow> m \<in> set ns \<Longrightarrow> nd_iter n = nd_iter m \<Longrightarrow> n = m"
  by (auto simp: wf_parts_def distinct_map dest: inj_onD)

text \<open>Going through the index finds the node with the key, and no iterator dangles.\<close>

lemma find_node_Some:
  assumes "cache_wf c"
  shows "find_node k c = Some n \<longleftrightarrow> n \<in> set (c_lru_list c) \<and> nd_key n = k"
proof -
  from assms have wf: "wf_parts (c_capacity c) (c_tombstones c) (c_lru_list c) (c_entries c)
      (c_next_iter c)" by (simp add: cache_wf_def)
  then have d: "distinct (map nd_iter (c_lru_list c))" by (simp add: wf_parts_def)
  show ?thesis
  proof (cases "map_of (c_entries c) k")
    case None
    then show ?thesis
      using wf_parts_lookup [OF wf, of k] by (auto simp: find_node_def)
  next
    case (Some it)
    then obtain m where m: "m \<in> set (c_lru_list c)" "nd_key m = k" "nd_iter m = it"
      using wf_parts_lookup [OF wf, of k it] by auto
    then have "find_node k c = Some m"
      using Some d by (simp add: find_node_def find_unique)
    with m show ?thesis using wf_parts_key_inj [OF wf] by auto
  qed
qed

lemma find_node_None:
  assumes "cache_wf c"
  shows "find_node k c = None \<longleftrightarrow> k \<notin> nd_key ` set (c_lru_list c)"
proof (cases "find_node k c")
  case None
  with find_node_Some [OF assms, of k] show ?thesis by auto
next
  case (Some n)
  with find_node_Some [OF assms, of k n] show ?thesis by auto
qed

section \<open>The primitives keep the invariant\<close>

lemma tombs_simps [simp]:
  "tombs [] = 0" "tombs (n # ns) = of_bool (ce_tombstone (nd_entry n)) + tombs ns"
  by (simp_all add: tombs_def)

lemma distinct_map_mset:
  assumes "mset xs = mset ys" shows "distinct (map f xs) = distinct (map f ys)"
proof -
  from assms have "mset (map f xs) = mset (map f ys)" by simp
  then show ?thesis by (rule mset_eq_imp_distinct_iff)
qed

lemma mset_others:
  assumes "distinct (map nd_iter ns)" and "n \<in> set ns"
  shows "mset ns = add_mset n (mset (filter (\<lambda>m. nd_iter m \<noteq> nd_iter n) ns))"
proof -
  have "mset ns = mset (filter (\<lambda>m. nd_iter m = nd_iter n) ns) +
      mset (filter (\<lambda>m. nd_iter m \<noteq> nd_iter n) ns)"
    by (simp add: mset_filter)
  with assms show ?thesis by (simp add: filter_key_unique)
qed

lemma tombs_sum_mset: "tombs ns = (\<Sum>n \<in># mset ns. of_bool (ce_tombstone (nd_entry n)))"
  by (induction ns) simp_all

lemma tombs_mset: "mset ns = mset ns' \<Longrightarrow> tombs ns = tombs ns'"
  by (simp add: tombs_sum_mset)

lemma tombs_others:
  assumes "distinct (map nd_iter ns)" and "n \<in> set ns"
  shows "tombs (filter (\<lambda>m. nd_iter m \<noteq> nd_iter n) ns) =
    tombs ns - of_bool (ce_tombstone (nd_entry n))"
proof -
  have "tombs ns = tombs (n # filter (\<lambda>m. nd_iter m \<noteq> nd_iter n) ns)"
    using mset_others [OF assms] by (intro tombs_mset) simp
  then show ?thesis by simp
qed

lemma filter_store_node:
  "nd_iter n' = i \<Longrightarrow>
   filter (\<lambda>m. nd_iter m \<noteq> i) (store_node n' ns) = filter (\<lambda>m. nd_iter m \<noteq> i) ns"
  by (induction ns) (auto simp: store_node_def)

lemma splice_store:
  "nd_iter n' = nd_iter n \<Longrightarrow>
   splice_front n' (store_node n' ns) = n' # filter (\<lambda>m. nd_iter m \<noteq> nd_iter n) ns"
  by (simp add: splice_front_def filter_store_node)

lemma filter_index:
  assumes "distinct (map nd_iter ns)" and "distinct (map nd_key ns)" and "n \<in> set ns"
  shows "filter (\<lambda>p. fst p \<noteq> nd_key n) (map index_of ns) =
    map index_of (filter (\<lambda>m. nd_iter m \<noteq> nd_iter n) ns)"
proof -
  have "nd_key m = nd_key n \<longleftrightarrow> nd_iter m = nd_iter n" if "m \<in> set ns" for m
    using that assms by (auto simp: distinct_map dest: inj_onD)
  then show ?thesis by (auto simp: filter_map comp_def intro!: arg_cong [where f = "map index_of"] filter_cong)
qed

lemma wf_parts_remove:
  assumes wf: "wf_parts cap t ns es next" and n: "n \<in> set ns"
  shows "wf_parts cap (t - of_bool (ce_tombstone (nd_entry n)))
    (filter (\<lambda>m. nd_iter m \<noteq> nd_iter n) ns) (umap_erase (nd_key n) es) next"
proof -
  from wf have d: "distinct (map nd_iter ns)" "distinct (map nd_key ns)"
    and m: "mset es = mset (map index_of ns)" by (auto simp: wf_parts_def)
  have "mset (umap_erase (nd_key n) es) = filter_mset (\<lambda>p. fst p \<noteq> nd_key n) (mset es)"
    by (simp add: umap_erase_def mset_filter)
  also have "\<dots> = mset (filter (\<lambda>p. fst p \<noteq> nd_key n) (map index_of ns))"
    by (simp add: m mset_filter)
  also have "\<dots> = mset (map index_of (filter (\<lambda>m. nd_iter m \<noteq> nd_iter n) ns))"
    using filter_index [OF d n] by simp
  finally show ?thesis
    using wf d n by (auto simp: wf_parts_def tombs_others distinct_map_filter
        intro: order_trans [OF length_filter_le])
qed

lemma wf_parts_add:
  assumes wf: "wf_parts cap t ns es next" and k: "k \<notin> nd_key ` set ns"
    and room: "0 < cap \<Longrightarrow> length ns < cap"
  shows "wf_parts cap (t + of_bool (ce_tombstone e))
    (\<lparr>nd_iter = next, nd_key = k, nd_entry = e, nd_last_promoted = p\<rparr> # ns)
    (umap_emplace k next es) (Suc next)"
proof -
  have "map_of es k = None"
    using wf_parts_lookup [OF wf, of k] k by (cases "map_of es k") auto
  with assms show ?thesis
    by (auto simp: wf_parts_def umap_emplace_def index_of_def less_Suc_eq)
qed

lemma wf_parts_replace:
  assumes wf: "wf_parts cap t ns es next" and n: "n \<in> set ns"
    and n': "nd_iter n' = nd_iter n" "nd_key n' = nd_key n"
  shows "wf_parts cap (t - of_bool (ce_tombstone (nd_entry n)) + of_bool (ce_tombstone (nd_entry n')))
    (n' # filter (\<lambda>m. nd_iter m \<noteq> nd_iter n) ns) es next"
proof -
  define rest where "rest = filter (\<lambda>m. nd_iter m \<noteq> nd_iter n) ns"
  from wf have d: "distinct (map nd_iter ns)" "distinct (map nd_key ns)" by (auto simp: wf_parts_def)
  have ms: "mset ns = mset (n # rest)" using mset_others [OF d(1) n] by (simp add: rest_def)
  have "mset (map index_of ns) = mset (map index_of (n # rest))" by (simp only: mset_map ms)
  then have ix: "mset es = mset (map index_of (n' # rest))"
    using n' wf by (simp add: index_of_def wf_parts_def)
  have "distinct (map nd_iter (n # rest))" "distinct (map nd_key (n # rest))"
    using d distinct_map_mset [OF ms] by blast+
  then have d': "distinct (map nd_iter (n' # rest))" "distinct (map nd_key (n' # rest))"
    using n' by simp_all
  have len: "length (n' # rest) = length ns" using mset_eq_length [OF ms] by simp
  have "set rest \<subseteq> set ns" by (auto simp: rest_def)
  then have b: "\<forall>m \<in> set (n' # rest). nd_iter m < next"
    using wf n n' by (auto simp: wf_parts_def)
  have tb: "tombs (n' # rest) =
      t - of_bool (ce_tombstone (nd_entry n)) + of_bool (ce_tombstone (nd_entry n'))"
    using tombs_others [OF d(1) n] wf by (simp add: rest_def wf_parts_def)
  show ?thesis
    unfolding rest_def [symmetric] wf_parts_def
    using d' b ix tb len wf by (simp only: wf_parts_def simp_thms) blast
qed

lemma mset_store_node:
  assumes "distinct (map nd_iter ns)" and "n \<in> set ns" and "nd_iter n' = nd_iter n"
  shows "mset (store_node n' ns) = mset (n' # filter (\<lambda>m. nd_iter m \<noteq> nd_iter n) ns)"
  using assms
proof (induction ns)
  case Nil
  then show ?case by simp
next
  case (Cons m ns)
  show ?case
  proof (cases "m = n")
    case True
    with Cons.prems have "\<forall>x \<in> set ns. nd_iter x \<noteq> nd_iter n" by (auto simp: image_iff)
    then have "store_node n' ns = ns" "filter (\<lambda>m. nd_iter m \<noteq> nd_iter n) ns = ns"
      using Cons.prems by (auto simp: store_node_def map_idI filter_id_conv)
    with True Cons.prems show ?thesis by (simp add: store_node_def)
  next
    case False
    with Cons.prems have "n \<in> set ns" "nd_iter m \<noteq> nd_iter n" by auto
    with Cons show ?thesis by (simp add: store_node_def)
  qed
qed

lemma wf_parts_mset:
  assumes "mset ns = mset ns'" shows "wf_parts cap t ns es next = wf_parts cap t ns' es next"
proof -
  have "set ns = set ns'" "length ns = length ns'"
    using assms by (auto dest: mset_eq_setD mset_eq_length)
  moreover have "mset (map index_of ns) = mset (map index_of ns')" using assms by simp
  ultimately show ?thesis
    using tombs_mset [OF assms] distinct_map_mset [OF assms, of nd_iter]
      distinct_map_mset [OF assms, of nd_key] by (simp add: wf_parts_def)
qed

lemma wf_parts_store:
  assumes wf: "wf_parts cap t ns es next" and n: "n \<in> set ns"
    and n': "nd_iter n' = nd_iter n" "nd_key n' = nd_key n"
  shows "wf_parts cap (t - of_bool (ce_tombstone (nd_entry n)) + of_bool (ce_tombstone (nd_entry n')))
    (store_node n' ns) es next"
proof -
  from wf have "distinct (map nd_iter ns)" by (simp add: wf_parts_def)
  then have "mset (store_node n' ns) = mset (n' # filter (\<lambda>m. nd_iter m \<noteq> nd_iter n) ns)"
    using n n'(1) by (rule mset_store_node)
  from wf_parts_mset [OF this] wf_parts_replace [OF assms] show ?thesis by simp
qed

section \<open>The operations keep the invariant\<close>

lemma count_sel [simp]:
  "c_lru_list (count_hit c) = c_lru_list c" "c_lru_list (count_miss c) = c_lru_list c"
  "c_lru_list (count_set c) = c_lru_list c" "c_lru_list (count_delete c) = c_lru_list c"
  "c_lru_list (count_eviction c) = c_lru_list c" "c_lru_list (count_expiration c) = c_lru_list c"
  "c_capacity (count_hit c) = c_capacity c" "c_capacity (count_miss c) = c_capacity c"
  "c_capacity (count_set c) = c_capacity c" "c_capacity (count_delete c) = c_capacity c"
  "c_capacity (count_eviction c) = c_capacity c" "c_capacity (count_expiration c) = c_capacity c"
  "c_tombstone_ttl (count_hit c) = c_tombstone_ttl c" "c_tombstone_ttl (count_miss c) = c_tombstone_ttl c"
  "c_tombstone_ttl (count_set c) = c_tombstone_ttl c" "c_tombstone_ttl (count_delete c) = c_tombstone_ttl c"
  "c_tombstone_ttl (count_eviction c) = c_tombstone_ttl c"
  "c_tombstone_ttl (count_expiration c) = c_tombstone_ttl c"
  "c_entries (count_set c) = c_entries c"
  by (simp_all add: count_defs)

lemma count_wf [simp]:
  "cache_wf (count_hit c) = cache_wf c" "cache_wf (count_miss c) = cache_wf c"
  "cache_wf (count_set c) = cache_wf c" "cache_wf (count_delete c) = cache_wf c"
  "cache_wf (count_eviction c) = cache_wf c" "cache_wf (count_expiration c) = cache_wf c"
  by (simp_all add: count_defs cache_wf_def)

lemma count_find [simp]:
  "find_node k (count_hit c) = find_node k c" "find_node k (count_miss c) = find_node k c"
  "find_node k (count_set c) = find_node k c"
  by (simp_all add: count_defs find_node_def split: option.split)

lemma find_node_in: "find_node k c = Some n \<Longrightarrow> n \<in> set (c_lru_list c)"
  by (auto simp: find_node_def find_Some_iff split: option.splits)

lemma erase_sel [simp]:
  "c_lru_list (erase_unsafe n c) = filter (\<lambda>m. nd_iter m \<noteq> nd_iter n) (c_lru_list c)"
  "c_capacity (erase_unsafe n c) = c_capacity c"
  "c_tombstone_ttl (erase_unsafe n c) = c_tombstone_ttl c"
  by (simp_all add: erase_unsafe_def Let_def)

lemma erase_wf [cache_wf_intros]:
  assumes "cache_wf c" and "n \<in> set (c_lru_list c)"
  shows "cache_wf (erase_unsafe n c)"
  using assms wf_parts_remove [OF assms(1) [unfolded cache_wf_def] assms(2)]
  by (cases "ce_tombstone (nd_entry n)") (auto simp: cache_wf_def erase_unsafe_def)

lemma filter_iter_last:
  assumes "distinct (map nd_iter ns)" and "ns \<noteq> []"
  shows "filter (\<lambda>m. nd_iter m \<noteq> nd_iter (last ns)) ns = butlast ns"
  using assms
proof (induction ns rule: rev_induct)
  case Nil
  then show ?case by simp
next
  case (snoc n ns)
  then show ?case by (auto simp: filter_id_conv image_iff)
qed

lemma cache_wf_iters: "cache_wf c \<Longrightarrow> distinct (map nd_iter (c_lru_list c))"
  by (simp add: cache_wf_def wf_parts_def)

lemma cache_wf_entries: "cache_wf c \<Longrightarrow> length (c_entries c) = length (c_lru_list c)"
  by (simp add: cache_wf_def wf_parts_entries(2))

text \<open>Making room drops the node at the back, and only when the cache is full.\<close>

lemma make_room_list:
  assumes "cache_wf c"
  shows "c_lru_list (make_room c) =
    (if 0 < c_capacity c \<and> c_capacity c \<le> length (c_lru_list c)
     then butlast (c_lru_list c) else c_lru_list c)"
  using assms cache_wf_iters [OF assms]
  by (auto simp: make_room_def evict_lru_unsafe_def cache_wf_entries filter_iter_last)

lemma make_room_wf [cache_wf_intros]: "cache_wf c \<Longrightarrow> cache_wf (make_room c)"
  by (auto simp: make_room_def evict_lru_unsafe_def erase_wf)

lemma make_room_sel [simp]:
  "c_capacity (make_room c) = c_capacity c" "c_tombstone_ttl (make_room c) = c_tombstone_ttl c"
  by (simp_all add: make_room_def evict_lru_unsafe_def)

lemma make_room_leaves_room:
  "cache_wf c \<Longrightarrow> 0 < c_capacity c \<Longrightarrow> length (c_lru_list (make_room c)) < c_capacity c"
  by (auto simp: make_room_list cache_wf_def wf_parts_def)

lemma make_room_keys:
  "cache_wf c \<Longrightarrow> nd_key ` set (c_lru_list (make_room c)) \<subseteq> nd_key ` set (c_lru_list c)"
  by (auto simp: make_room_list dest: in_set_butlastD)

lemma insert_wf [cache_wf_intros]:
  assumes "cache_wf c" and "k \<notin> nd_key ` set (c_lru_list c)"
  shows "cache_wf (if ce_tombstone e
    then (emplace_front k e (make_room c))\<lparr>c_tombstones := c_tombstones (emplace_front k e (make_room c)) + 1\<rparr>
    else emplace_front k e (make_room c))"
proof -
  let ?c = "make_room c"
  have "wf_parts (c_capacity ?c) (c_tombstones ?c) (c_lru_list ?c) (c_entries ?c) (c_next_iter ?c)"
    using make_room_wf [OF assms(1)] by (simp add: cache_wf_def)
  moreover have "k \<notin> nd_key ` set (c_lru_list ?c)"
    using assms make_room_keys by blast
  ultimately show ?thesis
    using wf_parts_add [of "c_capacity ?c" "c_tombstones ?c" "c_lru_list ?c" "c_entries ?c"
        "c_next_iter ?c" k e 0] make_room_leaves_room [OF assms(1)]
    by (auto simp: cache_wf_def emplace_front_def split: if_splits)
qed

text \<open>Writing an entry through an iterator and moving the node to the front.\<close>

lemma overwrite_wf [cache_wf_intros]:
  assumes wf: "cache_wf c" and n: "n \<in> set (c_lru_list c)"
    and n': "nd_iter n' = nd_iter n" "nd_key n' = nd_key n"
  shows "cache_wf
    (let c1 = (if ce_tombstone (nd_entry n) then c\<lparr>c_tombstones := c_tombstones c - 1\<rparr> else c);
         c2 = (if ce_tombstone (nd_entry n') then c1\<lparr>c_tombstones := c_tombstones c1 + 1\<rparr> else c1)
     in c2\<lparr>c_lru_list := splice_front n' (store_node n' (c_lru_list c2))\<rparr>)"
  using wf_parts_replace [OF wf [unfolded cache_wf_def] n n']
  by (cases "ce_tombstone (nd_entry n)"; cases "ce_tombstone (nd_entry n')")
    (simp_all add: cache_wf_def splice_store n')

lemma set_entry_wf [cache_wf_intros]:
  assumes wf: "cache_wf c" and n: "n \<in> set (c_lru_list c)"
    and n': "nd_iter n' = nd_iter n" "nd_key n' = nd_key n"
    and t: "ce_tombstone (nd_entry n') = ce_tombstone (nd_entry n)"
  shows "cache_wf (c\<lparr>c_lru_list := store_node n' (c_lru_list c)\<rparr>)"
  using wf_parts_store [OF wf [unfolded cache_wf_def] n n'] t by (simp add: cache_wf_def)

lemma promote_wf [cache_wf_intros]:
  assumes wf: "cache_wf c" and n: "n \<in> set (c_lru_list c)"
    and n': "nd_iter n' = nd_iter n" "nd_key n' = nd_key n"
    and t: "ce_tombstone (nd_entry n') = ce_tombstone (nd_entry n)"
  shows "cache_wf (c\<lparr>c_lru_list := splice_front n' (store_node n' (c_lru_list c))\<rparr>)"
  using wf_parts_replace [OF wf [unfolded cache_wf_def] n n'] t
  by (simp add: cache_wf_def splice_store n')

lemma new_cache_wf [cache_wf_intros]: "cache_wf (new_cache cap ttl)"
  by (simp add: cache_wf_def wf_parts_def new_cache_def)

lemma cache_set_wf [cache_wf_intros]:
  assumes "cache_wf c" shows "cache_wf (cache_set now key val ttl c)"
proof (cases "find_node key c")
  case None
  define e where "e = \<lparr>ce_value = val, ce_expires_at = map_option (\<lambda>t. now + ticks_of_millis t) ttl,
    ce_version = 0, ce_tombstone = False\<rparr>"
  have "key \<notin> nd_key ` set (c_lru_list (count_set c))"
    using None assms by (simp add: find_node_None)
  then show ?thesis
    using None insert_wf [of "count_set c" key e] assms by (simp add: cache_set_def e_def)
next
  case (Some n)
  define n' where "n' = n\<lparr>nd_entry := \<lparr>ce_value = val,
    ce_expires_at = map_option (\<lambda>t. now + ticks_of_millis t) ttl, ce_version = 0, ce_tombstone = False\<rparr>\<rparr>"
  have "n \<in> set (c_lru_list (count_set c))" using Some by (simp add: find_node_in)
  from overwrite_wf [OF _ this, of n'] show ?thesis
    using Some assms by (simp add: cache_set_def n'_def Let_def)
qed

lemma get_shared_wf [cache_wf_intros]: "cache_wf c \<Longrightarrow> cache_wf (snd (get_shared now key c))"
  by (auto simp: get_shared_def Let_def split: option.split)

lemma get_promote_wf [cache_wf_intros]:
  assumes "cache_wf c" shows "cache_wf (get_promote now key c)"
proof (cases "find_node key c")
  case (Some n)
  then show ?thesis
    using promote_wf [OF assms find_node_in [OF Some], of "n\<lparr>nd_last_promoted := now\<rparr>"]
    by (simp add: get_promote_def Let_def)
qed (simp add: get_promote_def assms)

lemma cache_get_wf [cache_wf_intros]: "cache_wf c \<Longrightarrow> cache_wf (snd (cache_get now key c))"
  using get_shared_wf [of c now key]
  by (auto simp: cache_get_def get_promote_wf split: prod.split)

lemma cache_remove_wf [cache_wf_intros]: "cache_wf c \<Longrightarrow> cache_wf (snd (cache_remove now key c))"
  by (auto simp: cache_remove_def find_node_in erase_wf split: option.split)

lemma cache_apply_wf [cache_wf_intros]:
  assumes "cache_wf c" shows "cache_wf (snd (cache_apply now key v c))"
proof (cases "find_node key c")
  case None
  with assms have "key \<notin> nd_key ` set (c_lru_list c)" by (simp add: find_node_None)
  from insert_wf [OF assms this, of "applied_entry now v c"] None show ?thesis
    by (simp add: cache_apply_def applied_entry_def Let_def split: if_splits)
next
  case (Some n)
  define n' where "n' = n\<lparr>nd_entry := applied_entry now v c\<rparr>"
  have "ce_tombstone (nd_entry n') = vv_tombstone v" by (simp add: n'_def applied_entry_def)
  with Some overwrite_wf [OF assms, of n n'] assms show ?thesis
    by (auto simp: cache_apply_def find_node_in Let_def n'_def [symmetric])
       (auto simp: n'_def)
qed

lemma get_versioned_wf [cache_wf_intros]:
  "cache_wf c \<Longrightarrow> cache_wf (snd (get_versioned now key c))"
  by (auto simp: get_versioned_def split: option.split)

lemma cache_clear_wf [cache_wf_intros]: "cache_wf c \<Longrightarrow> cache_wf (cache_clear c)"
  by (simp add: cache_wf_def wf_parts_def cache_clear_def)

lemma cache_expire_wf [cache_wf_intros]:
  assumes "cache_wf c" shows "cache_wf (snd (cache_expire now key ttl c))"
proof (cases "find_node key c")
  case (Some n)
  then show ?thesis
    using assms set_entry_wf [OF assms find_node_in [OF Some],
      of "n\<lparr>nd_entry := (nd_entry n)\<lparr>ce_expires_at := Some (now + ticks_of_millis ttl)\<rparr>\<rparr>"]
    by (simp add: cache_expire_def find_node_in erase_wf)
qed (simp add: cache_expire_def assms)

lemma purge_loop_wf:
  "cache_wf c \<Longrightarrow> distinct (map nd_iter ns) \<Longrightarrow> set ns \<subseteq> set (c_lru_list c) \<Longrightarrow>
   cache_wf (purge_loop now ns c)"
proof (induction ns arbitrary: c)
  case Nil
  then show ?case by simp
next
  case (Cons n ns)
  let ?c = "if is_expired (nd_entry n) now then count_expiration (erase_unsafe n c) else c"
  have "set ns \<subseteq> set (c_lru_list ?c)" using Cons.prems by (auto simp: image_iff)
  moreover have "cache_wf ?c" using Cons.prems by (simp add: erase_wf)
  ultimately show ?case using Cons.IH [of ?c] Cons.prems(2) by simp
qed

lemma purge_expired_wf [cache_wf_intros]: "cache_wf c \<Longrightarrow> cache_wf (purge_expired now c)"
  by (simp add: purge_expired_def purge_loop_wf cache_wf_iters)

end
