(* ===== verification/Lru.thy ===== *)
theory Lru
  imports Std_Map "HOL-Library.Multiset"
begin

text \<open>
  Recency order. \<open>LRUTracker\<close> (\<open>include/shardcache/lru.hpp\<close>, \<open>src/lru.cpp\<close>) keeps the keys in
  a \<open>std::list\<close>, most recently used first, and a map from keys to list iterators. The order
  it promises is the interface \<open>recency\<close>, which the cache promises too.
\<close>

section \<open>The promised order\<close>

definition touch_order :: "'k \<Rightarrow> 'k list \<Rightarrow> 'k list" where
  "touch_order k ks = k # filter (\<lambda>x. x \<noteq> k) ks"

text \<open>The first element \<open>remdups\<close> keeps is the one whose last occurrence comes first.\<close>

lemma remdups_hd_split:
  "ks \<noteq> [] \<Longrightarrow> \<exists>us vs. ks = us @ hd (remdups ks) # vs \<and> hd (remdups ks) \<notin> set vs \<and>
     set ks = insert (hd (remdups ks)) (set vs)"
proof (induction ks)
  case (Cons k ks)
  show ?case
  proof (cases "k \<in> set ks")
    case True
    then have "ks \<noteq> []" by auto
    define x where "x = hd (remdups ks)"
    from Cons.IH [OF \<open>ks \<noteq> []\<close>, folded x_def] obtain us vs
      where split: "ks = us @ x # vs" "x \<notin> set vs" "set ks = insert x (set vs)" by blast
    have hd: "hd (remdups (k # ks)) = x" using True by (simp add: x_def)
    have "k # ks = (k # us) @ x # vs \<and> x \<notin> set vs \<and> set (k # ks) = insert x (set vs)"
      using split True by auto
    then show ?thesis unfolding hd by blast
  next
    case False
    then show ?thesis by (intro exI [of _ "[]"] exI [of _ ks]) auto
  qed
qed simp

locale recency =
  fixes order :: "'s \<Rightarrow> 'k list"
    and touch :: "'k \<Rightarrow> 's \<Rightarrow> 's"
    and inv :: "'s \<Rightarrow> bool"
  assumes order_touch: "inv s \<Longrightarrow> order (touch k s) = touch_order k (order s)"
    and inv_touch: "inv s \<Longrightarrow> inv (touch k s)"
begin

lemma inv_touches: "inv s \<Longrightarrow> inv (fold touch ks s)"
  by (induction ks arbitrary: s) (auto simp: inv_touch)

text \<open>
  After any sequence of uses the order is the distinct keys by their last use, latest first,
  followed by the keys not used since.
\<close>

lemma order_touches:
  "inv s \<Longrightarrow>
   order (fold touch ks s) = rev (remdups ks) @ filter (\<lambda>x. x \<notin> set ks) (order s)"
proof (induction ks rule: rev_induct)
  case Nil
  then show ?case by simp
next
  case (snoc k ks)
  have "remdups (ks @ [k]) = filter (\<lambda>x. x \<noteq> k) (remdups ks) @ [k]"
    by (induction ks) auto
  with snoc show ?case
    by (auto simp: inv_touches order_touch touch_order_def rev_filter conj_commute intro!: filter_cong)
qed

text \<open>So the least recently used of the used keys, the last one of the order, was last used
  before all the others.\<close>

lemma last_is_oldest:
  assumes "inv s" and "order s = []" and "ks \<noteq> []"
  obtains us vs where "ks = us @ last (order (fold touch ks s)) # vs"
    and "last (order (fold touch ks s)) \<notin> set vs"
    and "set ks = insert (last (order (fold touch ks s))) (set vs)"
proof -
  have l: "last (order (fold touch ks s)) = hd (remdups ks)"
    using assms by (simp add: order_touches last_rev)
  show thesis using remdups_hd_split [OF assms(3)] that unfolding l by blast
qed

end

section \<open>LRUTracker\<close>

text \<open>A list element with the identity its iterator stands for.\<close>

record LRUTracker =
  lt_capacity :: nat
  lt_list :: "(nat \<times> string) list"
  lt_map :: "(string \<times> nat) list"
  lt_next_iter :: nat

definition new_tracker :: "nat \<Rightarrow> LRUTracker" where
  "new_tracker capacity =
     \<lparr>lt_capacity = capacity, lt_list = [], lt_map = [], lt_next_iter = 0\<rparr>"

definition lru_touch :: "string \<Rightarrow> LRUTracker \<Rightarrow> LRUTracker" where
  "lru_touch key t =
     (case map_of (lt_map t) key of
        Some it \<Rightarrow>
          t\<lparr>lt_list := filter (\<lambda>p. fst p = it) (lt_list t) @ filter (\<lambda>p. fst p \<noteq> it) (lt_list t)\<rparr>
      | None \<Rightarrow>
          t\<lparr>lt_list := (lt_next_iter t, key) # lt_list t,
            lt_map := umap_set key (lt_next_iter t) (lt_map t),
            lt_next_iter := Suc (lt_next_iter t)\<rparr>)"

definition evict_lru :: "LRUTracker \<Rightarrow> string option \<times> LRUTracker" where
  "evict_lru t =
     (if lt_list t = [] then (None, t)
      else
        (let tail_key = snd (last (lt_list t))
         in (Some tail_key,
             t\<lparr>lt_map := umap_erase tail_key (lt_map t), lt_list := butlast (lt_list t)\<rparr>)))"

definition lru_remove :: "string \<Rightarrow> LRUTracker \<Rightarrow> LRUTracker" where
  "lru_remove key t =
     (case map_of (lt_map t) key of
        None \<Rightarrow> t
      | Some it \<Rightarrow>
          t\<lparr>lt_list := filter (\<lambda>p. fst p \<noteq> it) (lt_list t), lt_map := umap_erase key (lt_map t)\<rparr>)"

definition lru_clear :: "LRUTracker \<Rightarrow> LRUTracker" where
  "lru_clear t = t\<lparr>lt_list := [], lt_map := []\<rparr>"

definition lru_size :: "LRUTracker \<Rightarrow> nat" where
  "lru_size t = length (lt_map t)"

definition lru_order :: "LRUTracker \<Rightarrow> string list" where
  "lru_order t = map snd (lt_list t)"

definition tracker_wf :: "LRUTracker \<Rightarrow> bool" where
  "tracker_wf t \<longleftrightarrow>
     distinct (map fst (lt_list t)) \<and> distinct (map snd (lt_list t)) \<and>
     (\<forall>p \<in> set (lt_list t). fst p < lt_next_iter t) \<and>
     umap_wf (lt_map t) \<and>
     (\<forall>k it. map_of (lt_map t) k = Some it \<longleftrightarrow> (it, k) \<in> set (lt_list t))"

lemma tracker_wf_new: "tracker_wf (new_tracker cap)"
  by (simp add: tracker_wf_def new_tracker_def)

lemma tracker_wf_lookup:
  "tracker_wf t \<Longrightarrow> map_of (lt_map t) k = Some it \<Longrightarrow> (it, k) \<in> set (lt_list t)"
  by (simp add: tracker_wf_def)

lemma tracker_wf_absent:
  assumes "tracker_wf t" and "map_of (lt_map t) k = None"
  shows "k \<notin> snd ` set (lt_list t)"
proof
  assume "k \<in> snd ` set (lt_list t)"
  then obtain it where "(it, k) \<in> set (lt_list t)" by auto
  with assms(1) have "map_of (lt_map t) k = Some it" by (simp add: tracker_wf_def)
  with assms(2) show False by simp
qed

lemma tracker_wf_distinct:
  "tracker_wf t \<Longrightarrow> distinct (map fst (lt_list t))" "tracker_wf t \<Longrightarrow> distinct (map snd (lt_list t))"
  by (simp_all add: tracker_wf_def)

lemma filter_iter_at:
  "distinct (map fst l) \<Longrightarrow> (it, k) \<in> set l \<Longrightarrow> filter (\<lambda>p. fst p = it) l = [(it, k)]"
  using filter_key_unique [of fst l "(it, k)"] by simp

lemma pair_in_unique:
  assumes "distinct (map fst l)" and "distinct (map snd l)" and "(it, k) \<in> set l"
    and "(a, b) \<in> set l"
  shows "a = it \<longleftrightarrow> b = k"
  using assms inj_onD [of fst "set l" "(a, b)" "(it, k)"] inj_onD [of snd "set l" "(a, b)" "(it, k)"]
  by (auto simp: distinct_map)

lemma map_snd_filter_iter:
  assumes "distinct (map fst l)" and "distinct (map snd l)" and "(it, k) \<in> set l"
  shows "map snd (filter (\<lambda>p. fst p \<noteq> it) l) = filter (\<lambda>x. x \<noteq> k) (map snd l)"
proof -
  have "fst p = it \<longleftrightarrow> snd p = k" if "p \<in> set l" for p
    using that pair_in_unique [OF assms, of "fst p" "snd p"] by simp
  then show ?thesis by (auto simp: filter_map comp_def intro!: arg_cong [where f = "map snd"] filter_cong)
qed

lemma filter_absent: "k \<notin> snd ` set l \<Longrightarrow> filter (\<lambda>x. x \<noteq> k) (map snd l) = map snd l"
  by (auto simp: filter_id_conv)

lemma lru_touch_order:
  assumes wf: "tracker_wf t"
  shows "lru_order (lru_touch k t) = touch_order k (lru_order t)"
proof (cases "map_of (lt_map t) k")
  case None
  with filter_absent [OF tracker_wf_absent [OF wf None]] show ?thesis
    by (simp add: lru_touch_def lru_order_def touch_order_def)
next
  case (Some it)
  with tracker_wf_lookup [OF wf Some] tracker_wf_distinct [OF wf] show ?thesis
    by (simp add: lru_touch_def lru_order_def touch_order_def filter_iter_at map_snd_filter_iter)
qed

lemma lru_touch_wf:
  assumes wf: "tracker_wf t" shows "tracker_wf (lru_touch k t)"
proof (cases "map_of (lt_map t) k")
  case None
  from tracker_wf_absent [OF wf None] have "(it, k) \<notin> set (lt_list t)" for it by force
  with wf None show ?thesis
    by (auto simp: tracker_wf_def lru_touch_def map_of_umap_set umap_wf_set less_Suc_eq
        dest: bspec split: if_splits)
next
  case (Some it)
  from tracker_wf_lookup [OF wf Some] tracker_wf_distinct [OF wf]
  have f: "filter (\<lambda>p. fst p = it) (lt_list t) = [(it, k)]" by (simp add: filter_iter_at)
  have "distinct (map snd (lt_list (lru_touch k t)))"
    using lru_touch_order [OF wf, of k] tracker_wf_distinct [OF wf]
    by (simp add: lru_order_def touch_order_def)
  moreover have t': "lru_touch k t = t\<lparr>lt_list := (it, k) # filter (\<lambda>p. fst p \<noteq> it) (lt_list t)\<rparr>"
    by (simp add: lru_touch_def Some f)
  moreover have "set ((it, k) # filter (\<lambda>p. fst p \<noteq> it) (lt_list t)) = set (lt_list t)"
    using tracker_wf_lookup [OF wf Some] pair_in_unique [OF tracker_wf_distinct [OF wf], of it k]
    by auto blast
  moreover have "distinct (map fst ((it, k) # filter (\<lambda>p. fst p \<noteq> it) (lt_list t)))"
    using tracker_wf_distinct [OF wf] by (auto simp: distinct_map_filter)
  ultimately show ?thesis
    using wf by (simp only: tracker_wf_def) simp
qed

interpretation tracker: recency lru_order lru_touch tracker_wf
  by unfold_locales (simp_all add: lru_touch_order lru_touch_wf)

lemma evict_lru_wf:
  assumes wf: "tracker_wf t" shows "tracker_wf (snd (evict_lru t))"
proof (cases "lt_list t = []")
  case False
  then obtain l it k where l: "lt_list t = l @ [(it, k)]" by (metis rev_exhaust surj_pair)
  with tracker_wf_distinct [OF wf] have k: "(j, k) \<notin> set l" for j by (auto simp: image_iff)
  have "map_of (umap_erase k (lt_map t)) k' = Some j \<longleftrightarrow> (j, k') \<in> set l" for k' j
    using wf l k by (auto simp: tracker_wf_def map_of_umap_erase)
  with wf l show ?thesis
    by (simp add: tracker_wf_def evict_lru_def Let_def umap_wf_erase)
qed (simp add: evict_lru_def wf)

lemma lru_remove_order:
  assumes wf: "tracker_wf t"
  shows "lru_order (lru_remove k t) = filter (\<lambda>x. x \<noteq> k) (lru_order t)"
proof (cases "map_of (lt_map t) k")
  case None
  with filter_absent [OF tracker_wf_absent [OF wf None]] show ?thesis
    by (simp add: lru_remove_def lru_order_def)
next
  case (Some it)
  with tracker_wf_lookup [OF wf Some] tracker_wf_distinct [OF wf] show ?thesis
    by (simp add: lru_remove_def lru_order_def map_snd_filter_iter)
qed

end
