(* ===== verification/Cache_Spec.thy ===== *)
theory Cache_Spec
  imports Cache Lru
begin

text \<open>
  What one shard promises: a map from keys to entries, kept in order of use, that drops its
  least recently used entry when a new key finds it full. The specification is an association
  list; the cache with its linked list, iterators and index refines it, operation by operation
  and for every interleaving of critical sections.
\<close>

section \<open>Specification\<close>

type_synonym lru_map = "(string \<times> CacheEntry) list"

definition lru_put :: "nat \<Rightarrow> string \<Rightarrow> CacheEntry \<Rightarrow> lru_map \<Rightarrow> lru_map" where
  "lru_put cap k e l =
     (k, e) # (if k \<in> fst ` set l then filter (\<lambda>p. fst p \<noteq> k) l
               else if 0 < cap \<and> cap \<le> length l then butlast l
               else l)"

definition lru_front :: "string \<Rightarrow> lru_map \<Rightarrow> lru_map" where
  "lru_front k l =
     (case map_of l k of None \<Rightarrow> l | Some e \<Rightarrow> (k, e) # filter (\<lambda>p. fst p \<noteq> k) l)"

definition lru_drop :: "string \<Rightarrow> lru_map \<Rightarrow> lru_map" where
  "lru_drop k l = filter (\<lambda>p. fst p \<noteq> k) l"

definition live_value :: "ticks \<Rightarrow> CacheEntry option \<Rightarrow> string option" where
  "live_value now e =
     (case e of None \<Rightarrow> None | Some e \<Rightarrow> if is_live e now then Some (ce_value e) else None)"

definition accepts :: "ticks \<Rightarrow> VersionedValue \<Rightarrow> CacheEntry option \<Rightarrow> bool" where
  "accepts now v e =
     (case e of
        None \<Rightarrow> True
      | Some e \<Rightarrow> is_expired e now \<or> stamp_less (stamp_of_entry e) (stamp_of_value v))"

text \<open>The critical sections of the class, as calls with the clock value each one reads.\<close>

datatype cache_op =
    OpSet ticks string string "millis option"
  | OpGetShared ticks string
  | OpGetPromote ticks string
  | OpRemove ticks string
  | OpContains ticks string
  | OpApply ticks string VersionedValue
  | OpGetVersioned ticks string
  | OpSnapshot ticks
  | OpClear
  | OpExpire ticks string millis
  | OpPttl ticks string
  | OpPurge ticks

datatype reply =
    RUnit
  | RValue "string option"
  | RBool bool
  | RApplied bool bool
  | RVersioned "VersionedValue option"
  | RSnapshot "(string \<times> VersionedValue) list"
  | RInt int

fun cache_step :: "cache_op \<Rightarrow> Cache \<Rightarrow> reply \<times> Cache" where
  "cache_step (OpSet now k v ttl) c = (RUnit, cache_set now k v ttl c)"
| "cache_step (OpGetShared now k) c =
     (case get_shared now k c of ((v, _), c') \<Rightarrow> (RValue v, c'))"
| "cache_step (OpGetPromote now k) c = (RUnit, get_promote now k c)"
| "cache_step (OpRemove now k) c = (case cache_remove now k c of (b, c') \<Rightarrow> (RBool b, c'))"
| "cache_step (OpContains now k) c = (RBool (cache_contains now k c), c)"
| "cache_step (OpApply now k v) c =
     (case cache_apply now k v c of ((b, l), c') \<Rightarrow> (RApplied b l, c'))"
| "cache_step (OpGetVersioned now k) c =
     (case get_versioned now k c of (v, c') \<Rightarrow> (RVersioned v, c'))"
| "cache_step (OpSnapshot now) c = (RSnapshot (cache_snapshot now c []), c)"
| "cache_step OpClear c = (RUnit, cache_clear c)"
| "cache_step (OpExpire now k ttl) c = (case cache_expire now k ttl c of (b, c') \<Rightarrow> (RBool b, c'))"
| "cache_step (OpPttl now k) c = (RInt (cache_pttl now k c), c)"
| "cache_step (OpPurge now) c = (RUnit, purge_expired now c)"

fun spec_step :: "nat \<Rightarrow> millis \<Rightarrow> cache_op \<Rightarrow> lru_map \<Rightarrow> reply \<times> lru_map" where
  "spec_step cap tt (OpSet now k v ttl) l =
     (RUnit, lru_put cap k \<lparr>ce_value = v, ce_expires_at = map_option (\<lambda>t. now + ticks_of_millis t) ttl,
        ce_version = 0, ce_tombstone = False\<rparr> l)"
| "spec_step cap tt (OpGetShared now k) l = (RValue (live_value now (map_of l k)), l)"
| "spec_step cap tt (OpGetPromote now k) l = (RUnit, lru_front k l)"
| "spec_step cap tt (OpRemove now k) l =
     (RBool (live_value now (map_of l k) \<noteq> None), lru_drop k l)"
| "spec_step cap tt (OpContains now k) l = (RBool (live_value now (map_of l k) \<noteq> None), l)"
| "spec_step cap tt (OpApply now k v) l =
     (RApplied (accepts now v (map_of l k)) (live_value now (map_of l k) \<noteq> None),
      if accepts now v (map_of l k)
      then lru_put cap k \<lparr>ce_value = vv_value v,
             ce_expires_at = (if vv_tombstone v then Some (now + ticks_of_millis tt)
                              else map_option (\<lambda>t. now + ticks_of_millis t) (vv_ttl v)),
             ce_version = vv_version v, ce_tombstone = vv_tombstone v\<rparr> l
      else l)"
| "spec_step cap tt (OpGetVersioned now k) l =
     (RVersioned (case map_of l k of
        None \<Rightarrow> None | Some e \<Rightarrow> if is_expired e now then None else Some (versioned_of now e)), l)"
| "spec_step cap tt (OpSnapshot now) l =
     (RSnapshot (map (\<lambda>(k, e). (k, versioned_of now e)) (filter (\<lambda>(k, e). \<not> is_expired e now) l)), l)"
| "spec_step cap tt OpClear l = (RUnit, [])"
| "spec_step cap tt (OpExpire now k ttl) l =
     (case map_of l k of
        None \<Rightarrow> (RBool False, l)
      | Some e \<Rightarrow>
          if ce_tombstone e then (RBool False, l)
          else if is_expired e now then (RBool False, lru_drop k l)
          else (RBool True,
                map (\<lambda>(k', e'). (k', if k' = k
                       then e'\<lparr>ce_expires_at := Some (now + ticks_of_millis ttl)\<rparr> else e')) l))"
| "spec_step cap tt (OpPttl now k) l =
     (RInt (case map_of l k of
        None \<Rightarrow> -2
      | Some e \<Rightarrow> if \<not> is_live e now then -2
                  else case ce_expires_at e of None \<Rightarrow> -1 | Some t \<Rightarrow> millis_of_ticks (t - now)), l)"
| "spec_step cap tt (OpPurge now) l = (RUnit, filter (\<lambda>(k, e). \<not> is_expired e now) l)"

fun run :: "('o \<Rightarrow> 's \<Rightarrow> 'r \<times> 's) \<Rightarrow> 'o list \<Rightarrow> 's \<Rightarrow> 'r list \<times> 's" where
  "run step [] s = ([], s)"
| "run step (op # ops) s =
     (case step op s of (r, s1) \<Rightarrow> case run step ops s1 of (rs, s2) \<Rightarrow> (r # rs, s2))"

section \<open>Abstraction\<close>

definition contents :: "Cache \<Rightarrow> lru_map" where
  "contents c = map (\<lambda>n. (nd_key n, nd_entry n)) (c_lru_list c)"

lemma contents_count [simp]:
  "contents (count_hit c) = contents c" "contents (count_miss c) = contents c"
  "contents (count_set c) = contents c" "contents (count_delete c) = contents c"
  "contents (count_eviction c) = contents c" "contents (count_expiration c) = contents c"
  by (simp_all add: contents_def)

lemma cache_wf_keys: "cache_wf c \<Longrightarrow> distinct (map nd_key (c_lru_list c))"
  by (simp add: cache_wf_def wf_parts_def)

lemma contents_keys: "fst ` set (contents c) = nd_key ` set (c_lru_list c)"
  by (simp add: contents_def image_image)

lemma contents_distinct: "cache_wf c \<Longrightarrow> distinct (map fst (contents c))"
  by (simp add: contents_def comp_def cache_wf_keys)

lemma length_contents [simp]: "length (contents c) = length (c_lru_list c)"
  by (simp add: contents_def)

lemma map_of_contents:
  assumes "cache_wf c" shows "map_of (contents c) k = map_option nd_entry (find_node k c)"
proof (cases "find_node k c")
  case None
  with assms have "k \<notin> fst ` set (contents c)" by (simp add: find_node_None contents_keys)
  with None show ?thesis by (simp add: map_of_eq_None_iff)
next
  case (Some n)
  then have "(k, nd_entry n) \<in> set (contents c)"
    using find_node_Some [OF assms] by (auto simp: contents_def)
  with Some show ?thesis using contents_distinct [OF assms] by simp
qed

lemma contents_others:
  assumes "cache_wf c" and "n \<in> set (c_lru_list c)"
  shows "map (\<lambda>n. (nd_key n, nd_entry n)) (filter (\<lambda>m. nd_iter m \<noteq> nd_iter n) (c_lru_list c)) =
    filter (\<lambda>p. fst p \<noteq> nd_key n) (contents c)"
proof -
  have "nd_iter m = nd_iter n \<longleftrightarrow> nd_key m = nd_key n" if "m \<in> set (c_lru_list c)" for m
    using that assms cache_wf_keys [OF assms(1)] cache_wf_iters [OF assms(1)]
    by (auto simp: distinct_map dest: inj_onD)
  then show ?thesis
    by (auto simp: contents_def filter_map comp_def intro!: map_cong filter_cong)
qed

lemma contents_erase:
  "cache_wf c \<Longrightarrow> n \<in> set (c_lru_list c) \<Longrightarrow>
   contents (erase_unsafe n c) = filter (\<lambda>p. fst p \<noteq> nd_key n) (contents c)"
  using contents_others [of c n] by (simp add: contents_def)

lemma contents_make_room:
  "cache_wf c \<Longrightarrow> contents (make_room c) =
     (if 0 < c_capacity c \<and> c_capacity c \<le> length (contents c)
      then butlast (contents c) else contents c)"
  by (simp add: contents_def make_room_list map_butlast)

lemma contents_emplace [simp]: "contents (emplace_front k e c) = (k, e) # contents c"
  by (simp add: contents_def emplace_front_def)

lemma contents_new [simp]: "contents (new_cache cap tt) = []"
  by (simp add: contents_def new_cache_def)

lemma contents_upd_tombstones [simp]: "contents (c\<lparr>c_tombstones := t\<rparr>) = contents c"
  by (simp add: contents_def)

lemma contents_splice:
  assumes "cache_wf c" and "n \<in> set (c_lru_list c)" and "nd_iter n' = nd_iter n" "nd_key n' = nd_key n"
    and "c_lru_list c' = c_lru_list c"
  shows "contents (c'\<lparr>c_lru_list := splice_front n' (store_node n' (c_lru_list c'))\<rparr>) =
    (nd_key n, nd_entry n') # filter (\<lambda>p. fst p \<noteq> nd_key n) (contents c)"
  using contents_others [OF assms(1,2)] assms(3-5) by (simp add: contents_def splice_store)

lemma contents_store:
  assumes "cache_wf c" and "n \<in> set (c_lru_list c)"
  shows "map (\<lambda>m. (nd_key m, nd_entry m)) (store_node (n\<lparr>nd_entry := e\<rparr>) (c_lru_list c)) =
    map (\<lambda>(k, e'). (k, if k = nd_key n then e else e')) (contents c)"
proof -
  have "nd_iter m = nd_iter n \<longleftrightarrow> nd_key m = nd_key n" if "m \<in> set (c_lru_list c)" for m
    using that assms cache_wf_keys [OF assms(1)] cache_wf_iters [OF assms(1)]
    by (auto simp: distinct_map dest: inj_onD)
  then show ?thesis by (auto simp: contents_def store_node_def)
qed

lemmas find_node_key = find_node_Some [THEN iffD1, THEN conjunct2]

lemma lru_drop_absent: "k \<notin> fst ` set l \<Longrightarrow> lru_drop k l = l"
  by (auto simp: lru_drop_def filter_id_conv)

section \<open>Refinement\<close>

lemma find_node_contents_None:
  assumes "cache_wf c" and "find_node k c = None"
  shows "map_of (contents c) k = None" and "k \<notin> fst ` set (contents c)"
  using assms map_of_contents [OF assms(1), of k] by (auto simp: map_of_eq_None_iff)

lemma find_node_contents_Some:
  assumes "cache_wf c" and "find_node k c = Some n"
  shows "map_of (contents c) k = Some (nd_entry n)" and "k \<in> fst ` set (contents c)"
    and "nd_key n = k" and "n \<in> set (c_lru_list c)"
proof -
  show "map_of (contents c) k = Some (nd_entry n)"
    using assms map_of_contents [OF assms(1), of k] by simp
  then show "k \<in> fst ` set (contents c)" by (force dest: map_of_SomeD)
  show "nd_key n = k" "n \<in> set (c_lru_list c)" using assms by (auto simp: find_node_Some)
qed

lemma contents_cache_set:
  assumes wf: "cache_wf c"
  shows "contents (cache_set now k v ttl c) = lru_put (c_capacity c) k
    \<lparr>ce_value = v, ce_expires_at = map_option (\<lambda>t. now + ticks_of_millis t) ttl,
     ce_version = 0, ce_tombstone = False\<rparr> (contents c)"
proof (cases "find_node k c")
  case None
  then show ?thesis
    using wf find_node_contents_None [OF wf None] contents_make_room [of "count_set c"]
    by (simp add: cache_set_def lru_put_def)
next
  case (Some n)
  note n = find_node_contents_Some [OF wf Some]
  define n' where "n' = n\<lparr>nd_entry := \<lparr>ce_value = v,
    ce_expires_at = map_option (\<lambda>t. now + ticks_of_millis t) ttl, ce_version = 0, ce_tombstone = False\<rparr>\<rparr>"
  from contents_splice [OF wf n(4), of n'] n(2,3) Some show ?thesis
    by (simp add: cache_set_def lru_put_def Let_def n'_def)
qed

lemma contents_cache_apply:
  assumes wf: "cache_wf c"
  shows "contents (snd (cache_apply now k v c)) =
      (if accepts now v (map_of (contents c) k)
       then lru_put (c_capacity c) k (applied_entry now v c) (contents c) else contents c)"
    and "fst (cache_apply now k v c) =
      (accepts now v (map_of (contents c) k), live_value now (map_of (contents c) k) \<noteq> None)"
proof -
  have "contents (snd (cache_apply now k v c)) =
      (if accepts now v (map_of (contents c) k)
       then lru_put (c_capacity c) k (applied_entry now v c) (contents c) else contents c) \<and>
    fst (cache_apply now k v c) =
      (accepts now v (map_of (contents c) k), live_value now (map_of (contents c) k) \<noteq> None)"
  proof (cases "find_node k c")
    case None
    then show ?thesis
      using wf find_node_contents_None [OF wf None] contents_make_room [OF wf]
      by (simp add: cache_apply_def lru_put_def accepts_def live_value_def Let_def)
  next
    case (Some n)
    note n = find_node_contents_Some [OF wf Some]
    define n' where "n' = n\<lparr>nd_entry := applied_entry now v c\<rparr>"
    have "supersedes (vv_version v) (vv_tombstone v) (vv_value v) (nd_entry n) \<longleftrightarrow>
      stamp_less (stamp_of_entry (nd_entry n)) (stamp_of_value v)"
      by (simp add: supersedes_stamp stamp_of_value_def)
    with contents_splice [OF wf n(4), of n'] n Some show ?thesis
      by (auto simp: cache_apply_def lru_put_def accepts_def live_value_def Let_def n'_def)
  qed
  then show "contents (snd (cache_apply now k v c)) =
      (if accepts now v (map_of (contents c) k)
       then lru_put (c_capacity c) k (applied_entry now v c) (contents c) else contents c)"
    and "fst (cache_apply now k v c) =
      (accepts now v (map_of (contents c) k), live_value now (map_of (contents c) k) \<noteq> None)"
    by blast+
qed

lemma contents_get_promote:
  assumes wf: "cache_wf c" shows "contents (get_promote now k c) = lru_front k (contents c)"
proof (cases "find_node k c")
  case None
  with find_node_contents_None [OF wf None] show ?thesis by (simp add: get_promote_def lru_front_def)
next
  case (Some n)
  note n = find_node_contents_Some [OF wf Some]
  from contents_splice [OF wf n(4), of "n\<lparr>nd_last_promoted := now\<rparr>"] n Some show ?thesis
    by (simp add: get_promote_def lru_front_def Let_def)
qed

lemma contents_cache_remove:
  assumes wf: "cache_wf c"
  shows "contents (snd (cache_remove now k c)) = lru_drop k (contents c)"
    and "fst (cache_remove now k c) = (live_value now (map_of (contents c) k) \<noteq> None)"
proof -
  have "contents (snd (cache_remove now k c)) = lru_drop k (contents c) \<and>
    fst (cache_remove now k c) = (live_value now (map_of (contents c) k) \<noteq> None)"
  proof (cases "find_node k c")
    case None
    with find_node_contents_None [OF wf None] show ?thesis
      by (simp add: cache_remove_def lru_drop_absent live_value_def)
  next
    case (Some n)
    with find_node_contents_Some [OF wf Some] show ?thesis
      by (simp add: cache_remove_def lru_drop_def live_value_def contents_erase wf)
  qed
  then show "contents (snd (cache_remove now k c)) = lru_drop k (contents c)"
    and "fst (cache_remove now k c) = (live_value now (map_of (contents c) k) \<noteq> None)" by blast+
qed

lemma contents_purge_loop:
  "cache_wf c \<Longrightarrow> distinct (map nd_iter ns) \<Longrightarrow> set ns \<subseteq> set (c_lru_list c) \<Longrightarrow>
   contents (purge_loop now ns c) =
     filter (\<lambda>(k, e). \<not> (k \<in> nd_key ` {n \<in> set ns. is_expired (nd_entry n) now})) (contents c)"
proof (induction ns arbitrary: c)
  case Nil
  then show ?case by simp
next
  case (Cons n ns)
  let ?c = "if is_expired (nd_entry n) now then count_expiration (erase_unsafe n c) else c"
  have "set ns \<subseteq> set (c_lru_list ?c)" using Cons.prems by (auto simp: image_iff)
  moreover have "cache_wf ?c" using Cons.prems by (simp add: erase_wf)
  ultimately have "contents (purge_loop now (n # ns) c) =
      filter (\<lambda>(k, e). \<not> (k \<in> nd_key ` {n \<in> set ns. is_expired (nd_entry n) now})) (contents ?c)"
    using Cons.IH [of ?c] Cons.prems(2) by simp
  also have "contents ?c =
      (if is_expired (nd_entry n) now then filter (\<lambda>p. fst p \<noteq> nd_key n) (contents c) else contents c)"
    using Cons.prems by (simp add: contents_erase)
  finally show ?case by (auto intro!: filter_cong)
qed

lemma contents_purge_expired:
  assumes wf: "cache_wf c"
  shows "contents (purge_expired now c) = filter (\<lambda>(k, e). \<not> is_expired e now) (contents c)"
proof -
  have "k \<in> nd_key ` {n \<in> set (c_lru_list c). is_expired (nd_entry n) now} \<longleftrightarrow> is_expired e now"
    if "(k, e) \<in> set (contents c)" for k e
    using that wf_parts_key_inj [OF wf [unfolded cache_wf_def]] by (auto simp: contents_def)
  then show ?thesis
    unfolding purge_expired_def
    by (subst contents_purge_loop) (auto simp: wf cache_wf_iters intro!: filter_cong)
qed

lemma contents_get_shared:
  assumes "cache_wf c"
  shows "contents (snd (get_shared now k c)) = contents c"
    and "fst (fst (get_shared now k c)) = live_value now (map_of (contents c) k)"
  using assms by (auto simp: get_shared_def live_value_def map_of_contents Let_def split: option.split)

lemma contents_get_versioned:
  assumes "cache_wf c"
  shows "contents (snd (get_versioned now k c)) = contents c"
    and "fst (get_versioned now k c) = (case map_of (contents c) k of
      None \<Rightarrow> None | Some e \<Rightarrow> if is_expired e now then None else Some (versioned_of now e))"
  using assms by (auto simp: get_versioned_def map_of_contents split: option.split)

lemma contents_cache_expire:
  assumes wf: "cache_wf c"
  shows "(RBool (fst (cache_expire now k ttl c)), contents (snd (cache_expire now k ttl c))) =
    spec_step cap tt (OpExpire now k ttl) (contents c)"
proof (cases "find_node k c")
  case None
  with find_node_contents_None [OF wf None] show ?thesis by (simp add: cache_expire_def)
next
  case (Some n)
  note n = find_node_contents_Some [OF wf Some]
  have e': "(nd_key n, e') \<in> set (contents c) \<Longrightarrow> e' = nd_entry n" for e'
    using n(1,3) contents_distinct [OF wf] by (auto dest: map_of_is_SomeI)
  from n Some contents_erase [OF wf n(4)] contents_store [OF wf n(4)] show ?thesis
    by (auto simp: cache_expire_def lru_drop_def Let_def contents_def [of "c\<lparr>c_lru_list := _\<rparr>"]
        intro!: map_cong dest: e')
qed

lemma capacity_const: "c_capacity (snd (cache_step op c)) = c_capacity c"
  "c_tombstone_ttl (snd (cache_step op c)) = c_tombstone_ttl c"
proof -
  have p: "c_capacity (purge_loop now ns c) = c_capacity c \<and>
      c_tombstone_ttl (purge_loop now ns c) = c_tombstone_ttl c" for now ns c
    by (induction ns arbitrary: c) auto
  show "c_capacity (snd (cache_step op c)) = c_capacity c"
    "c_tombstone_ttl (snd (cache_step op c)) = c_tombstone_ttl c"
    by (cases op; auto simp: p cache_set_def get_shared_def get_promote_def cache_remove_def
        cache_apply_def get_versioned_def cache_clear_def cache_expire_def purge_expired_def
        emplace_front_def Let_def split: option.split)+
qed

lemma cache_step_wf [cache_wf_intros]: "cache_wf c \<Longrightarrow> cache_wf (snd (cache_step op c))"
  by (cases op) (simp_all add: case_prod_beta cache_set_wf get_promote_wf cache_clear_wf
      purge_expired_wf get_shared_wf cache_remove_wf cache_apply_wf get_versioned_wf cache_expire_wf)

lemma cache_step_refines:
  assumes wf: "cache_wf c"
  shows "(fst (cache_step op c), contents (snd (cache_step op c))) =
    spec_step (c_capacity c) (c_tombstone_ttl c) op (contents c)"
proof (cases op)
  case (OpApply now k v)
  then show ?thesis
    by (simp add: case_prod_beta contents_cache_apply [OF wf] applied_entry_def apply_expires_at_def)
next
  case (OpExpire now k ttl)
  with contents_cache_expire [OF wf, of now k ttl "c_capacity c" "c_tombstone_ttl c"] show ?thesis
    by (simp add: case_prod_beta)
next
  case (OpContains now k)
  then show ?thesis
    by (auto simp: cache_contains_def live_value_def map_of_contents [OF wf] split: option.split)
next
  case (OpSnapshot now)
  then show ?thesis
    by (simp add: cache_snapshot_def contents_def filter_map comp_def case_prod_beta)
next
  case (OpPttl now k)
  then show ?thesis by (auto simp: cache_pttl_def map_of_contents [OF wf] split: option.split)
next
  case OpClear
  then show ?thesis by (simp add: cache_clear_def contents_def)
qed (simp_all add: case_prod_beta contents_cache_set [OF wf] contents_get_shared [OF wf]
    contents_get_promote [OF wf] contents_cache_remove [OF wf] contents_get_versioned [OF wf]
    contents_purge_expired [OF wf])

lemma cache_run_refines:
  "cache_wf c \<Longrightarrow>
   (fst (run cache_step ops c), contents (snd (run cache_step ops c))) =
     run (spec_step (c_capacity c) (c_tombstone_ttl c)) ops (contents c) \<and>
   cache_wf (snd (run cache_step ops c))"
proof (induction ops arbitrary: c)
  case Nil
  then show ?case by simp
next
  case (Cons op ops)
  let ?c = "snd (cache_step op c)"
  have "(fst (run cache_step ops ?c), contents (snd (run cache_step ops ?c))) =
     run (spec_step (c_capacity c) (c_tombstone_ttl c)) ops (contents ?c)"
    "cache_wf (snd (run cache_step ops ?c))"
    using Cons.IH [of ?c] cache_step_wf [OF Cons.prems] by (simp_all add: capacity_const)
  with cache_step_refines [OF Cons.prems, of op, symmetric] show ?case
    by (auto simp: case_prod_beta prod_eq_iff)
qed

text \<open>C2: From an empty shard, every sequence of critical sections, in any interleaving and at any
  clock readings, answers exactly as the bounded LRU map does and ends with the same entries
  in the same order of use; the index, the list, the iterators and the tombstone counter stay
  consistent and the capacity is never exceeded.\<close>

theorem cache_refines_lru_map:
  "(fst (run cache_step ops (new_cache cap tt)),
    contents (snd (run cache_step ops (new_cache cap tt)))) = run (spec_step cap tt) ops []
   \<and> cache_wf (snd (run cache_step ops (new_cache cap tt)))"
  using cache_run_refines [OF new_cache_wf, of ops cap tt] by (simp add: new_cache_def contents_def)

section \<open>Size\<close>

lemma cache_refines_wf: "cache_wf (snd (run cache_step ops (new_cache cap tt)))"
  using cache_run_refines [OF new_cache_wf] by blast

lemma tombs_count: "tombs ns = of_nat (length (filter (\<lambda>n. ce_tombstone (nd_entry n)) ns))"
  by (induction ns) auto

lemma cache_size_contents:
  assumes "cache_wf c"
  shows "cache_size c = of_nat (length (filter (\<lambda>p. \<not> ce_tombstone (snd p)) (contents c)))"
proof -
  have "length (c_lru_list c) = length (filter (\<lambda>n. ce_tombstone (nd_entry n)) (c_lru_list c)) +
      length (filter (\<lambda>n. \<not> ce_tombstone (nd_entry n)) (c_lru_list c))"
    by (simp add: sum_length_filter_compl)
  then have "(of_nat (length (c_lru_list c)) :: u64) - tombs (c_lru_list c) =
      of_nat (length (filter (\<lambda>n. \<not> ce_tombstone (nd_entry n)) (c_lru_list c)))"
    by (simp add: tombs_count)
  with assms show ?thesis
    by (simp add: cache_size_def cache_wf_entries contents_def filter_map comp_def)
       (simp add: cache_wf_def wf_parts_def)
qed

text \<open>The size a shard reports is the number of its entries that are not tombstones. Entries
  past their expiry count until a sweep or a write removes them, so right after a sweep, and
  only then in general, it is the number of live keys the header promises.\<close>

theorem cache_size_after_purge:
  "let c = snd (run cache_step ops (new_cache cap tt)) in
     cache_size c = of_nat (length (filter (\<lambda>p. \<not> ce_tombstone (snd p)) (contents c)))
     \<and> cache_size (purge_expired now c) =
         of_nat (length (filter (\<lambda>p. is_live (snd p) now) (contents c)))"
  using cache_refines_wf [of ops cap tt]
  by (simp add: Let_def cache_size_contents purge_expired_wf contents_purge_expired is_live_def
      case_prod_beta conj_commute)

section \<open>Reads after writes\<close>

lemma contents_cache_get:
  assumes "cache_wf c"
  shows "fst (cache_get now k c) = live_value now (map_of (contents c) k)"
  using contents_get_shared(2) [OF assms, of now k] by (simp add: cache_get_def case_prod_beta)

lemma map_of_lru_put_same [simp]: "map_of (lru_put cap k e l) k = Some e"
  by (simp add: lru_put_def)

text \<open>A local write is visible to a read of its key exactly until its time to live has
  passed, whatever the shard held before and however full it was.\<close>

theorem set_then_get:
  assumes "cache_wf c"
  shows "fst (cache_get now' k (cache_set now k v ttl c)) =
    (case ttl of
       None \<Rightarrow> Some v
     | Some t \<Rightarrow> if now' < now + ticks_of_millis t then Some v else None)"
  using assms
  by (auto simp: contents_cache_get cache_set_wf contents_cache_set live_value_def is_live_def
      is_expired_def split: option.split)

theorem set_then_get_witness:
  "fst (cache_get 4999999 ''k'' (cache_set 0 ''k'' ''v'' (Some 5) (new_cache 1 60000))) = Some ''v''
   \<and> fst (cache_get 5000000 ''k'' (cache_set 0 ''k'' ''v'' (Some 5) (new_cache 1 60000))) = None"
  using set_then_get [OF new_cache_wf, of 4999999 "''k''" 0 "''v''" "Some 5" 1 60000]
    set_then_get [OF new_cache_wf, of 5000000 "''k''" 0 "''v''" "Some 5" 1 60000]
  by (simp add: ticks_of_millis_def)

end
