(* ===== verification/Lww.thy ===== *)
theory Lww
  imports Cache_Spec
begin

text \<open>
  Replicated writes on one shard: \<^const>\<open>cache_apply\<close> is a last-writer-wins register per key. Replicas
  that receive the same writes, in any order, any number of times and at any moment within the
  tombstone retention, store the same version of every key.
\<close>

section \<open>Last writer wins\<close>

text \<open>A batch of replicated writes, each with the clock reading of its arrival.\<close>

definition apply_all :: "(ticks \<times> string \<times> VersionedValue) list \<Rightarrow> Cache \<Rightarrow> Cache" where
  "apply_all ws c = fold (\<lambda>(now, k, v) c. snd (cache_apply now k v c)) ws c"

definition stamps_for :: "string \<Rightarrow> (ticks \<times> string \<times> VersionedValue) list \<Rightarrow> stamp set" where
  "stamps_for k ws = (\<lambda>(now, k', v). stamp_of_value v) ` {w \<in> set ws. fst (snd w) = k}"

definition keys_of :: "(ticks \<times> string \<times> VersionedValue) list \<Rightarrow> string set" where
  "keys_of ws = (\<lambda>w. fst (snd w)) ` set ws"

text \<open>No write of the batch expires before the batch is over: values carry no time to live and
  tombstones are retained for longer.\<close>

definition within_retention :: "ticks \<Rightarrow> millis \<Rightarrow> (ticks \<times> string \<times> VersionedValue) list \<Rightarrow> bool" where
  "within_retention t0 tt ws \<longleftrightarrow>
     (\<forall>(now, k, v) \<in> set ws. t0 \<le> now \<and> now < t0 + ticks_of_millis tt \<and> vv_ttl v = None)"

definition settled :: "(ticks \<times> string \<times> VersionedValue) list \<Rightarrow> Cache \<Rightarrow> bool" where
  "settled ws c \<longleftrightarrow>
     (\<forall>k. case map_of (contents c) k of
            None \<Rightarrow> stamps_for k ws = {}
          | Some e \<Rightarrow> stamp_of_entry e \<in> stamps_for k ws \<and>
                      (\<forall>s \<in> stamps_for k ws. stamp_le s (stamp_of_entry e)))"

lemma map_of_lru_put:
  assumes "k \<in> fst ` set l \<or> \<not> (0 < cap \<and> cap \<le> length l)"
  shows "map_of (lru_put cap k e l) = (map_of l)(k \<mapsto> e)"
  using assms by (auto simp: lru_put_def map_of_filter_neq fun_eq_iff)

lemma stamps_for_snoc:
  "stamps_for k (ws @ [(now, k', v)]) =
     (if k = k' then insert (stamp_of_value v) (stamps_for k ws) else stamps_for k ws)"
proof -
  have "{w \<in> set (ws @ [(now, k', v)]). fst (snd w) = k} =
      {w \<in> set ws. fst (snd w) = k} \<union> (if k = k' then {(now, k', v)} else {})"
    by auto
  then show ?thesis by (simp add: stamps_for_def image_Un)
qed

lemma stamp_of_applied [simp]: "stamp_of_entry (applied_entry now v c) = stamp_of_value v"
  by (simp add: stamp_of_entry_def stamp_of_value_def applied_entry_def)

text \<open>One more write keeps the batch settled, as long as nothing stored has expired and there is
  room for its key.\<close>

lemma settled_apply:
  assumes wf: "cache_wf c" and settled: "settled ws c"
    and live: "\<And>k e. map_of (contents c) k = Some e \<Longrightarrow> \<not> is_expired e now"
    and room: "k \<in> fst ` set (contents c) \<or> \<not> (0 < c_capacity c \<and> c_capacity c \<le> length (contents c))"
  shows "settled (ws @ [(now, k, v)]) (snd (cache_apply now k v c))"
proof -
  have acc: "accepts now v (map_of (contents c) k) \<longleftrightarrow>
      (case map_of (contents c) k of None \<Rightarrow> True
       | Some e \<Rightarrow> stamp_less (stamp_of_entry e) (stamp_of_value v))"
    using live by (auto simp: accepts_def split: option.split)
  have new: "map_of (contents (snd (cache_apply now k v c))) =
      (if accepts now v (map_of (contents c) k)
       then (map_of (contents c))(k \<mapsto> applied_entry now v c) else map_of (contents c))"
    using contents_cache_apply(1) [OF wf] map_of_lru_put [OF room] by simp
  show ?thesis
    unfolding settled_def
  proof
    fix k'
    have old: "case map_of (contents c) k' of
            None \<Rightarrow> stamps_for k' ws = {}
          | Some e \<Rightarrow> stamp_of_entry e \<in> stamps_for k' ws \<and>
                      (\<forall>s \<in> stamps_for k' ws. stamp_le s (stamp_of_entry e))"
      using settled by (simp add: settled_def)
    show "case map_of (contents (snd (cache_apply now k v c))) k' of
            None \<Rightarrow> stamps_for k' (ws @ [(now, k, v)]) = {}
          | Some e \<Rightarrow> stamp_of_entry e \<in> stamps_for k' (ws @ [(now, k, v)]) \<and>
                      (\<forall>s \<in> stamps_for k' (ws @ [(now, k, v)]). stamp_le s (stamp_of_entry e))"
      using old by (auto simp: new acc stamps_for_snoc stamp.not_less
          split: option.splits intro: stamp.order_trans stamp.less_imp_le)
  qed
qed


text \<open>What a run over a batch keeps: nothing stored expires before the end of the retention, and
  only keys of the batch are stored.\<close>

definition batch_inv ::
    "ticks \<Rightarrow> millis \<Rightarrow> nat \<Rightarrow> (ticks \<times> string \<times> VersionedValue) list \<Rightarrow> Cache \<Rightarrow> bool" where
  "batch_inv t0 tt cap ws c \<longleftrightarrow>
     cache_wf c \<and> settled ws c \<and> c_capacity c = cap \<and> c_tombstone_ttl c = tt \<and>
     (\<forall>k e. map_of (contents c) k = Some e \<longrightarrow>
        (case ce_expires_at e of None \<Rightarrow> True | Some t \<Rightarrow> t0 + ticks_of_millis tt \<le> t))"

lemma settled_keys:
  assumes "settled ws c" shows "fst ` set (contents c) = keys_of ws"
proof (rule set_eqI)
  fix k
  have "k \<in> keys_of ws \<longleftrightarrow> stamps_for k ws \<noteq> {}"
    by (force simp: keys_of_def stamps_for_def)
  moreover have "k \<in> fst ` set (contents c) \<longleftrightarrow> map_of (contents c) k \<noteq> None"
    by (simp add: map_of_eq_None_iff)
  ultimately show "k \<in> fst ` set (contents c) \<longleftrightarrow> k \<in> keys_of ws"
    using assms [unfolded settled_def, THEN spec [of _ k]] by (auto split: option.splits)
qed

lemma tombstone_ttl_const [simp]: "c_tombstone_ttl (snd (cache_apply now k v c)) = c_tombstone_ttl c"
  using capacity_const(2) [of "OpApply now k v" c] by (simp add: case_prod_beta)

lemma apply_capacity [simp]: "c_capacity (snd (cache_apply now k v c)) = c_capacity c"
  using capacity_const(1) [of "OpApply now k v" c] by (simp add: case_prod_beta)

lemma batch_inv_new: "batch_inv t0 tt cap [] (new_cache cap tt)"
  by (simp add: batch_inv_def settled_def stamps_for_def new_cache_wf)
     (simp add: new_cache_def)

lemma batch_inv_apply:
  assumes inv: "batch_inv t0 tt cap ws c"
    and t: "t0 \<le> now" "now < t0 + ticks_of_millis tt" "vv_ttl v = None"
    and room: "cap = 0 \<or> card (insert k (keys_of ws)) \<le> cap"
  shows "batch_inv t0 tt cap (ws @ [(now, k, v)]) (snd (cache_apply now k v c))"
proof -
  have wf: "cache_wf c" and set: "settled ws c" and cap: "c_capacity c = cap"
    and tt: "c_tombstone_ttl c = tt"
    and exp: "\<And>k e. map_of (contents c) k = Some e \<Longrightarrow>
        (case ce_expires_at e of None \<Rightarrow> True | Some t \<Rightarrow> t0 + ticks_of_millis tt \<le> t)"
    using inv by (auto simp: batch_inv_def)
  have len: "length (contents c) = card (keys_of ws)"
    using settled_keys [OF set] contents_distinct [OF wf]
    by (metis distinct_card length_map set_map)
  have live: "\<not> is_expired e now" if "map_of (contents c) k' = Some e" for k' e
    using exp [OF that] t(2) by (auto simp: is_expired_def split: option.splits)
  have rm: "k \<in> fst ` set (contents c) \<or>
      \<not> (0 < c_capacity c \<and> c_capacity c \<le> length (contents c))"
    using room by (auto simp: settled_keys [OF set] cap len card_insert_if simp del: length_contents)
       (auto simp: keys_of_def card_insert_if)
  have new: "map_of (contents (snd (cache_apply now k v c))) =
      (if accepts now v (map_of (contents c) k)
       then (map_of (contents c))(k \<mapsto> applied_entry now v c) else map_of (contents c))"
    using contents_cache_apply(1) [OF wf] map_of_lru_put [OF rm] by simp
  have fresh: "case ce_expires_at (applied_entry now v c) of
      None \<Rightarrow> True | Some t \<Rightarrow> t0 + ticks_of_millis tt \<le> t"
    using t by (simp add: applied_entry_def apply_expires_at_def tt)
  show ?thesis
    unfolding batch_inv_def
    using settled_apply [OF wf set live rm, where v = v] wf exp fresh
    by (auto simp: new cap tt cache_apply_wf split: if_splits)
qed

lemma keys_of_snoc: "keys_of (ws @ [(now, k, v)]) = insert k (keys_of ws)"
  by (auto simp: keys_of_def)

lemma batch_inv_apply_all:
  assumes "within_retention t0 tt ws" "cap = 0 \<or> card (keys_of ws) \<le> cap"
  shows "batch_inv t0 tt cap ws (apply_all ws (new_cache cap tt))"
  using assms
proof (induction ws rule: rev_induct)
  case Nil
  then show ?case by (simp add: apply_all_def batch_inv_new)
next
  case (snoc w ws)
  obtain now k v where w: "w = (now, k, v)" by (cases w)
  have "card (keys_of ws) \<le> card (insert k (keys_of ws))"
    by (rule card_mono) (auto simp: keys_of_def)
  with snoc.prems have "cap = 0 \<or> card (keys_of ws) \<le> cap"
    by (auto simp: w keys_of_snoc)
  with snoc have "batch_inv t0 tt cap ws (apply_all ws (new_cache cap tt))"
    by (simp add: within_retention_def)
  from batch_inv_apply [OF this] snoc.prems show ?case
    by (simp add: w apply_all_def within_retention_def keys_of_snoc)
qed

lemma settled_determined:
  assumes "settled ws c" "settled ws' c'" "\<And>k. stamps_for k ws = stamps_for k ws'"
  shows "map_option stamp_of_entry (map_of (contents c) k) =
         map_option stamp_of_entry (map_of (contents c') k)"
  using assms(1,2) [unfolded settled_def, THEN spec [of _ k]] assms(3)
  by (auto split: option.splits intro: stamp.order_antisym)

lemma stamps_for_writes:
  assumes "snd ` set ws = snd ` set ws'" shows "stamps_for k ws = stamps_for k ws'"
proof -
  have "stamps_for k us = (\<lambda>p. stamp_of_value (snd p)) ` {p \<in> snd ` set us. fst p = k}" for us
    by (auto simp: stamps_for_def image_iff) force+
  with assms show ?thesis by simp
qed



end
