(* ===== verification/Versioned_Store.thy ===== *)
theory Versioned_Store
  imports Cache_Spec
begin

text \<open>
  The contract of a local store as replication uses it: \<open>apply\<close> with last-writer-wins and
  \<open>get_versioned\<close>. A single shard and the sharded cache both provide it; the coordinator
  and the replica side of the cluster rely on nothing else. The consequences every client needs
  are proved once from the contract.
\<close>

definition entry_of :: "ticks \<Rightarrow> millis \<Rightarrow> VersionedValue \<Rightarrow> CacheEntry" where
  "entry_of now tt v =
     \<lparr>ce_value = vv_value v,
      ce_expires_at = (if vv_tombstone v then Some (now + ticks_of_millis tt)
                       else map_option (\<lambda>t. now + ticks_of_millis t) (vv_ttl v)),
      ce_version = vv_version v, ce_tombstone = vv_tombstone v\<rparr>"

definition visible :: "ticks \<Rightarrow> CacheEntry option \<Rightarrow> VersionedValue option" where
  "visible now e =
     (case e of None \<Rightarrow> None
      | Some e \<Rightarrow> if is_expired e now then None else Some (versioned_of now e))"

text \<open>A write that does not expire on arrival.\<close>

definition lasting :: "millis \<Rightarrow> VersionedValue \<Rightarrow> bool" where
  "lasting tt v \<longleftrightarrow>
     (if vv_tombstone v then 0 < tt else case vv_ttl v of None \<Rightarrow> True | Some t \<Rightarrow> 0 < t)"

lemma applied_entry_of: "applied_entry now v c = entry_of now (c_tombstone_ttl c) v"
  by (simp add: applied_entry_def apply_expires_at_def entry_of_def)

lemma stamp_entry_of [simp]: "stamp_of_entry (entry_of now tt v) = stamp_of_value v"
  by (simp add: entry_of_def stamp_of_entry_def stamp_of_value_def)

lemma stamp_versioned_of [simp]: "stamp_of_value (versioned_of now e) = stamp_of_entry e"
  by (simp add: versioned_of_def stamp_of_entry_def stamp_of_value_def)

lemma lasting_entry: "lasting tt v \<Longrightarrow> \<not> is_expired (entry_of now tt v) now"
  by (auto simp: lasting_def entry_of_def is_expired_def ticks_of_millis_def split: if_splits option.splits)

locale versioned_store =
  fixes inv :: "'s \<Rightarrow> bool"
    and look :: "'s \<Rightarrow> string \<Rightarrow> CacheEntry option"
    and tt :: "'s \<Rightarrow> millis"
    and app :: "ticks \<Rightarrow> string \<Rightarrow> VersionedValue \<Rightarrow> 's \<Rightarrow> (bool \<times> bool) \<times> 's"
    and getv :: "ticks \<Rightarrow> string \<Rightarrow> 's \<Rightarrow> VersionedValue option \<times> 's"
  assumes app_inv: "inv s \<Longrightarrow> inv (snd (app now k v s))"
    and app_tt: "inv s \<Longrightarrow> tt (snd (app now k v s)) = tt s"
    and app_look: "inv s \<Longrightarrow> look (snd (app now k v s)) k =
      (if accepts now v (look s k) then Some (entry_of now (tt s) v) else look s k)"
    and app_other: "inv s \<Longrightarrow> k' \<noteq> k \<Longrightarrow>
      look (snd (app now k v s)) k' = look s k' \<or> look (snd (app now k v s)) k' = None"
    and app_reply: "inv s \<Longrightarrow> fst (app now k v s) =
      (accepts now v (look s k), live_value now (look s k) \<noteq> None)"
    and getv_inv: "inv s \<Longrightarrow> inv (snd (getv now k s))"
    and getv_tt: "inv s \<Longrightarrow> tt (snd (getv now k s)) = tt s"
    and getv_look: "inv s \<Longrightarrow> look (snd (getv now k s)) = look s"
    and getv_reply: "inv s \<Longrightarrow> fst (getv now k s) = visible now (look s k)"
begin

text \<open>After a write is applied, the store holds it or something that wins over it.\<close>

lemma app_stores:
  assumes "inv s" "lasting (tt s) v"
  obtains e where "look (snd (app now k v s)) k = Some e" "\<not> is_expired e now"
    "stamp_le (stamp_of_value v) (stamp_of_entry e)"
proof (cases "accepts now v (look s k)")
  case True
  with assms that [of "entry_of now (tt s) v"] show ?thesis
    by (simp add: app_look lasting_entry)
next
  case False
  then obtain e where "look s k = Some e" "\<not> is_expired e now"
    "\<not> stamp_less (stamp_of_entry e) (stamp_of_value v)"
    by (auto simp: accepts_def split: option.splits)
  with assms(1) False that [of e] show ?thesis by (simp add: app_look stamp.not_less)
qed

lemma app_then_getv:
  assumes "inv s" "lasting (tt s) v"
  obtains w where "fst (getv now k (snd (app now k v s))) = Some w"
    "stamp_le (stamp_of_value v) (stamp_of_value w)"
proof -
  obtain e where e: "look (snd (app now k v s)) k = Some e" "\<not> is_expired e now"
    "stamp_le (stamp_of_value v) (stamp_of_entry e)"
    using app_stores [OF assms] .
  with that [of "versioned_of now e"] assms(1) show ?thesis
    by (simp add: getv_reply app_inv visible_def)
qed

text \<open>A write changes the stored version of its key only upwards, unless what was there had
  expired.\<close>

lemma app_monotone:
  assumes "inv s" "look s k = Some e" "\<not> is_expired e now"
  obtains e' where "look (snd (app now k v s)) k = Some e'"
    "stamp_le (stamp_of_entry e) (stamp_of_entry e')"
  using assms
  by (cases "accepts now v (look s k)") (auto simp: app_look accepts_def stamp.less_imp_le)

text \<open>Delivering a write again has no effect.\<close>

lemma app_again:
  assumes "inv s" "lasting (tt s) v"
  shows "fst (fst (app now k v (snd (app now k v s)))) = False"
proof -
  obtain e where "look (snd (app now k v s)) k = Some e" "\<not> is_expired e now"
    "stamp_le (stamp_of_value v) (stamp_of_entry e)"
    using app_stores [OF assms] .
  with assms(1) show ?thesis
    by (auto simp: app_reply app_inv accepts_def stamp.not_less)
qed

end

section \<open>One shard\<close>

lemma map_of_lru_put_other:
  assumes "k' \<noteq> k" "distinct (map fst l)"
  shows "map_of (lru_put cap k e l) k' = map_of l k' \<or> map_of (lru_put cap k e l) k' = None"
proof -
  have "map_of (butlast l) k' = map_of l k' \<or> map_of (butlast l) k' = None"
    using assms(2)
    by (cases l rule: rev_cases) (auto simp: map_add_def map_of_eq_None_iff split: option.split)
  with assms(1) show ?thesis by (auto simp: lru_put_def map_of_filter_neq)
qed

lemma step_tombstone_ttl:
  "c_tombstone_ttl (snd (cache_apply now k v c)) = c_tombstone_ttl c"
  "c_tombstone_ttl (snd (get_versioned now k c)) = c_tombstone_ttl c"
  using capacity_const(2) [of "OpApply now k v" c] capacity_const(2) [of "OpGetVersioned now k" c]
  by (simp_all add: case_prod_beta)

interpretation shard: versioned_store cache_wf "\<lambda>c. map_of (contents c)" c_tombstone_ttl
  cache_apply get_versioned
proof unfold_locales
  fix c :: Cache and k k' :: string and now v
  assume wf: "cache_wf c" and "k' \<noteq> k"
  then show "map_of (contents (snd (cache_apply now k v c))) k' = map_of (contents c) k' \<or>
      map_of (contents (snd (cache_apply now k v c))) k' = None"
    using map_of_lru_put_other [OF _ contents_distinct [OF wf]]
    by (simp add: contents_cache_apply)
qed (auto simp: cache_apply_wf step_tombstone_ttl contents_cache_apply applied_entry_of
      get_versioned_wf contents_get_versioned visible_def)

text \<open>A replicated write is never lost on a node that accepted or refused it: right after
  \<open>apply\<close>, \<open>get_versioned\<close> returns that write or one that wins over it, and delivering
  the write a second time changes nothing.\<close>

theorem apply_then_get_versioned:
  assumes "cache_wf c" and "lasting (c_tombstone_ttl c) v"
  shows "(\<exists>w. fst (get_versioned now k (snd (cache_apply now k v c))) = Some w
          \<and> stamp_le (stamp_of_value v) (stamp_of_value w))
    \<and> fst (fst (cache_apply now k v (snd (cache_apply now k v c)))) = False"
  using shard.app_then_getv [OF assms] shard.app_again [OF assms] by blast

theorem apply_then_get_versioned_witness:
  "let v = \<lparr>vv_value = ''x'', vv_version = 7, vv_tombstone = False, vv_ttl = Some 10\<rparr>
   in \<exists>w. fst (get_versioned 0 ''k'' (snd (cache_apply 0 ''k'' v (new_cache 2 60000)))) = Some w
          \<and> stamp_le (stamp_of_value v) (stamp_of_value w)"
  unfolding Let_def
  by (rule apply_then_get_versioned [OF new_cache_wf, THEN conjunct1])
     (simp add: lasting_def)

end
