(* ===== verification/Decimal.thy ===== *)
theory Decimal
  imports Prelude
begin

text \<open>
  Decimal integers as the C++ standard library writes and reads them: \<open>std::to_string\<close>,
  \<open>std::from_chars\<close> for signed and unsigned 64-bit targets, and \<open>std::stoi\<close> and
  \<open>std::stoull\<close> with their white space, sign and overflow rules. Reading is a total
  function into an option: \<open>None\<close> is the error code or the exception.
\<close>

section \<open>Digits\<close>

definition is_digit :: "char \<Rightarrow> bool" where
  "is_digit c \<longleftrightarrow> 48 \<le> (of_char c :: nat) \<and> (of_char c :: nat) \<le> 57"

definition digit_val :: "char \<Rightarrow> nat" where
  "digit_val c = of_char c - 48"

definition digit_char :: "nat \<Rightarrow> char" where
  "digit_char d = char_of (48 + d)"

definition digits_val :: "string \<Rightarrow> nat" where
  "digits_val ds = foldl (\<lambda>a c. a * 10 + digit_val c) 0 ds"

section \<open>Writing\<close>

fun nat_to_string :: "nat \<Rightarrow> string" where
  "nat_to_string n =
     (if n < 10 then [digit_char n] else nat_to_string (n div 10) @ [digit_char (n mod 10)])"

declare nat_to_string.simps [simp del]

definition int_to_string :: "int \<Rightarrow> string" where
  "int_to_string i =
     (if i < 0 then CHR ''-'' # nat_to_string (nat (- i)) else nat_to_string (nat i))"

section \<open>Reading\<close>

text \<open>\<open>from_chars\<close> returns the value and what it left unread. It takes no leading white space
  and no plus sign, and a minus sign for a signed target only.\<close>

definition from_chars_u64 :: "string \<Rightarrow> (u64 \<times> string) option" where
  "from_chars_u64 s =
     (let ds = takeWhile is_digit s
      in if ds = [] \<or> 2 ^ 64 \<le> digits_val ds then None
         else Some (of_nat (digits_val ds), dropWhile is_digit s))"

definition from_chars_i64 :: "string \<Rightarrow> (int \<times> string) option" where
  "from_chars_i64 s =
     (case s of
        [] \<Rightarrow> None
      | c # t \<Rightarrow>
          let neg = (c = CHR ''-'');
              u = (if neg then t else s);
              ds = takeWhile is_digit u;
              i = (if neg then - int (digits_val ds) else int (digits_val ds))
          in if ds = [] \<or> i < - (2 ^ 63) \<or> 2 ^ 63 \<le> i then None
             else Some (i, dropWhile is_digit u))"

definition is_space :: "char \<Rightarrow> bool" where
  "is_space c \<longleftrightarrow> (of_char c :: nat) = 32 \<or> (9 \<le> (of_char c :: nat) \<and> (of_char c :: nat) \<le> 13)"

text \<open>The number at the front of a string, as \<open>strtol\<close> and its relatives see it: the sign and
  the magnitude.\<close>

definition strto :: "string \<Rightarrow> (bool \<times> nat) option" where
  "strto s =
     (let t = dropWhile is_space s;
          neg = (case t of [] \<Rightarrow> False | c # _ \<Rightarrow> c = CHR ''-'');
          u = (case t of [] \<Rightarrow> [] | c # r \<Rightarrow> if c = CHR ''-'' \<or> c = CHR ''+'' then r else t);
          ds = takeWhile is_digit u
      in if ds = [] then None else Some (neg, digits_val ds))"

definition stoi :: "string \<Rightarrow> int option" where
  "stoi s =
     (case strto s of
        None \<Rightarrow> None
      | Some (neg, n) \<Rightarrow>
          let i = (if neg then - int n else int n)
          in if i < - (2 ^ 31) \<or> 2 ^ 31 \<le> i then None else Some i)"

definition stoull :: "string \<Rightarrow> u64 option" where
  "stoull s =
     (case strto s of
        None \<Rightarrow> None
      | Some (neg, n) \<Rightarrow>
          if 2 ^ 64 \<le> n then None else Some (if neg then - of_nat n else of_nat n))"

section \<open>Round trips\<close>

lemma of_char_digit_char: "d < 10 \<Longrightarrow> (of_char (digit_char d) :: nat) = 48 + d"
  by (simp add: digit_char_def)

lemma is_digit_digit_char [simp]: "d < 10 \<Longrightarrow> is_digit (digit_char d)"
  by (simp add: is_digit_def of_char_digit_char)

lemma digit_val_digit_char [simp]: "d < 10 \<Longrightarrow> digit_val (digit_char d) = d"
  by (simp add: digit_val_def of_char_digit_char)

lemma digits_val_snoc [simp]: "digits_val (ds @ [c]) = digits_val ds * 10 + digit_val c"
  by (simp add: digits_val_def)

lemma digits_val_to_string [simp]: "digits_val (nat_to_string n) = n"
proof (induction n rule: nat_to_string.induct)
  case (1 n)
  then show ?case
    by (subst nat_to_string.simps) (auto simp: digits_val_def [of "[_]"])
qed

lemma nat_to_string_digits: "c \<in> set (nat_to_string n) \<Longrightarrow> is_digit c"
proof (induction n rule: nat_to_string.induct)
  case (1 n)
  then show ?case by (subst (asm) (2) nat_to_string.simps) (auto split: if_splits)
qed

lemma nat_to_string_not_Nil [simp]: "nat_to_string n \<noteq> []"
  by (subst nat_to_string.simps) simp

lemma nat_to_string_inj: "nat_to_string m = nat_to_string n \<longleftrightarrow> m = n"
  by (metis digits_val_to_string)

lemma nat_to_string_no: "\<not> is_digit c \<Longrightarrow> c \<notin> set (nat_to_string n)"
  by (auto dest: nat_to_string_digits)

lemma span_to_string:
  assumes "\<And>c r. rest = c # r \<Longrightarrow> \<not> is_digit c"
  shows "takeWhile is_digit (nat_to_string n @ rest) = nat_to_string n"
    and "dropWhile is_digit (nat_to_string n @ rest) = rest"
  using assms by (cases rest; simp add: takeWhile_append2 dropWhile_append2 nat_to_string_digits)+

lemma span_to_string_all [simp]:
  "takeWhile is_digit (nat_to_string n) = nat_to_string n"
  "dropWhile is_digit (nat_to_string n) = []"
  by (auto simp: takeWhile_eq_all_conv nat_to_string_digits)

lemma from_chars_u64_to_string:
  "n < 2 ^ 64 \<Longrightarrow> from_chars_u64 (nat_to_string n) = Some (of_nat n, [])"
  by (simp add: from_chars_u64_def Let_def)

lemma from_chars_u64_to_string_word:
  "from_chars_u64 (nat_to_string (unat w)) = Some (w, [])"
  using unsigned_less [of w] by (subst from_chars_u64_to_string) auto

lemma non_digits [simp]:
  "\<not> is_digit (CHR ''-'')" "\<not> is_digit (CHR ''+'')" "\<not> is_digit (CHR '' '')"
  "\<not> is_digit (CHR 0x0D)" "\<not> is_digit (CHR 0x0A)" "\<not> is_digit (CHR ''#'')"
  by (simp_all add: is_digit_def)

lemma nat_to_string_hd: "nat_to_string n = c # t \<Longrightarrow> is_digit c"
  using nat_to_string_digits [of c n] by simp

lemma from_chars_i64_to_string:
  assumes "- (2 ^ 63) \<le> i" "i < 2 ^ 63"
  shows "from_chars_i64 (int_to_string i) = Some (i, [])"
proof (cases "i < 0")
  case True
  with assms show ?thesis by (simp add: from_chars_i64_def int_to_string_def Let_def)
next
  case False
  obtain c t where ct: "nat_to_string (nat i) = c # t"
    by (cases "nat_to_string (nat i)") auto
  then have "c \<noteq> CHR ''-''" using nat_to_string_hd [OF ct] by auto
  with False assms ct span_to_string_all [of "nat i"] digits_val_to_string [of "nat i"] show ?thesis
    by (simp add: from_chars_i64_def int_to_string_def Let_def del: digits_val_to_string span_to_string_all)
qed

lemma digit_not_space: "is_digit c \<Longrightarrow> \<not> is_space c"
  by (auto simp: is_digit_def is_space_def)

lemma strto_to_string: "strto (nat_to_string n) = Some (False, n)"
proof -
  obtain c t where ct: "nat_to_string n = c # t"
    by (cases "nat_to_string n") auto
  note d = nat_to_string_hd [OF ct]
  have "c \<noteq> CHR ''-''" "c \<noteq> CHR ''+''" using d by auto
  with d ct span_to_string_all [of n] digits_val_to_string [of n] show ?thesis
    by (simp add: strto_def digit_not_space Let_def takeWhile_eq_all_conv [THEN iffD2] del: digits_val_to_string span_to_string_all)
qed

lemma stoull_to_string: "stoull (nat_to_string (unat (w :: u64))) = Some w"
  using unsigned_less [of w] by (simp add: stoull_def strto_to_string not_le [symmetric])

lemma stoi_to_string: "n < 2 ^ 31 \<Longrightarrow> stoi (nat_to_string n) = Some (int n)"
  by (simp add: stoi_def strto_to_string)

end
