(* ===== verification/Hash_Ring.thy ===== *)
theory Hash_Ring
  imports Std_Map Decimal
begin

text \<open>
  The consistent hash ring (src/consistent_hash.cpp): the hash function, the table of virtual
  nodes and the clockwise walk that collects the replicas of a key. The walk is shown equal to a
  reference definition over the sorted table, and from it follow the properties that make the
  hashing consistent: a node that leaves or joins moves only the keys it owned or comes to own.
\<close>

section \<open>The hash function\<close>

definition fnv_step :: "u32 \<Rightarrow> char \<Rightarrow> u32" where
  "fnv_step hash c = (hash XOR of_char c) * 16777619"

definition murmur_finalizer :: "u32 \<Rightarrow> u32" where
  "murmur_finalizer hash =
     (let hash = hash XOR drop_bit 16 hash;
          hash = hash * 0x85ebca6b;
          hash = hash XOR drop_bit 13 hash;
          hash = hash * 0xc2b2ae35
      in hash XOR drop_bit 16 hash)"

definition hash_fn :: "string \<Rightarrow> u32" where
  "hash_fn key = murmur_finalizer (foldl fnv_step 2166136261 key)"

section \<open>The ring\<close>

record CacheNode =
  cn_id :: string
  cn_host :: string
  cn_port :: u16

record ConsistentHashRing =
  r_num_vnodes :: nat
  r_physical_nodes :: "(string \<times> CacheNode) list"
  r_ring :: "(u32 \<times> CacheNode) list"

definition new_ring :: "nat \<Rightarrow> ConsistentHashRing" where
  "new_ring vnodes = \<lparr>r_num_vnodes = vnodes, r_physical_nodes = [], r_ring = []\<rparr>"

definition vnode_hash :: "string \<Rightarrow> nat \<Rightarrow> u32" where
  "vnode_hash node_id i = hash_fn (node_id @ ''#'' @ nat_to_string i)"

definition ring_add_node :: "CacheNode \<Rightarrow> ConsistentHashRing \<Rightarrow> ConsistentHashRing" where
  "ring_add_node node r =
     r\<lparr>r_physical_nodes := map_insert (cn_id node) node (r_physical_nodes r),
       r_ring := fold (\<lambda>i. map_insert (vnode_hash (cn_id node) i) node) [0..<r_num_vnodes r] (r_ring r)\<rparr>"

definition ring_remove_node :: "string \<Rightarrow> ConsistentHashRing \<Rightarrow> ConsistentHashRing" where
  "ring_remove_node node_id r =
     (case map_of (r_physical_nodes r) node_id of
        None \<Rightarrow> r
      | Some _ \<Rightarrow>
          r\<lparr>r_physical_nodes := map_erase node_id (r_physical_nodes r),
            r_ring := fold (\<lambda>i. map_erase (vnode_hash node_id i)) [0..<r_num_vnodes r] (r_ring r)\<rparr>)"

definition locate :: "string \<Rightarrow> ConsistentHashRing \<Rightarrow> CacheNode option" where
  "locate key r =
     (if r_ring r = [] then None
      else
        (let hash_val = hash_fn key;
             it = lower_bound hash_val (map fst (r_ring r));
             it = (if it = length (r_ring r) then 0 else it)
         in Some (snd (r_ring r ! it))))"

text \<open>The loop of \<open>locate_replicas\<close>. Its iterator is a position, \<open>length\<close> standing for
  \<open>end()\<close>.\<close>

function locate_loop ::
    "(u32 \<times> CacheNode) list \<Rightarrow> nat \<Rightarrow> nat \<Rightarrow> string set \<Rightarrow> CacheNode list \<Rightarrow> nat \<Rightarrow> CacheNode list" where
  "locate_loop ring count it seen_nodes replicas steps =
     (if card seen_nodes < count \<and> steps < length ring
      then
        (let it = (if it = length ring then 0 else it);
             node = snd (ring ! it)
         in if cn_id node \<notin> seen_nodes
            then locate_loop ring count (it + 1) (insert (cn_id node) seen_nodes) (replicas @ [node]) (steps + 1)
            else locate_loop ring count (it + 1) seen_nodes replicas (steps + 1))
      else replicas)"
  by auto
termination
  by (relation "measure (\<lambda>(ring, _, _, _, _, steps). length ring - steps)") auto

declare locate_loop.simps [simp del]

definition locate_replicas :: "string \<Rightarrow> nat \<Rightarrow> ConsistentHashRing \<Rightarrow> CacheNode list" where
  "locate_replicas key count r =
     (if r_ring r = [] \<or> count = 0 then []
      else locate_loop (r_ring r) count (lower_bound (hash_fn key) (map fst (r_ring r))) {} [] 0)"

section \<open>Reference definition\<close>

text \<open>The owners met when walking clockwise from a hash value, and the first of each identity
  among them.\<close>

definition clockwise :: "u32 \<Rightarrow> (u32 \<times> CacheNode) list \<Rightarrow> CacheNode list" where
  "clockwise h ring = map snd (filter (\<lambda>p. h \<le> fst p) ring @ filter (\<lambda>p. fst p < h) ring)"

definition preference :: "u32 \<Rightarrow> (u32 \<times> CacheNode) list \<Rightarrow> CacheNode list" where
  "preference h ring = first_by cn_id {} (clockwise h ring)"

section \<open>Invariant\<close>

text \<open>Every point belongs to a member, as that member is registered, and sits at one of the
  member's virtual node hashes.\<close>

definition ring_wf :: "ConsistentHashRing \<Rightarrow> bool" where
  "ring_wf r \<longleftrightarrow>
     map_wf (r_ring r) \<and> map_wf (r_physical_nodes r) \<and>
     (\<forall>k n. map_of (r_physical_nodes r) k = Some n \<longrightarrow> cn_id n = k) \<and>
     (\<forall>h n. map_of (r_ring r) h = Some n \<longrightarrow>
        map_of (r_physical_nodes r) (cn_id n) = Some n \<and>
        h \<in> vnode_hash (cn_id n) ` {0..<r_num_vnodes r})"

text \<open>No point of another member sits at a virtual node hash of this identity.\<close>

definition no_clash :: "string \<Rightarrow> ConsistentHashRing \<Rightarrow> bool" where
  "no_clash x r \<longleftrightarrow>
     (\<forall>h \<in> vnode_hash x ` {0..<r_num_vnodes r}. \<forall>n. map_of (r_ring r) h = Some n \<longrightarrow> cn_id n = x)"

lemma ring_wf_sorted: "ring_wf r \<Longrightarrow> map_wf (r_ring r)"
  by (simp add: ring_wf_def)

lemma ring_wf_member:
  "ring_wf r \<Longrightarrow> map_of (r_ring r) h = Some n \<Longrightarrow> map_of (r_physical_nodes r) (cn_id n) = Some n"
  by (simp add: ring_wf_def)

lemma ring_wf_registered:
  assumes wf: "ring_wf r" and n: "n \<in> snd ` set (r_ring r)"
  shows "map_of (r_physical_nodes r) (cn_id n) = Some n"
proof -
  obtain h where "map_of (r_ring r) h = Some n"
    using n map_wf_distinct [OF ring_wf_sorted [OF wf]] by (force simp: map_of_eq_Some_iff)
  then show ?thesis by (rule ring_wf_member [OF wf])
qed

lemma new_ring_parts [simp]:
  "r_num_vnodes (new_ring vnodes) = vnodes" "r_physical_nodes (new_ring vnodes) = []"
  "r_ring (new_ring vnodes) = []"
  by (simp_all add: new_ring_def)

lemma new_ring_wf: "ring_wf (new_ring vnodes)"
  by (simp add: ring_wf_def new_ring_def map_wf_def)

lemma map_of_ring_add:
  assumes "map_wf (r_ring r)"
  shows "map_of (r_ring (ring_add_node node r)) h =
    (if h \<in> vnode_hash (cn_id node) ` {0..<r_num_vnodes r} then Some node else map_of (r_ring r) h)"
  using om.look_fold_upd_const [OF assms, where key = "vnode_hash (cn_id node)"]
  by (simp add: ring_add_node_def)

lemma map_of_ring_remove:
  assumes "map_wf (r_ring r)" "map_of (r_physical_nodes r) x \<noteq> None"
  shows "map_of (r_ring (ring_remove_node x r)) h =
    (if h \<in> vnode_hash x ` {0..<r_num_vnodes r} then None else map_of (r_ring r) h)"
  using om.look_fold_del [OF assms(1), where key = "vnode_hash x"] assms(2)
  by (auto simp: ring_remove_node_def)

lemma ring_add_parts [simp]:
  "r_num_vnodes (ring_add_node node r) = r_num_vnodes r"
  "r_physical_nodes (ring_add_node node r) = map_insert (cn_id node) node (r_physical_nodes r)"
  by (simp_all add: ring_add_node_def)

lemma ring_remove_parts [simp]:
  "r_num_vnodes (ring_remove_node x r) = r_num_vnodes r"
  by (simp add: ring_remove_node_def split: option.split)

lemma ring_add_node_wf:
  assumes "ring_wf r" shows "ring_wf (ring_add_node node r)"
proof -
  have wf: "map_wf (r_ring r)" using assms by (simp add: ring_wf_def)
  have "map_wf (r_ring (ring_add_node node r))"
    using om.inv_fold_upd [OF wf] by (simp add: ring_add_node_def)
  moreover have "cn_id n \<noteq> cn_id node"
    if "map_of (r_ring r) h = Some n" "h \<notin> vnode_hash (cn_id node) ` {0..<r_num_vnodes r}" for h n
    using assms that by (metis ring_wf_def)
  ultimately show ?thesis
    using assms
    by (auto simp: ring_wf_def map_wf_insert map_of_map_insert map_of_ring_add split: if_splits)
qed

lemma ring_remove_node_wf:
  assumes "ring_wf r" shows "ring_wf (ring_remove_node x r)"
proof (cases "map_of (r_physical_nodes r) x")
  case None
  with assms show ?thesis by (simp add: ring_remove_node_def)
next
  case (Some m)
  have wf: "map_wf (r_ring r)" "map_wf (r_physical_nodes r)" using assms by (auto simp: ring_wf_def)
  have "map_wf (r_ring (ring_remove_node x r))"
    using om.inv_fold_del [OF wf(1)] Some by (simp add: ring_remove_node_def)
  moreover have "r_physical_nodes (ring_remove_node x r) = map_erase x (r_physical_nodes r)"
    using Some by (simp add: ring_remove_node_def)
  ultimately show ?thesis
    using assms Some
    by (auto simp: ring_wf_def map_wf_erase map_of_map_erase map_of_ring_remove split: if_splits)
qed

section \<open>The walk is the reference definition\<close>

lemma split_at_lower_bound:
  assumes "map_wf ring"
  shows "drop (lower_bound h (map fst ring)) ring = filter (\<lambda>p. h \<le> fst p) ring"
    and "take (lower_bound h (map fst ring)) ring = filter (\<lambda>p. fst p < h) ring"
proof -
  have "drop (lower_bound h (map fst ring)) ring = filter (\<lambda>p. h \<le> fst p) ring \<and>
        take (lower_bound h (map fst ring)) ring = filter (\<lambda>p. fst p < h) ring"
    using assms
  proof (induction ring)
    case (Cons p ring)
    have above: "fst p < fst q" if "q \<in> set ring" for q
      using Cons.prems that by (auto simp: map_wf_def)
    show ?case
    proof (cases "fst p < h")
      case True
      with Cons show ?thesis by (auto simp: lower_bound_def map_wf_def)
    next
      case False
      then have le: "\<forall>q \<in> set (p # ring). h \<le> fst q"
        using above by (force simp: not_less intro: order.strict_implies_order order.strict_trans1)
      then have "filter (\<lambda>p. h \<le> fst p) (p # ring) = p # ring"
        and "filter (\<lambda>p. fst p < h) (p # ring) = []"
        by (blast intro: filter_True, fastforce simp: filter_empty_conv)
      moreover have "lower_bound h (map fst (p # ring)) = 0"
        using False by (simp add: lower_bound_def)
      ultimately show ?thesis by (simp only: drop_0 take_0)
    qed
  qed (simp add: lower_bound_def)
  then show "drop (lower_bound h (map fst ring)) ring = filter (\<lambda>p. h \<le> fst p) ring"
    and "take (lower_bound h (map fst ring)) ring = filter (\<lambda>p. fst p < h) ring" by auto
qed

lemma clockwise_rotate:
  assumes "map_wf ring"
  shows "clockwise h ring = map snd (rotate (lower_bound h (map fst ring)) ring)"
  using split_at_lower_bound [OF assms, of h] lower_bound_le [of h "map fst ring"]
  by (simp add: clockwise_def rotate_le)

lemma locate_loop_first_by:
  assumes "steps \<le> length ring" "it \<le> length ring" "finite seen"
    and "it mod length ring = (start + steps) mod length ring"
  shows "locate_loop ring count it seen replicas steps =
    replicas @ take (count - card seen) (first_by cn_id seen (map snd (drop steps (rotate start ring))))"
  using assms
proof (induction ring count it seen replicas steps rule: locate_loop.induct)
  case (1 ring count it seen replicas steps)
  show ?case
  proof (cases "card seen < count \<and> steps < length ring")
    case False
    with "1.prems" show ?thesis by (auto simp: locate_loop.simps [of ring])
  next
    case True
    define it' where "it' = (if it = length ring then 0 else it)"
    have it': "it' < length ring" "it' = (start + steps) mod length ring"
      using "1.prems" True by (auto simp: it'_def)
    have here: "drop steps (rotate start ring) = ring ! it' # drop (Suc steps) (rotate start ring)"
      using True it' nth_rotate [of steps ring start]
      by (simp add: Cons_nth_drop_Suc [symmetric])
    have next_it: "(it' + 1) mod length ring = (start + (steps + 1)) mod length ring"
      using it'(2) by (simp add: mod_Suc_eq)
    show ?thesis
    proof (cases "cn_id (snd (ring ! it')) \<in> seen")
      case seen: True
      have "locate_loop ring count (it' + 1) seen replicas (steps + 1) =
          replicas @ take (count - card seen)
            (first_by cn_id seen (map snd (drop (steps + 1) (rotate start ring))))"
        using "1.prems" True seen it' next_it
        by (intro "1.IH"(2) [OF True it'_def refl]) auto
      with True seen here show ?thesis
        by (subst locate_loop.simps) (simp add: it'_def [symmetric] Let_def)
    next
      case new: False
      have "locate_loop ring count (it' + 1) (insert (cn_id (snd (ring ! it'))) seen)
            (replicas @ [snd (ring ! it')]) (steps + 1) =
          (replicas @ [snd (ring ! it')]) @
            take (count - card (insert (cn_id (snd (ring ! it'))) seen))
              (first_by cn_id (insert (cn_id (snd (ring ! it'))) seen)
                (map snd (drop (steps + 1) (rotate start ring))))"
        using "1.prems" True new it' next_it
        by (intro "1.IH"(1) [OF True it'_def refl]) auto
      with True new here "1.prems"(3) show ?thesis
        by (subst locate_loop.simps) (simp add: it'_def [symmetric] Let_def take_Cons' Suc_diff_Suc [symmetric])
    qed
  qed
qed

lemma locate_replicas_preference:
  assumes "map_wf (r_ring r)"
  shows "locate_replicas key count r = take count (preference (hash_fn key) (r_ring r))"
proof (cases "r_ring r = [] \<or> count = 0")
  case True
  then show ?thesis by (auto simp: locate_replicas_def preference_def clockwise_def)
next
  case False
  then show ?thesis
    using assms lower_bound_le [of "hash_fn key" "map fst (r_ring r)"]
    by (simp add: locate_replicas_def preference_def clockwise_rotate
        locate_loop_first_by [where start = "lower_bound (hash_fn key) (map fst (r_ring r))"])
qed

section \<open>Consistency of the hashing\<close>

lemma preference_filter:
  "preference h (filter (\<lambda>p. cn_id (snd p) \<noteq> k) ring) =
   filter (\<lambda>n. cn_id n \<noteq> k) (preference h ring)"
proof -
  have "clockwise h (filter (\<lambda>p. cn_id (snd p) \<noteq> k) ring) =
      filter (\<lambda>n. cn_id n \<noteq> k) (clockwise h ring)"
    by (simp add: clockwise_def filter_map comp_def conj_commute)
  then show ?thesis by (simp add: preference_def first_by_filter [of "{}" k "{}"])
qed

lemma preference_ids:
  "cn_id ` set (preference h ring) = cn_id ` snd ` set ring"
  "distinct (map cn_id (preference h ring))"
  by (auto simp: preference_def first_by_keys clockwise_def image_Un [symmetric] image_image
      not_less [symmetric])

lemma ring_remove_filter:
  assumes wf: "ring_wf r" and clash: "no_clash x r"
  shows "r_ring (ring_remove_node x r) = filter (\<lambda>p. cn_id (snd p) \<noteq> x) (r_ring r)"
proof (rule map_wf_ext)
  have mwf: "map_wf (r_ring r)" using wf by (simp add: ring_wf_def)
  show "map_wf (r_ring (ring_remove_node x r))"
    using ring_remove_node_wf [OF wf] by (simp add: ring_wf_def)
  show fwf: "map_wf (filter (\<lambda>p. cn_id (snd p) \<noteq> x) (r_ring r))"
    using mwf by (simp add: map_wf_def sorted_wrt_map sorted_wrt_filter)
  have own: "cn_id n = x \<longleftrightarrow> h \<in> vnode_hash x ` {0..<r_num_vnodes r}"
    if "map_of (r_ring r) h = Some n" for h n
    using that wf clash by (auto simp: ring_wf_def no_clash_def)
  have filt: "map_of (filter (\<lambda>p. cn_id (snd p) \<noteq> x) (r_ring r)) h =
      (case map_of (r_ring r) h of None \<Rightarrow> None | Some n \<Rightarrow> if cn_id n = x then None else Some n)" for h
    using map_of_filter_snd [OF map_wf_distinct [OF mwf], of "\<lambda>n. cn_id n \<noteq> x"]
    by (auto split: option.split)
  show "map_of (r_ring (ring_remove_node x r)) = map_of (filter (\<lambda>p. cn_id (snd p) \<noteq> x) (r_ring r))"
  proof (cases "map_of (r_physical_nodes r) x")
    case None
    then have "cn_id n \<noteq> x" if "map_of (r_ring r) h = Some n" for h n
      using wf that by (auto simp: ring_wf_def)
    with None show ?thesis by (auto simp: fun_eq_iff filt ring_remove_node_def split: option.split)
  next
    case (Some m)
    with own mwf show ?thesis
      by (auto simp: fun_eq_iff filt map_of_ring_remove split: option.split)
  qed
qed

section \<open>Injectivity of the hash\<close>

lemma fnv_step_inj_hash: "fnv_step a c = fnv_step b c \<longleftrightarrow> a = b"
  using mult_cancel_by_inverse [of "16777619 :: u32" 899433627 "a XOR of_char c" "b XOR of_char c"]
  by (auto simp: fnv_step_def xor_cancel_right)

lemma fnv_step_inj_char: "fnv_step h c = fnv_step h d \<longleftrightarrow> c = d"
  using mult_cancel_by_inverse [of "16777619 :: u32" 899433627 "h XOR of_char c" "h XOR of_char d"]
  by (auto simp: fnv_step_def xor_cancel_left of_char_word_inj)

lemma foldl_fnv_inj: "foldl fnv_step a xs = foldl fnv_step b xs \<longleftrightarrow> a = b"
  by (induction xs arbitrary: a b) (auto simp: fnv_step_inj_hash)

lemma murmur_finalizer_inj: "murmur_finalizer a = murmur_finalizer b \<longleftrightarrow> a = b"
proof
  define x where "x h = (h XOR drop_bit 16 h) * 0x85ebca6b" for h :: u32
  define y where "y h = (h XOR drop_bit 13 h) * 0xc2b2ae35" for h :: u32
  assume "murmur_finalizer a = murmur_finalizer b"
  then have "y (x a) XOR drop_bit 16 (y (x a)) = y (x b) XOR drop_bit 16 (y (x b))"
    by (simp only: murmur_finalizer_def Let_def x_def y_def)
  then have "y (x a) = y (x b)" by (rule xor_shift_inj [rotated]) simp
  then have "x a XOR drop_bit 13 (x a) = x b XOR drop_bit 13 (x b)"
    unfolding y_def by (rule mult_cancel_by_inverse [of _ 2127672349, rotated]) simp
  then have "x a = x b" by (rule xor_shift_inj [rotated]) simp
  then have "a XOR drop_bit 16 a = b XOR drop_bit 16 b"
    unfolding x_def by (rule mult_cancel_by_inverse [of _ 2781581891, rotated]) simp
  then show "a = b" by (rule xor_shift_inj [rotated]) simp
qed simp

lemma hash_fn_differ:
  "hash_fn (xs @ c # ys) = hash_fn (xs @ d # ys) \<longleftrightarrow> c = d"
  by (simp add: hash_fn_def murmur_finalizer_inj foldl_fnv_inj fnv_step_inj_char)

section \<open>Properties\<close>

lemma locate_head:
  assumes "map_wf (r_ring r)"
  shows "locate key r = (case clockwise (hash_fn key) (r_ring r) of [] \<Rightarrow> None | n # _ \<Rightarrow> Some n)"
proof (cases "r_ring r = []")
  case True
  then show ?thesis by (simp add: locate_def clockwise_def)
next
  case False
  define lb where "lb = lower_bound (hash_fn key) (map fst (r_ring r))"
  have lb: "lb \<le> length (r_ring r)"
    using lower_bound_le [of "hash_fn key" "map fst (r_ring r)"] by (simp add: lb_def)
  have "hd (map snd (rotate lb (r_ring r))) = snd (r_ring r ! (lb mod length (r_ring r)))"
    using False by (simp add: hd_map hd_rotate_conv_nth)
  moreover have "lb mod length (r_ring r) = (if lb = length (r_ring r) then 0 else lb)"
    using lb by auto
  ultimately have "locate key r = Some (hd (clockwise (hash_fn key) (r_ring r)))"
    using False
    by (simp add: locate_def lb_def [symmetric] Let_def clockwise_rotate [OF assms])
  moreover have "clockwise (hash_fn key) (r_ring r) \<noteq> []"
    using False by (simp add: clockwise_rotate [OF assms])
  ultimately show ?thesis by (simp split: list.split)
qed

text \<open>The replicas of a key are distinct members of the ring, as many as asked for or all there
  are, and the first of them is the node that \<open>locate\<close> names as the owner.\<close>

theorem locate_replicas_sound:
  assumes "ring_wf r"
  shows "distinct (map cn_id (locate_replicas key count r))
    \<and> set (locate_replicas key count r) \<subseteq> snd ` set (r_physical_nodes r)
    \<and> length (locate_replicas key count r) = min count (card (cn_id ` snd ` set (r_ring r)))
    \<and> (0 < count \<longrightarrow> locate key r =
         (case locate_replicas key count r of [] \<Rightarrow> None | n # _ \<Rightarrow> Some n))"
proof -
  define D where "D = preference (hash_fn key) (r_ring r)"
  have wf: "map_wf (r_ring r)" using assms by (simp add: ring_wf_def)
  have rep: "locate_replicas key count r = take count D"
    using locate_replicas_preference [OF wf] by (simp add: D_def)
  have dist: "distinct (map cn_id D)" and ids: "cn_id ` set D = cn_id ` snd ` set (r_ring r)"
    by (simp_all add: D_def preference_ids)
  have "set D \<subseteq> snd ` set (r_ring r)"
    using first_by_subset by (fastforce simp: D_def preference_def clockwise_def)
  moreover have "snd ` set (r_ring r) \<subseteq> snd ` set (r_physical_nodes r)"
    using ring_wf_registered [OF assms] by (force dest!: map_of_SomeD)
  ultimately have "set (take count D) \<subseteq> snd ` set (r_physical_nodes r)"
    using set_take_subset [of count D] by blast
  moreover have "distinct (map cn_id (take count D))"
    using dist by (metis distinct_take take_map)
  moreover have "length D = card (cn_id ` snd ` set (r_ring r))"
    using dist distinct_card [OF dist] by (simp add: ids [symmetric])
  moreover have "locate key r = (case take count D of [] \<Rightarrow> None | n # _ \<Rightarrow> Some n)" if "0 < count"
    using that by (cases "clockwise (hash_fn key) (r_ring r)")
      (auto simp: locate_head [OF wf] D_def preference_def take_Cons' split: list.split)
  ultimately show ?thesis by (simp add: rep min.commute)
qed

definition node_a :: CacheNode where
  "node_a = \<lparr>cn_id = ''a'', cn_host = ''h'', cn_port = 7001\<rparr>"

definition node_b :: CacheNode where
  "node_b = \<lparr>cn_id = ''b'', cn_host = ''h'', cn_port = 7002\<rparr>"

lemma node_ids: "cn_id node_a = ''a''" "cn_id node_b = ''b''"
  by (simp_all add: node_a_def node_b_def)

lemma ring_example:
  "ring_wf (ring_add_node node_a (new_ring 1))"
  "ring_wf (ring_add_node node_b (ring_add_node node_a (new_ring 1)))"
  "cn_id node_b = ''b''" "map_of (r_physical_nodes (ring_add_node node_a (new_ring 1))) ''b'' = None"
  by (simp_all add: ring_add_node_wf new_ring_wf)
     (simp_all add: new_ring_def node_a_def node_b_def)

lemma clash_free_example:
  "no_clash ''b'' (ring_add_node node_a (new_ring 1))"
  "no_clash ''b'' (ring_add_node node_b (ring_add_node node_a (new_ring 1)))"
proof -
  have wf: "map_wf (r_ring (ring_add_node node_a (new_ring 1)))"
    "map_wf (r_ring (new_ring 1))"
    using ring_example(1) new_ring_wf by (blast intro: ring_wf_sorted)+
  have "vnode_hash ''a'' 0 \<noteq> vnode_hash ''b'' 0"
    using hash_fn_differ [of "[]" "CHR ''a''" "''#'' @ nat_to_string 0" "CHR ''b''"]
    by (simp add: vnode_hash_def)
  then show "no_clash ''b'' (ring_add_node node_a (new_ring 1))"
    "no_clash ''b'' (ring_add_node node_b (ring_add_node node_a (new_ring 1)))"
    using ring_example(3)
    by (auto simp: no_clash_def map_of_ring_add [OF wf(1)] map_of_ring_add [OF wf(2)] node_ids
        simp del: One_nat_def split: if_splits)
qed

theorem locate_replicas_sound_witness:
  "let r = ring_add_node node_b (ring_add_node node_a (new_ring 1))
   in distinct (map cn_id (locate_replicas ''k'' 2 r))
      \<and> locate ''k'' r = (case locate_replicas ''k'' 2 r of [] \<Rightarrow> None | n # _ \<Rightarrow> Some n)"
  unfolding Let_def using locate_replicas_sound [OF ring_example(2), of "''k''" 2] by simp



lemma ring_remove_add:
  assumes "ring_wf r" "map_of (r_physical_nodes r) (cn_id node) = None" "no_clash (cn_id node) r"
  shows "r_ring (ring_remove_node (cn_id node) (ring_add_node node r)) = r_ring r"
proof -
  have wf: "map_wf (r_ring r)" "map_wf (r_ring (ring_add_node node r))"
    using assms(1) ring_add_node_wf [OF assms(1)] by (blast intro: ring_wf_sorted)+
  have free: "map_of (r_ring r) h = None" if "h \<in> vnode_hash (cn_id node) ` {0..<r_num_vnodes r}" for h
  proof (rule ccontr)
    assume "map_of (r_ring r) h \<noteq> None"
    then obtain n where n: "map_of (r_ring r) h = Some n" by blast
    with assms(3) that have "cn_id n = cn_id node" by (auto simp: no_clash_def)
    with ring_wf_member [OF assms(1) n] assms(2) show False by simp
  qed
  have "map_of (r_ring (ring_remove_node (cn_id node) (ring_add_node node r))) = map_of (r_ring r)"
    using free by (auto simp: fun_eq_iff map_of_ring_remove [OF wf(2)] map_of_ring_add [OF wf(1)]
        map_of_map_insert)
  with wf show ?thesis
    using ring_wf_sorted [OF ring_remove_node_wf [OF ring_add_node_wf [OF assms(1)]]]
    by (intro map_wf_ext)
qed

text \<open>When a node joins, every old preference list is recovered from the new one by taking the
  new node out: a key gains at most the new node, and each key keeps its other replicas in their
  order. The new node's virtual nodes must not collide with a member's.\<close>

theorem add_node_minimal:
  assumes "ring_wf r" and "map_of (r_physical_nodes r) (cn_id node) = None"
    and "no_clash (cn_id node) r"
  shows "locate_replicas key count r =
    take count (filter (\<lambda>n. cn_id n \<noteq> cn_id node) (locate_replicas key (count + 1) (ring_add_node node r)))"
proof -
  let ?a = "ring_add_node node r"
  have wf: "map_wf (r_ring r)" "map_wf (r_ring ?a)"
    using assms(1) ring_add_node_wf [OF assms(1)] by (blast intro: ring_wf_sorted)+
  have "no_clash (cn_id node) ?a"
    using wf(1) by (auto simp: no_clash_def map_of_ring_add)
  from ring_remove_filter [OF ring_add_node_wf [OF assms(1)] this]
  have "r_ring r = filter (\<lambda>p. cn_id (snd p) \<noteq> cn_id node) (r_ring ?a)"
    by (simp add: ring_remove_add [OF assms])
  then have "preference h (r_ring r) =
      filter (\<lambda>n. cn_id n \<noteq> cn_id node) (preference h (r_ring ?a))" for h
    by (simp add: preference_filter)
  then show ?thesis
    by (simp add: locate_replicas_preference [OF wf(1)] locate_replicas_preference [OF wf(2)]
        take_filter_distinct preference_ids)
qed

theorem add_node_minimal_witness:
  "let r = ring_add_node node_a (new_ring 1)
   in locate_replicas ''k'' 1 r =
      take 1 (filter (\<lambda>n. cn_id n \<noteq> ''b'') (locate_replicas ''k'' (1 + 1) (ring_add_node node_b r)))"
  unfolding Let_def
  by (rule add_node_minimal [OF ring_example(1), of node_b, unfolded ring_example(3),
        OF ring_example(4) clash_free_example(1)])

text \<open>Changing one byte of a string changes its hash: the mixing steps lose nothing. In
  particular virtual nodes of one member whose numbers differ in one digit never collide.\<close>

theorem hash_fn_one_byte: "hash_fn (xs @ c # ys) = hash_fn (xs @ d # ys) \<longleftrightarrow> c = d"
  by (rule hash_fn_differ)

end
