(* ===== verification/Sharded_Cache.thy ===== *)
theory Sharded_Cache
  imports Versioned_Store Hash_Ring
begin

text \<open>
  The sharded cache (src/sharded_cache.cpp): independent shards, each with its own lock, and the
  hash of a key choosing the shard. An operation on a key is one critical section of one shard;
  the operations over all shards are a sequence of them. The main result is that every shard
  sees exactly the operations routed to it, so the guarantees of one shard carry over.
\<close>

record ShardedCache =
  s_shards :: "Cache list"

definition new_sharded_cache :: "nat \<Rightarrow> nat \<Rightarrow> millis \<Rightarrow> ShardedCache" where
  "new_sharded_cache total_capacity shard_count tombstone_ttl =
     (let shard_count = (if shard_count = 0 then 1 else shard_count);
          capacity_per_shard = total_capacity div shard_count;
          capacity_per_shard = (if capacity_per_shard = 0 then 1 else capacity_per_shard)
      in \<lparr>s_shards = replicate shard_count (new_cache capacity_per_shard tombstone_ttl)\<rparr>)"

definition get_shard_index :: "string \<Rightarrow> ShardedCache \<Rightarrow> nat" where
  "get_shard_index key s = unat (hash_fn key) mod length (s_shards s)"

text \<open>Run one operation on one shard in place.\<close>

definition on_shard :: "nat \<Rightarrow> (Cache \<Rightarrow> 'r \<times> Cache) \<Rightarrow> ShardedCache \<Rightarrow> 'r \<times> ShardedCache" where
  "on_shard idx f s =
     (case f (s_shards s ! idx) of (r, c) \<Rightarrow> (r, s\<lparr>s_shards := (s_shards s)[idx := c]\<rparr>))"

section \<open>Operations on a key\<close>

definition sharded_set ::
    "ticks \<Rightarrow> string \<Rightarrow> string \<Rightarrow> millis option \<Rightarrow> ShardedCache \<Rightarrow> ShardedCache" where
  "sharded_set now key val ttl s =
     snd (on_shard (get_shard_index key s) (\<lambda>c. ((), cache_set now key val ttl c)) s)"

definition sharded_get :: "ticks \<Rightarrow> string \<Rightarrow> ShardedCache \<Rightarrow> string option \<times> ShardedCache" where
  "sharded_get now key s = on_shard (get_shard_index key s) (cache_get now key) s"

definition sharded_remove :: "ticks \<Rightarrow> string \<Rightarrow> ShardedCache \<Rightarrow> bool \<times> ShardedCache" where
  "sharded_remove now key s = on_shard (get_shard_index key s) (cache_remove now key) s"

definition sharded_apply ::
    "ticks \<Rightarrow> string \<Rightarrow> VersionedValue \<Rightarrow> ShardedCache \<Rightarrow> (bool \<times> bool) \<times> ShardedCache" where
  "sharded_apply now key v s = on_shard (get_shard_index key s) (cache_apply now key v) s"

definition sharded_get_versioned ::
    "ticks \<Rightarrow> string \<Rightarrow> ShardedCache \<Rightarrow> VersionedValue option \<times> ShardedCache" where
  "sharded_get_versioned now key s = on_shard (get_shard_index key s) (get_versioned now key) s"

definition sharded_contains :: "ticks \<Rightarrow> string \<Rightarrow> ShardedCache \<Rightarrow> bool" where
  "sharded_contains now key s = cache_contains now key (s_shards s ! get_shard_index key s)"

definition sharded_expire :: "ticks \<Rightarrow> string \<Rightarrow> millis \<Rightarrow> ShardedCache \<Rightarrow> bool \<times> ShardedCache" where
  "sharded_expire now key ttl s = on_shard (get_shard_index key s) (cache_expire now key ttl) s"

definition sharded_ttl :: "ticks \<Rightarrow> string \<Rightarrow> ShardedCache \<Rightarrow> int option" where
  "sharded_ttl now key s = cache_ttl now key (s_shards s ! get_shard_index key s)"

definition sharded_pttl :: "ticks \<Rightarrow> string \<Rightarrow> ShardedCache \<Rightarrow> int" where
  "sharded_pttl now key s = cache_pttl now key (s_shards s ! get_shard_index key s)"

text \<open>
  \<open>get_or_load\<close> as the leader of its single flight runs it: two reads, then the loader and a
  write, each at its own clock value. \<open>None\<close> is a loader that throws.
\<close>

definition get_or_load ::
    "ticks \<Rightarrow> ticks \<Rightarrow> ticks \<Rightarrow> string \<Rightarrow> string option \<Rightarrow> millis option \<Rightarrow> ShardedCache
     \<Rightarrow> string option \<times> ShardedCache" where
  "get_or_load t1 t2 t3 key loader ttl s =
     (case sharded_get t1 key s of
        (Some val, s1) \<Rightarrow> (Some val, s1)
      | (None, s1) \<Rightarrow>
          (case sharded_get t2 key s1 of
             (Some cached, s2) \<Rightarrow> (Some cached, s2)
           | (None, s2) \<Rightarrow>
               (case loader of
                  None \<Rightarrow> (None, s2)
                | Some loaded \<Rightarrow> (Some loaded, sharded_set t3 key loaded ttl s2))))"

section \<open>Operations on all shards\<close>

text \<open>The loops visit the shards in order; \<open>now i\<close> is the clock reading at shard \<open>i\<close>.\<close>

definition for_each_shard_snapshot ::
    "(nat \<Rightarrow> ticks) \<Rightarrow> ShardedCache \<Rightarrow> (string \<times> VersionedValue) list list" where
  "for_each_shard_snapshot now s =
     map (\<lambda>i. cache_snapshot (now i) (s_shards s ! i) []) [0..<length (s_shards s)]"

definition sharded_purge_expired :: "(nat \<Rightarrow> ticks) \<Rightarrow> ShardedCache \<Rightarrow> ShardedCache" where
  "sharded_purge_expired now s =
     s\<lparr>s_shards := map (\<lambda>i. purge_expired (now i) (s_shards s ! i)) [0..<length (s_shards s)]\<rparr>"

definition sharded_size :: "ShardedCache \<Rightarrow> u64" where
  "sharded_size s = sum_list (map cache_size (s_shards s))"

definition sharded_capacity :: "ShardedCache \<Rightarrow> nat" where
  "sharded_capacity s = sum_list (map c_capacity (s_shards s))"

definition sharded_clear :: "ShardedCache \<Rightarrow> ShardedCache" where
  "sharded_clear s = s\<lparr>s_shards := map cache_clear (s_shards s)\<rparr>"

definition sharded_totals :: "ShardedCache \<Rightarrow> CacheMetrics" where
  "sharded_totals s =
     fold (\<lambda>c t. let m = c_metrics c in
         t\<lparr>m_hits := m_hits t + m_hits m, m_misses := m_misses t + m_misses m,
           m_sets := m_sets t + m_sets m, m_deletes := m_deletes t + m_deletes m,
           m_evictions := m_evictions t + m_evictions m,
           m_expirations := m_expirations t + m_expirations m\<rparr>)
       (s_shards s) no_metrics"

definition total_hits :: "ShardedCache \<Rightarrow> u64" where
  "total_hits s = sum_list (map (\<lambda>c. m_hits (c_metrics c)) (s_shards s))"

definition total_misses :: "ShardedCache \<Rightarrow> u64" where
  "total_misses s = sum_list (map (\<lambda>c. m_misses (c_metrics c)) (s_shards s))"

section \<open>Critical sections\<close>

text \<open>A critical section of the sharded cache is one of a shard: of the key's shard, or of shard
  \<open>i\<close> when a loop over the shards has reached it.\<close>

fun op_key :: "cache_op \<Rightarrow> string option" where
  "op_key (OpSet now k v ttl) = Some k"
| "op_key (OpGetShared now k) = Some k"
| "op_key (OpGetPromote now k) = Some k"
| "op_key (OpRemove now k) = Some k"
| "op_key (OpContains now k) = Some k"
| "op_key (OpApply now k v) = Some k"
| "op_key (OpGetVersioned now k) = Some k"
| "op_key (OpSnapshot now) = None"
| "op_key OpClear = None"
| "op_key (OpExpire now k ttl) = Some k"
| "op_key (OpPttl now k) = Some k"
| "op_key (OpPurge now) = None"

definition routed :: "nat \<Rightarrow> nat \<times> cache_op \<Rightarrow> nat" where
  "routed n sec =
     (case op_key (snd sec) of Some k \<Rightarrow> unat (hash_fn k) mod n | None \<Rightarrow> fst sec mod n)"

definition sharded_step :: "nat \<times> cache_op \<Rightarrow> ShardedCache \<Rightarrow> reply \<times> ShardedCache" where
  "sharded_step sec s = on_shard (routed (length (s_shards s)) sec) (cache_step (snd sec)) s"

definition sharded_wf :: "ShardedCache \<Rightarrow> bool" where
  "sharded_wf s \<longleftrightarrow>
     s_shards s \<noteq> [] \<and>
     (\<forall>i < length (s_shards s). cache_wf (s_shards s ! i) \<and>
        (\<forall>k \<in> fst ` set (contents (s_shards s ! i)). get_shard_index k s = i))"

definition sharded_look :: "ShardedCache \<Rightarrow> string \<Rightarrow> CacheEntry option" where
  "sharded_look s k = map_of (contents (s_shards s ! get_shard_index k s)) k"

section \<open>Operations as sections\<close>

lemma length_on_shard [simp]: "length (s_shards (snd (on_shard i f s))) = length (s_shards s)"
  by (simp add: on_shard_def case_prod_beta)

lemma get_shard_index_on_shard [simp]:
  "get_shard_index k (snd (on_shard i f s)) = get_shard_index k s"
  by (simp add: get_shard_index_def)

lemma routed_key: "op_key op = Some k \<Longrightarrow> routed (length (s_shards s)) (i, op) = get_shard_index k s"
  by (simp add: routed_def get_shard_index_def)

lemma on_shard_cong:
  "snd (f (s_shards s ! i)) = snd (g (s_shards s ! i)) \<Longrightarrow> snd (on_shard i f s) = snd (on_shard i g s)"
  by (simp add: on_shard_def case_prod_beta)

lemma sharded_as_step:
  "sharded_set now k v ttl s = snd (sharded_step (i, OpSet now k v ttl) s)"
  "snd (sharded_remove now k s) = snd (sharded_step (i, OpRemove now k) s)"
  "snd (sharded_apply now k val s) = snd (sharded_step (i, OpApply now k val) s)"
  "snd (sharded_get_versioned now k s) = snd (sharded_step (i, OpGetVersioned now k) s)"
  "snd (sharded_expire now k t s) = snd (sharded_step (i, OpExpire now k t) s)"
  by (auto simp: sharded_set_def sharded_remove_def sharded_apply_def sharded_get_versioned_def
      sharded_expire_def sharded_step_def routed_key case_prod_beta intro!: on_shard_cong)

section \<open>Invariant\<close>

lemma spec_step_keys:
  "fst ` set (snd (spec_step cap tt op l)) \<subseteq> set_option (op_key op) \<union> fst ` set l"
proof (cases op)
  case (OpExpire now k ttl)
  then show ?thesis by (auto simp: lru_drop_def image_iff split: option.split)
qed (auto simp: lru_put_def lru_front_def lru_drop_def split: option.split dest!: in_set_butlastD
    intro: rev_image_eqI)

lemma cache_step_keys:
  assumes "cache_wf c"
  shows "fst ` set (contents (snd (cache_step op c))) \<subseteq> set_option (op_key op) \<union> fst ` set (contents c)"
proof -
  have "contents (snd (cache_step op c)) = snd (spec_step (c_capacity c) (c_tombstone_ttl c) op (contents c))"
    using cache_step_refines [OF assms, of op] by (metis snd_conv)
  then show ?thesis by (simp add: spec_step_keys)
qed

lemma routed_less: "0 < n \<Longrightarrow> routed n sec < n"
  by (simp add: routed_def split: option.split)

lemma shard_after_step:
  assumes "j < length (s_shards s)"
  shows "s_shards (snd (sharded_step (i, op) s)) ! j =
    (if routed (length (s_shards s)) (i, op) = j then snd (cache_step op (s_shards s ! j)) else s_shards s ! j)"
  using assms by (auto simp: sharded_step_def on_shard_def case_prod_beta)

lemma sharded_step_parts [simp]:
  "length (s_shards (snd (sharded_step sec s))) = length (s_shards s)"
  "get_shard_index k (snd (sharded_step sec s)) = get_shard_index k s"
  by (simp_all add: sharded_step_def)

lemma sharded_step_wf:
  assumes wf: "sharded_wf s" shows "sharded_wf (snd (sharded_step sec s))"
proof -
  obtain i op where sec: "sec = (i, op)" by (cases sec)
  have "cache_wf (s_shards (snd (sharded_step sec s)) ! j) \<and>
      (\<forall>k \<in> fst ` set (contents (s_shards (snd (sharded_step sec s)) ! j)). get_shard_index k s = j)"
    if j: "j < length (s_shards s)" for j
  proof (cases "routed (length (s_shards s)) (i, op) = j")
    case True
    have c: "cache_wf (s_shards s ! j)"
      "\<And>k. k \<in> fst ` set (contents (s_shards s ! j)) \<Longrightarrow> get_shard_index k s = j"
      using wf j by (auto simp: sharded_wf_def)
    have "get_shard_index k s = j" if "k \<in> set_option (op_key op)" for k
      using that True by (auto simp: routed_key)
    with c cache_step_keys [OF c(1), of op]
    have "\<forall>k \<in> fst ` set (contents (snd (cache_step op (s_shards s ! j)))). get_shard_index k s = j"
      by blast
    with c(1) True j show ?thesis by (simp add: sec shard_after_step cache_step_wf)
  next
    case False
    with wf j show ?thesis by (simp add: sec shard_after_step sharded_wf_def)
  qed
  moreover have "s_shards (snd (sharded_step sec s)) \<noteq> []"
    using wf sharded_step_parts(1) [of sec s] by (auto simp: sharded_wf_def simp del: sharded_step_parts)
  ultimately show ?thesis by (simp add: sharded_wf_def)
qed

lemma new_sharded_wf: "sharded_wf (new_sharded_cache cap n tt)"
  by (simp add: sharded_wf_def new_sharded_cache_def new_cache_wf Let_def)

lemma sharded_wf_shard: "sharded_wf s \<Longrightarrow> cache_wf (s_shards s ! get_shard_index k s)"
  by (simp add: sharded_wf_def get_shard_index_def)

lemma get_shard_index_less: "sharded_wf s \<Longrightarrow> get_shard_index k s < length (s_shards s)"
  by (simp add: sharded_wf_def get_shard_index_def)

section \<open>The store contract\<close>

text \<open>All shards are built with the same retention for tombstones.\<close>

definition uniform :: "ShardedCache \<Rightarrow> bool" where
  "uniform s \<longleftrightarrow> (\<forall>c \<in> set (s_shards s). c_tombstone_ttl c = c_tombstone_ttl (hd (s_shards s)))"

lemma uniform_on_shard:
  assumes "uniform s" "\<And>c. c_tombstone_ttl (snd (f c)) = c_tombstone_ttl c" "i < length (s_shards s)"
  shows "uniform (snd (on_shard i f s))"
    and "c_tombstone_ttl (hd (s_shards (snd (on_shard i f s)))) = c_tombstone_ttl (hd (s_shards s))"
proof -
  have "c_tombstone_ttl c = c_tombstone_ttl (hd (s_shards s))"
    if "c \<in> set (s_shards (snd (on_shard i f s)))" for c
    using that assms set_update_subset_insert [of "s_shards s" i "snd (f (s_shards s ! i))"]
    by (auto simp: on_shard_def case_prod_beta uniform_def)
  moreover have "hd (s_shards (snd (on_shard i f s))) \<in> set (s_shards (snd (on_shard i f s)))"
    using assms(3) length_on_shard [of i f s] by (intro hd_in_set) (auto simp del: length_on_shard)
  ultimately show "uniform (snd (on_shard i f s))"
    and "c_tombstone_ttl (hd (s_shards (snd (on_shard i f s)))) = c_tombstone_ttl (hd (s_shards s))"
    by (auto simp: uniform_def)
qed

lemma look_on_shard:
  assumes "sharded_wf s"
  shows "sharded_look (snd (on_shard (get_shard_index k s) f s)) k' =
    (if get_shard_index k' s = get_shard_index k s
     then map_of (contents (snd (f (s_shards s ! get_shard_index k s)))) k'
     else sharded_look s k')"
  using get_shard_index_less [OF assms]
  by (auto simp: sharded_look_def on_shard_def case_prod_beta get_shard_index_def)

lemma fst_on_shard [simp]: "fst (on_shard i f s) = fst (f (s_shards s ! i))"
  by (simp add: on_shard_def case_prod_beta)

lemma new_sharded_parts:
  "uniform (new_sharded_cache cap n tt)" "c_tombstone_ttl (hd (s_shards (new_sharded_cache cap n tt))) = tt"
  "sharded_look (new_sharded_cache cap n tt) k = None"
  "length (s_shards (new_sharded_cache cap n tt)) = max 1 n"
  "j < max 1 n \<Longrightarrow> s_shards (new_sharded_cache cap n tt) ! j = new_cache (max 1 (cap div max 1 n)) tt"
  using new_sharded_wf [of cap n tt]
  by (auto simp: new_sharded_cache_def Let_def uniform_def sharded_look_def get_shard_index_def new_cache_def
      contents_def sharded_wf_def max_def)

lemma uniform_shard:
  "sharded_wf s \<Longrightarrow> uniform s \<Longrightarrow>
   c_tombstone_ttl (s_shards s ! get_shard_index k s) = c_tombstone_ttl (hd (s_shards s))"
  by (simp add: uniform_def get_shard_index_less)

interpretation sharded: versioned_store
  "\<lambda>s. sharded_wf s \<and> uniform s" sharded_look "\<lambda>s. c_tombstone_ttl (hd (s_shards s))"
  sharded_apply sharded_get_versioned
proof (unfold_locales, goal_cases)
  case (1 s now k v)
  then show ?case
    using sharded_step_wf [of s "(0, OpApply now k v)"]
    by (auto simp: sharded_as_step(3) [symmetric] sharded_apply_def step_tombstone_ttl
        get_shard_index_less intro!: uniform_on_shard)
next
  case (2 s now k v)
  then show ?case
    by (simp add: sharded_apply_def step_tombstone_ttl get_shard_index_less uniform_on_shard)
next
  case (3 s now k v)
  then show ?case
    using shard.app_look [OF sharded_wf_shard [of s k]]
    by (simp add: sharded_apply_def look_on_shard uniform_shard) (simp add: sharded_look_def)
next
  case (4 s k' k now v)
  then show ?case
    using shard.app_other [OF sharded_wf_shard [of s k], of k' k now v]
    by (auto simp: sharded_apply_def look_on_shard) (auto simp: sharded_look_def)
next
  case (5 s now k v)
  then show ?case
    using shard.app_reply [OF sharded_wf_shard [of s k]]
    by (simp add: sharded_apply_def) (simp add: sharded_look_def)
next
  case (6 s now k)
  then show ?case
    using sharded_step_wf [of s "(0, OpGetVersioned now k)"]
    by (auto simp: sharded_as_step(4) [symmetric] sharded_get_versioned_def step_tombstone_ttl
        get_shard_index_less intro!: uniform_on_shard)
next
  case (7 s now k)
  then show ?case
    by (simp add: sharded_get_versioned_def step_tombstone_ttl get_shard_index_less uniform_on_shard)
next
  case (8 s now k)
  then show ?case
    using shard.getv_look [OF sharded_wf_shard [of s k]]
    by (auto simp: fun_eq_iff sharded_get_versioned_def look_on_shard) (simp add: sharded_look_def)
next
  case (9 s now k)
  then show ?case
    using shard.getv_reply [OF sharded_wf_shard [of s k]]
    by (simp add: sharded_get_versioned_def) (simp add: sharded_look_def)
qed

section \<open>Properties\<close>

lemma run_on_shard:
  assumes "j < length (s_shards s)"
  shows "s_shards (snd (run sharded_step secs s)) ! j =
      snd (run cache_step (map snd (filter (\<lambda>sec. routed (length (s_shards s)) sec = j) secs)) (s_shards s ! j))
    \<and> map fst (filter (\<lambda>p. routed (length (s_shards s)) (snd p) = j) (zip (fst (run sharded_step secs s)) secs)) =
      fst (run cache_step (map snd (filter (\<lambda>sec. routed (length (s_shards s)) sec = j) secs)) (s_shards s ! j))"
  using assms
proof (induction secs arbitrary: s)
  case (Cons sec secs)
  obtain i op where sec: "sec = (i, op)" by (cases sec)
  let ?s = "snd (sharded_step sec s)"
  have "fst (sharded_step sec s) = fst (cache_step op (s_shards s ! routed (length (s_shards s)) sec))"
    by (simp add: sharded_step_def sec)
  with Cons.IH [of ?s] Cons.prems shard_after_step [OF Cons.prems, of i op] show ?case
    by (simp add: case_prod_beta sec)
qed simp

lemma run_sharded_parts:
  "length (s_shards (snd (run sharded_step secs s))) = length (s_shards s)"
  "sharded_wf s \<Longrightarrow> sharded_wf (snd (run sharded_step secs s))"
  by (induction secs arbitrary: s) (auto simp: case_prod_beta sharded_step_wf)

lemma run_capacity: "c_capacity (snd (run cache_step ops c)) = c_capacity c"
  by (induction ops arbitrary: c) (auto simp: case_prod_beta capacity_const)



lemma run_new_shards:
  assumes "s = snd (run sharded_step secs (new_sharded_cache cap n tt))"
  shows "length (s_shards s) = max 1 n" and "sharded_wf s"
    and "c \<in> set (s_shards s) \<Longrightarrow> c_capacity c = max 1 (cap div max 1 n)"
    and "c \<in> set (s_shards s) \<Longrightarrow> length (contents c) \<le> max 1 (cap div max 1 n)"
proof -
  let ?i = "new_sharded_cache cap n tt"
  show len: "length (s_shards s) = max 1 n"
    unfolding assms by (auto simp: run_sharded_parts new_sharded_cache_def Let_def max_def)
  show wf: "sharded_wf s"
    unfolding assms by (rule run_sharded_parts(2) [OF new_sharded_wf])
  show cap: "c_capacity c = max 1 (cap div max 1 n)" if c: "c \<in> set (s_shards s)" for c
  proof -
    obtain j where j: "j < length (s_shards s)" "c = s_shards s ! j"
      using c by (auto simp: in_set_conv_nth)
    then have "c_capacity c = c_capacity (s_shards ?i ! j)"
      using run_on_shard [of j ?i secs] by (simp add: assms run_sharded_parts run_capacity)
    also have "\<dots> = max 1 (cap div max 1 n)"
      using j by (auto simp: assms run_sharded_parts new_sharded_cache_def Let_def new_cache_def max_def)
    finally show ?thesis .
  qed
  show "length (contents c) \<le> max 1 (cap div max 1 n)" if c: "c \<in> set (s_shards s)" for c
  proof -
    have "cache_wf c" using wf c by (auto simp: sharded_wf_def in_set_conv_nth)
    then show ?thesis using cap [OF c] by (auto simp: cache_wf_def wf_parts_def)
  qed
qed

text \<open>The sharded cache never stores more entries than its capacity, which is the number of
  shards times the per-shard share, at least one entry each.\<close>

theorem sharded_capacity_bound:
  "let s = snd (run sharded_step secs (new_sharded_cache cap n tt)) in
     sum_list (map (\<lambda>c. length (contents c)) (s_shards s)) \<le> sharded_capacity s
     \<and> sharded_capacity s = max 1 n * max 1 (cap div max 1 n)"
proof -
  let ?s = "snd (run sharded_step secs (new_sharded_cache cap n tt))"
  define share where "share = max 1 (cap div max 1 n)"
  note parts = run_new_shards [OF refl, where secs = secs and cap = cap and n = n and tt = tt, folded share_def]
  have "sum_list (map (\<lambda>c. length (contents c)) (s_shards ?s)) \<le> sharded_capacity ?s"
    unfolding sharded_capacity_def using parts(3,4) by (intro sum_list_mono) auto
  moreover have "map c_capacity (s_shards ?s) = replicate (max 1 n) share"
    using parts(1,3) by (metis map_replicate_const map_cong)
  ultimately show ?thesis by (simp add: share_def Let_def sharded_capacity_def sum_list_replicate)
qed

lemma snapshot_contents:
  "cache_snapshot now c [] =
     map (\<lambda>(k, e). (k, versioned_of now e)) (filter (\<lambda>(k, e). \<not> is_expired e now) (contents c))"
  by (simp add: cache_snapshot_def contents_def filter_map comp_def case_prod_beta)

lemma distinct_concat_keys:
  assumes "\<And>i. i < n \<Longrightarrow> distinct (map f (xs i))"
    and "\<And>i x. i < n \<Longrightarrow> x \<in> set (xs i) \<Longrightarrow> g (f x) = i"
  shows "distinct (map f (concat (map xs [0..<n])))"
  using assms by (induction n) (auto, metis less_Suc_eq nat_neq_iff)

lemma filter_concat_home:
  "(\<And>i x. i < n \<Longrightarrow> x \<in> set (xs i) \<Longrightarrow> g x = i) \<Longrightarrow>
   filter (\<lambda>x. g x = j) (concat (map xs [0..<n])) = (if j < n then xs j else [])"
proof (induction n)
  case (Suc n)
  have "filter (\<lambda>x. g x = j) (xs n) = (if j = n then xs n else [])"
    using Suc.prems [of n] by (auto simp: filter_empty_conv filter_id_conv)
  with Suc show ?case by auto
qed simp

lemma shard_snapshots:
  assumes wf: "sharded_wf s"
  shows "distinct (map fst (concat (for_each_shard_snapshot now s)))"
    and "(k, v) \<in> set (concat (for_each_shard_snapshot now s)) \<longleftrightarrow>
        visible (now (get_shard_index k s)) (sharded_look s k) = Some v"
    and "filter (\<lambda>p. get_shard_index (fst p) s = j) (concat (for_each_shard_snapshot now s)) =
        (if j < length (s_shards s) then cache_snapshot (now j) (s_shards s ! j) [] else [])"
proof -
  let ?n = "length (s_shards s)"
  let ?snap = "\<lambda>i. cache_snapshot (now i) (s_shards s ! i) []"
  have wfi: "cache_wf (s_shards s ! i)" if "i < ?n" for i using wf that by (simp add: sharded_wf_def)
  have home: "get_shard_index k s = i" if "i < ?n" "(k, e) \<in> set (contents (s_shards s ! i))" for i k e
    using wf that by (force simp: sharded_wf_def)
  have keys: "distinct (map fst (?snap i))" if "i < ?n" for i
    using contents_distinct [OF wfi [OF that]]
    by (simp add: snapshot_contents comp_def case_prod_beta distinct_map_filter)
  show "distinct (map fst (concat (for_each_shard_snapshot now s)))"
    unfolding for_each_shard_snapshot_def
    using keys by (rule distinct_concat_keys [where g = "\<lambda>k. get_shard_index k s"])
      (auto simp: snapshot_contents home)
  have "(k, v) \<in> set (?snap i) \<longleftrightarrow>
      get_shard_index k s = i \<and> visible (now i) (sharded_look s k) = Some v" if "i < ?n" for i
  proof -
    have "(k, v) \<in> set (?snap i) \<longleftrightarrow>
        (\<exists>e. map_of (contents (s_shards s ! i)) k = Some e \<and> \<not> is_expired e (now i) \<and> v = versioned_of (now i) e)"
      using contents_distinct [OF wfi [OF that]] by (auto simp: snapshot_contents map_of_eq_Some_iff)
    also have "\<dots> \<longleftrightarrow> get_shard_index k s = i \<and> visible (now i) (sharded_look s k) = Some v"
      using home [OF that map_of_SomeD, of k]
      by (cases "get_shard_index k s = i")
         (auto simp: visible_def sharded_look_def split: option.splits if_splits)
    finally show ?thesis .
  qed
  then show "(k, v) \<in> set (concat (for_each_shard_snapshot now s)) \<longleftrightarrow>
      visible (now (get_shard_index k s)) (sharded_look s k) = Some v"
    using get_shard_index_less [OF wf, of k] by (auto simp: for_each_shard_snapshot_def)
  show "filter (\<lambda>p. get_shard_index (fst p) s = j) (concat (for_each_shard_snapshot now s)) =
      (if j < length (s_shards s) then cache_snapshot (now j) (s_shards s ! j) [] else [])"
    unfolding for_each_shard_snapshot_def
    by (rule filter_concat_home) (auto simp: snapshot_contents home)
qed

text \<open>A pass over the shard snapshots delivers every stored key exactly once: the entries that
  have not expired at their shard's clock reading, tombstones included, with their version and
  remaining time to live.\<close>

theorem shard_snapshots_exact:
  assumes wf: "sharded_wf s"
  shows "distinct (map fst (concat (for_each_shard_snapshot now s)))
    \<and> ((k, v) \<in> set (concat (for_each_shard_snapshot now s)) \<longleftrightarrow>
        visible (now (get_shard_index k s)) (sharded_look s k) = Some v)"
  using shard_snapshots [OF wf] by blast

lemma sharded_set_look:
  assumes "sharded_wf s"
  shows "sharded_look (sharded_set now k v ttl s) k =
    Some \<lparr>ce_value = v, ce_expires_at = map_option (\<lambda>t. now + ticks_of_millis t) ttl,
      ce_version = 0, ce_tombstone = False\<rparr>"
  using assms by (simp add: sharded_set_def look_on_shard contents_cache_set sharded_wf_shard)

lemma sharded_set_wf: "sharded_wf s \<Longrightarrow> sharded_wf (sharded_set now k v ttl s)"
  unfolding sharded_as_step(1) [of now k v ttl s 0] by (rule sharded_step_wf)

theorem shard_snapshots_exact_witness:
  "let s = sharded_set 0 ''k'' ''v'' None (new_sharded_cache 10 4 60000)
   in (''k'', \<lparr>vv_value = ''v'', vv_version = 0, vv_tombstone = False, vv_ttl = None\<rparr>)
      \<in> set (concat (for_each_shard_snapshot (\<lambda>_. 5) s))"
  unfolding Let_def
  using shard_snapshots_exact [OF sharded_set_wf [OF new_sharded_wf], where now = "\<lambda>_. 5"]
  by (simp add: sharded_set_look new_sharded_wf visible_def is_expired_def versioned_of_def del: set_concat)

lemma sharded_get_reply: "sharded_wf s \<Longrightarrow> fst (sharded_get now k s) = live_value now (sharded_look s k)"
  by (simp add: sharded_get_def contents_cache_get sharded_wf_shard sharded_look_def)

lemma map_of_lru_front: "distinct (map fst l) \<Longrightarrow> map_of (lru_front k l) = map_of l"
  by (auto simp: lru_front_def map_of_filter_neq fun_eq_iff split: option.split)

lemma cache_get_contents:
  assumes "cache_wf c"
  shows "map_of (contents (snd (cache_get now k c))) = map_of (contents c)"
    and "cache_wf (snd (cache_get now k c))"
    and "fst ` set (contents (snd (cache_get now k c))) = fst ` set (contents c)"
proof -
  have eq: "contents (snd (cache_get now k c)) = contents c \<or>
      contents (snd (cache_get now k c)) = lru_front k (contents c)"
    using assms
    by (simp add: cache_get_def case_prod_beta contents_get_shared contents_get_promote get_shared_wf)
  then show m: "map_of (contents (snd (cache_get now k c))) = map_of (contents c)"
    using contents_distinct [OF assms] by (auto simp: map_of_lru_front)
  show "cache_wf (snd (cache_get now k c))"
    using assms by (simp add: cache_get_def case_prod_beta get_shared_wf get_promote_wf)
  show "fst ` set (contents (snd (cache_get now k c))) = fst ` set (contents c)"
    using m by (metis dom_map_of_conv_image_fst)
qed

lemma on_shard_wf:
  assumes wf: "sharded_wf s" and c: "cache_wf (snd (f (s_shards s ! i)))"
    and keys: "fst ` set (contents (snd (f (s_shards s ! i)))) \<subseteq> fst ` set (contents (s_shards s ! i))"
  shows "sharded_wf (snd (on_shard i f s))"
proof -
  have shards: "s_shards (snd (on_shard i f s)) = (s_shards s)[i := snd (f (s_shards s ! i))]"
    by (simp add: on_shard_def case_prod_beta)
  have "cache_wf (s_shards (snd (on_shard i f s)) ! j) \<and>
      (\<forall>k \<in> fst ` set (contents (s_shards (snd (on_shard i f s)) ! j)). get_shard_index k s = j)"
    if "j < length (s_shards s)" for j
  proof (cases "j = i")
    case True
    have "\<forall>k \<in> fst ` set (contents (s_shards s ! i)). get_shard_index k s = i"
      using wf that True by (simp add: sharded_wf_def)
    with keys have "\<forall>k \<in> fst ` set (contents (snd (f (s_shards s ! i)))). get_shard_index k s = i"
      by blast
    with c that True show ?thesis by (simp add: shards)
  next
    case False
    with wf that show ?thesis by (simp add: shards sharded_wf_def)
  qed
  with wf show ?thesis by (auto simp: sharded_wf_def shards simp del: set_map)
qed

lemma sharded_get_state:
  assumes wf: "sharded_wf s"
  shows "sharded_wf (snd (sharded_get now k s))" and "sharded_look (snd (sharded_get now k s)) = sharded_look s"
proof -
  note c = cache_get_contents [OF sharded_wf_shard [OF wf, of k], of now k]
  show "sharded_look (snd (sharded_get now k s)) = sharded_look s"
    by (simp add: fun_eq_iff sharded_get_def look_on_shard [OF wf] c(1)) (simp add: sharded_look_def)
  show "sharded_wf (snd (sharded_get now k s))"
    unfolding sharded_get_def using wf c(2,3) by (intro on_shard_wf) auto
qed

text \<open>\<open>get_or_load\<close> returns the cached value if one is live, leaving the entries as they
  are, and otherwise what the loader returned, which can then be read back for as long as its
  time to live says; a loader that throws leaves the entries as they were.\<close>

theorem get_or_load_correct:
  assumes wf: "sharded_wf s" and order: "t1 \<le> t2"
  shows "let s' = snd (get_or_load t1 t2 t3 k loader ttl s) in
    case live_value t1 (sharded_look s k) of
      Some v \<Rightarrow> fst (get_or_load t1 t2 t3 k loader ttl s) = Some v \<and> sharded_look s' = sharded_look s
    | None \<Rightarrow> fst (get_or_load t1 t2 t3 k loader ttl s) = loader \<and>
        (case loader of
           None \<Rightarrow> sharded_look s' = sharded_look s
         | Some v \<Rightarrow> \<forall>t. (case ttl of None \<Rightarrow> True | Some d \<Rightarrow> t < t3 + ticks_of_millis d) \<longrightarrow>
             fst (sharded_get t k s') = Some v)"
proof -
  let ?s1 = "snd (sharded_get t1 k s)" and ?s2 = "snd (sharded_get t2 k (snd (sharded_get t1 k s)))"
  note s1 = sharded_get_state [OF wf, of t1 k]
  note s2 = sharded_get_state [OF s1(1), of t2 k, unfolded s1(2)]
  have later: "live_value t2 (sharded_look s k) = None" if "live_value t1 (sharded_look s k) = None"
    using that order
    by (auto simp: live_value_def is_live_def is_expired_def split: option.splits if_splits)
  have read1: "fst (sharded_get t1 k s) = live_value t1 (sharded_look s k)"
    and read2: "fst (sharded_get t2 k ?s1) = live_value t2 (sharded_look s k)"
    using sharded_get_reply [OF wf] sharded_get_reply [OF s1(1)] by (simp_all add: s1(2))
  have readback: "fst (sharded_get t k (sharded_set t3 k v ttl ?s2)) = Some v"
    if "case ttl of None \<Rightarrow> True | Some d \<Rightarrow> t < t3 + ticks_of_millis d" for t v
    using that sharded_get_reply [OF sharded_set_wf [OF s2(1)]]
    by (auto simp: sharded_set_look [OF s2(1)] live_value_def is_live_def is_expired_def split: option.splits)
  have gol: "get_or_load t1 t2 t3 k loader ttl s =
    (case live_value t1 (sharded_look s k) of
       Some v \<Rightarrow> (Some v, ?s1)
     | None \<Rightarrow> (loader, case loader of None \<Rightarrow> ?s2 | Some v \<Rightarrow> sharded_set t3 k v ttl ?s2))"
    using read1 read2 later unfolding get_or_load_def
    by (cases "sharded_get t1 k s"; cases "sharded_get t2 k ?s1") (auto split: option.splits)
  show ?thesis
    unfolding gol Let_def by (auto simp: s1(2) s2(2) readback split: option.split)
qed

theorem get_or_load_correct_witness:
  "let s' = snd (get_or_load 1 2 3 ''k'' (Some ''v'') (Some 1) (new_sharded_cache 8 2 60000))
   in fst (get_or_load 1 2 3 ''k'' (Some ''v'') (Some 1) (new_sharded_cache 8 2 60000)) = Some ''v''
      \<and> fst (sharded_get 1000002 ''k'' s') = Some ''v''"
proof -
  have "sharded_look (new_sharded_cache 8 2 60000) ''k'' = None"
    by (simp add: sharded_look_def new_sharded_cache_def Let_def get_shard_index_def)
  with get_or_load_correct [OF new_sharded_wf [of 8 2 60000], where ?t1.0 = 1 and ?t2.0 = 2 and ?t3.0 = 3
      and k = "''k''" and loader = "Some ''v''" and ttl = "Some 1"]
  show ?thesis by (simp add: live_value_def ticks_of_millis_def Let_def)
qed

end
