(* ===== verification/Snapshot.thy ===== *)
theory Snapshot
  imports Sharded_Cache
begin

text \<open>
  Snapshots (src/snapshot.cpp): the file format with its checksum, the writer and reader, and the
  save and load operations over a file system whose calls may fail. Integers are stored in the
  byte order of the host, little-endian here. The wall clock in milliseconds is an input.
\<close>

section \<open>Bytes\<close>

text \<open>\<open>pod\<close> copies the bytes of an unsigned value of a given width.\<close>

fun le_bytes :: "nat \<Rightarrow> nat \<Rightarrow> string" where
  "le_bytes 0 x = []"
| "le_bytes (Suc n) x = char_of x # le_bytes n (x div 256)"

fun le_value :: "string \<Rightarrow> nat" where
  "le_value [] = 0"
| "le_value (c # s) = of_char c + 256 * le_value s"

definition i64_bytes :: "int \<Rightarrow> string" where
  "i64_bytes i = le_bytes 8 (nat (i mod 2 ^ 64))"

definition i64_value :: "string \<Rightarrow> int" where
  "i64_value s = (let v = int (le_value s) in if 2 ^ 63 \<le> v then v - 2 ^ 64 else v)"

definition write_str :: "string \<Rightarrow> string" where
  "write_str s = le_bytes 4 (length s mod 2 ^ 32) @ s"

definition kMagic :: string where
  "kMagic = ''SCSNAP01''"

definition checksum :: "string \<Rightarrow> u64" where
  "checksum data = foldl (\<lambda>h c. (h XOR of_char c) * 1099511628211) 1469598103934665603 data"

text \<open>A reader takes a number of bytes off the front, or fails when there are too few.\<close>

definition read_bytes :: "nat \<Rightarrow> string \<Rightarrow> (string \<times> string) option" where
  "read_bytes n r = (if length r < n then None else Some (take n r, drop n r))"

definition read_pod :: "nat \<Rightarrow> string \<Rightarrow> (nat \<times> string) option" where
  "read_pod n r = map_option (\<lambda>(b, r). (le_value b, r)) (read_bytes n r)"

definition read_str :: "string \<Rightarrow> (string \<times> string) option" where
  "read_str r =
     (case read_pod 4 r of
        None \<Rightarrow> None
      | Some (n, r) \<Rightarrow> if length r < n then None else Some (take n r, drop n r))"

section \<open>Saving\<close>

type_synonym batch = "(string \<times> VersionedValue) list"

definition entry_bytes :: "int \<Rightarrow> string \<times> VersionedValue \<Rightarrow> string" where
  "entry_bytes now p =
     (let v = snd p in
      write_str (fst p) @ write_str (vv_value v) @ le_bytes 8 (unat (vv_version v)) @
      le_bytes 1 (if vv_tombstone v then 1 else 0) @
      i64_bytes (case vv_ttl v of Some t \<Rightarrow> now + t | None \<Rightarrow> -1))"

text \<open>The header is written with a count of zero, which is patched once the entries are known.\<close>

definition snapshot_bytes :: "int \<Rightarrow> batch list \<Rightarrow> string" where
  "snapshot_bytes now batches =
     (let w = kMagic @ le_bytes 8 0;
          es = concat batches;
          w = w @ concat (map (entry_bytes now) es);
          n = length es;
          w = take (length kMagic) w @ le_bytes 8 (n mod 2 ^ 64) @ drop (length kMagic + 8) w
      in w @ le_bytes 8 (unat (checksum w)))"

record SnapshotStats =
  ss_entries :: nat
  ss_bytes :: nat

text \<open>Files by path. The three system calls that save makes may each fail; a failed write leaves
  some bytes in the temporary file.\<close>

record disk_faults =
  df_open_fails :: bool
  df_write_fails :: "string option"
  df_rename_fails :: bool

type_synonym files = "string \<Rightarrow> string option"

definition save_snapshot ::
    "disk_faults \<Rightarrow> (nat \<Rightarrow> ticks) \<Rightarrow> int \<Rightarrow> ShardedCache \<Rightarrow> string \<Rightarrow> files \<Rightarrow> (string + SnapshotStats) \<times> files" where
  "save_snapshot faults clock now cache path fs =
     (let batches = for_each_shard_snapshot clock cache;
          buf = snapshot_bytes now batches;
          tmp = path @ ''.tmp''
      in if df_open_fails faults then (Inl (''cannot open '' @ tmp), fs)
         else
           case df_write_fails faults of
             Some partial \<Rightarrow> (Inl (''write failed for '' @ tmp), fs(tmp \<mapsto> partial))
           | None \<Rightarrow>
               if df_rename_fails faults
               then (Inl (''rename to '' @ path @ '' failed''), fs(tmp \<mapsto> buf))
               else (Inr \<lparr>ss_entries = length (concat batches), ss_bytes = length buf\<rparr>,
                     fs(tmp := None, path \<mapsto> buf)))"

section \<open>Loading\<close>

record snapshot_entry =
  se_key :: string
  se_value :: VersionedValue
  se_expiry :: int

definition read_entry :: "string \<Rightarrow> (snapshot_entry \<times> string) option" where
  "read_entry r =
     (case read_str r of None \<Rightarrow> None | Some (key, r) \<Rightarrow>
      case read_str r of None \<Rightarrow> None | Some (value, r) \<Rightarrow>
      case read_pod 8 r of None \<Rightarrow> None | Some (version, r) \<Rightarrow>
      case read_pod 1 r of None \<Rightarrow> None | Some (tombstone, r) \<Rightarrow>
      case read_bytes 8 r of None \<Rightarrow> None | Some (expiry, r) \<Rightarrow>
        Some (\<lparr>se_key = key,
               se_value = \<lparr>vv_value = value, vv_version = of_nat version,
                 vv_tombstone = (tombstone \<noteq> 0), vv_ttl = None\<rparr>,
               se_expiry = i64_value expiry\<rparr>, r))"

text \<open>The loop over the entries; \<open>i\<close> is the number of the next one, for the error text.\<close>

fun read_entries :: "nat \<Rightarrow> nat \<Rightarrow> string \<Rightarrow> string + snapshot_entry list \<times> string" where
  "read_entries 0 i r = Inr ([], r)"
| "read_entries (Suc left) i r =
     (case read_entry r of
        None \<Rightarrow> Inl (''truncated entry '' @ nat_to_string i)
      | Some (e, r) \<Rightarrow>
          (case read_entries left (i + 1) r of
             Inl err \<Rightarrow> Inl err
           | Inr (es, r) \<Rightarrow> Inr (e # es, r)))"

definition decode_snapshot :: "string \<Rightarrow> string + snapshot_entry list" where
  "decode_snapshot buf =
     (if length buf < length kMagic + 2 * 8 \<or> take (length kMagic) buf \<noteq> kMagic
      then Inl ''not a ShardCache snapshot''
      else
        (let stored_sum = of_nat (le_value (drop (length buf - 8) buf)) :: u64
         in if checksum (take (length buf - 8) buf) \<noteq> stored_sum
            then Inl ''checksum mismatch (corrupt or truncated snapshot)''
            else
              case read_pod 8 (take (length buf - length kMagic - 8) (drop (length kMagic) buf)) of
                None \<Rightarrow> Inl ''truncated header''
              | Some (n, r) \<Rightarrow>
                  (case read_entries n 0 r of
                     Inl err \<Rightarrow> Inl err
                   | Inr (entries, r) \<Rightarrow>
                       if r \<noteq> [] then Inl ''trailing bytes after entries'' else Inr entries)))"

text \<open>Applying the entries: those that expired while the node was down are skipped, and tombstones
  start a new retention period. \<open>clock i\<close> is the clock reading of the \<open>i\<close>-th call of
  \<open>apply\<close>.\<close>

definition restored_value :: "int \<Rightarrow> snapshot_entry \<Rightarrow> VersionedValue" where
  "restored_value now e =
     (let v = se_value e;
          v = (if 0 \<le> se_expiry e then v\<lparr>vv_ttl := Some (se_expiry e - now)\<rparr> else v)
      in if vv_tombstone v then v\<lparr>vv_ttl := None\<rparr> else v)"

definition kept :: "int \<Rightarrow> snapshot_entry \<Rightarrow> bool" where
  "kept now e \<longleftrightarrow> \<not> (0 \<le> se_expiry e \<and> se_expiry e \<le> now)"

fun apply_entries ::
    "(nat \<Rightarrow> ticks) \<Rightarrow> int \<Rightarrow> snapshot_entry list \<Rightarrow> nat \<Rightarrow> ShardedCache \<Rightarrow> nat \<times> ShardedCache" where
  "apply_entries clock now [] applied c = (applied, c)"
| "apply_entries clock now (e # es) applied c =
     (if \<not> kept now e then apply_entries clock now es applied c
      else apply_entries clock now es (applied + 1)
             (snd (sharded_apply (clock applied) (se_key e) (restored_value now e) c)))"

definition load_snapshot ::
    "(nat \<Rightarrow> ticks) \<Rightarrow> int \<Rightarrow> ShardedCache \<Rightarrow> string \<Rightarrow> files \<Rightarrow> (string + SnapshotStats) \<times> ShardedCache" where
  "load_snapshot clock now cache path fs =
     (case fs path of
        None \<Rightarrow> (Inl (''no snapshot at '' @ path), cache)
      | Some buf \<Rightarrow>
          (case decode_snapshot buf of
             Inl err \<Rightarrow> (Inl err, cache)
           | Inr entries \<Rightarrow>
               (case apply_entries clock now entries 0 cache of
                  (applied, cache') \<Rightarrow>
                    (Inr \<lparr>ss_entries = applied, ss_bytes = length buf\<rparr>, cache'))))"

section \<open>Round trips of the fields\<close>

lemma length_le_bytes [simp]: "length (le_bytes n x) = n"
  by (induction n arbitrary: x) auto

lemma le_value_le_bytes [simp]: "le_value (le_bytes n x) = x mod 256 ^ n"
  by (induction n arbitrary: x) (simp_all add: mod_mult2_eq)

lemma le_bytes_le_value: "le_bytes (length s) (le_value s) = s"
proof (induction s)
  case (Cons c s)
  have "(of_char c + 256 * le_value s) div 256 = le_value s"
    using nat_of_char_less_256 [of c] by simp
  moreover have "char_of (of_char c + 256 * le_value s) = c"
    by (subst of_char_eq_iff [where 'a = nat, symmetric]) simp
  ultimately show ?case using Cons by simp
qed simp

lemma le_value_less: "le_value s < 256 ^ length s"
proof (induction s)
  case (Cons c s)
  then have "256 * Suc (le_value s) \<le> 256 * 256 ^ length s" by (intro mult_le_mono2) simp
  then show ?case
    using nat_of_char_less_256 [of c] by (simp only: le_value.simps length_Cons power_Suc mult_Suc_right)
qed simp

lemma le_value_inj: "length s = length t \<Longrightarrow> le_value s = le_value t \<Longrightarrow> s = t"
  by (metis le_bytes_le_value)

lemma read_bytes_append [simp]: "length b = n \<Longrightarrow> read_bytes n (b @ r) = Some (b, r)"
  by (simp add: read_bytes_def)

lemma read_pod_append [simp]: "read_pod n (le_bytes n x @ r) = Some (x mod 256 ^ n, r)"
  by (simp add: read_pod_def)

lemma read_write_str: "length s < 2 ^ 32 \<Longrightarrow> read_str (write_str s @ r) = Some (s, r)"
  by (simp add: read_str_def write_str_def)

lemma i64_round_trip:
  assumes "- (2 ^ 63) \<le> i" "i < 2 ^ 63" shows "i64_value (i64_bytes i) = i"
proof -
  have "nat (i mod 2 ^ 64) mod 256 ^ 8 = nat (i mod 2 ^ 64)"
    by (intro mod_less) (simp add: nat_less_iff)
  then have "int (le_value (i64_bytes i)) = i mod 2 ^ 64" by (simp add: i64_bytes_def)
  moreover have "i mod 2 ^ 64 = (if i < 0 then i + 2 ^ 64 else i)"
    using assms mod_add_self2 [of i "2 ^ 64"] mod_pos_pos_trivial [of "i + 2 ^ 64" "2 ^ 64"]
    by (auto simp: mod_pos_pos_trivial)
  ultimately show ?thesis using assms by (auto simp: i64_value_def Let_def)
qed

section \<open>The checksum\<close>

lemma checksum_step_inj:
  fixes g h :: u64
  shows "(g XOR of_char c) * 1099511628211 = (h XOR of_char c) * 1099511628211 \<longleftrightarrow> g = h"
    and "(h XOR of_char c) * 1099511628211 = (h XOR of_char d) * 1099511628211 \<longleftrightarrow> c = d"
  using mult_cancel_by_inverse [of "1099511628211 :: u64" 14886173955864302971 "g XOR of_char c" "h XOR of_char c"]
    mult_cancel_by_inverse [of "1099511628211 :: u64" 14886173955864302971 "h XOR of_char c" "h XOR of_char d"]
  by (auto simp: xor_cancel_right xor_cancel_left of_char_word_inj)

lemma checksum_fold_inj:
  fixes g h :: u64
  shows "foldl (\<lambda>h c. (h XOR of_char c) * 1099511628211) g s =
    foldl (\<lambda>h c. (h XOR of_char c) * 1099511628211) h s \<longleftrightarrow> g = h"
  by (induction s arbitrary: g h) (auto simp: checksum_step_inj)

lemma checksum_one_byte:
  assumes "i < length s" "c \<noteq> s ! i" shows "checksum (s[i := c]) \<noteq> checksum s"
proof -
  have "s = take i s @ s ! i # drop (Suc i) s" using assms(1) by (simp add: Cons_nth_drop_Suc)
  then have "checksum s = checksum (take i s @ s ! i # drop (Suc i) s)" by simp
  moreover have "checksum (s[i := c]) = checksum (take i s @ c # drop (Suc i) s)"
    using assms(1) by (simp add: upd_conv_take_nth_drop)
  ultimately show ?thesis
    using assms(2) by (simp add: checksum_def checksum_fold_inj checksum_step_inj)
qed

section \<open>The format as a whole\<close>

text \<open>Keys and values shorter than four gigabytes, deadlines within 64 bits.\<close>

definition storable :: "int \<Rightarrow> string \<times> VersionedValue \<Rightarrow> bool" where
  "storable now p \<longleftrightarrow>
     length (fst p) < 2 ^ 32 \<and> length (vv_value (snd p)) < 2 ^ 32 \<and>
     (case vv_ttl (snd p) of None \<Rightarrow> True | Some t \<Rightarrow> - (2 ^ 63) \<le> now + t \<and> now + t < 2 ^ 63)"

definition saved_entry :: "int \<Rightarrow> string \<times> VersionedValue \<Rightarrow> snapshot_entry" where
  "saved_entry now p =
     \<lparr>se_key = fst p, se_value = (snd p)\<lparr>vv_ttl := None\<rparr>,
      se_expiry = (case vv_ttl (snd p) of Some t \<Rightarrow> now + t | None \<Rightarrow> -1)\<rparr>"

lemma read_entry_bytes:
  assumes "storable now p" shows "read_entry (entry_bytes now p @ r) = Some (saved_entry now p, r)"
proof -
  let ?x = "case vv_ttl (snd p) of Some t \<Rightarrow> now + t | None \<Rightarrow> -1"
  have "i64_value (i64_bytes ?x) = ?x"
    using assms by (intro i64_round_trip) (auto simp: storable_def split: option.splits)
  moreover have "read_bytes 8 (i64_bytes ?x @ r) = Some (i64_bytes ?x, r)"
    by (rule read_bytes_append) (simp add: i64_bytes_def)
  moreover have "unat (vv_version (snd p)) mod 256 ^ 8 = unat (vv_version (snd p))"
    using unat_u64_less [of "vv_version (snd p)"] by (intro mod_less) simp
  ultimately show ?thesis
    using assms read_pod_append [of 1 "1" "i64_bytes ?x @ r"] read_pod_append [of 1 "0" "i64_bytes ?x @ r"]
    by (simp add: read_entry_def entry_bytes_def saved_entry_def storable_def read_write_str Let_def
        del: le_bytes.simps)
qed

lemma read_entries_bytes:
  "(\<And>p. p \<in> set es \<Longrightarrow> storable now p) \<Longrightarrow>
   read_entries (length es) i (concat (map (entry_bytes now) es) @ r) = Inr (map (saved_entry now) es, r)"
  by (induction es arbitrary: i) (simp_all add: read_entry_bytes)

lemma length_kMagic [simp]: "length kMagic = 8"
  by (simp add: kMagic_def)

lemma snapshot_bytes_alt:
  "snapshot_bytes now batches =
     (let w = kMagic @ le_bytes 8 (length (concat batches) mod 2 ^ 64) @ concat (map (entry_bytes now) (concat batches))
      in w @ le_bytes 8 (unat (checksum w)))"
  by (simp add: snapshot_bytes_def Let_def)

lemma u64_bytes: "(of_nat (le_value (le_bytes 8 (unat w))) :: u64) = w"
  using unat_u64_less [of w] by simp

lemma decode_snapshot_bytes:
  assumes "\<And>p. p \<in> set (concat batches) \<Longrightarrow> storable now p" "length (concat batches) < 2 ^ 64"
  shows "decode_snapshot (snapshot_bytes now batches) = Inr (map (saved_entry now) (concat batches))"
proof -
  define es where "es = concat batches"
  define body where "body = concat (map (entry_bytes now) es)"
  define w where "w = kMagic @ le_bytes 8 (length es mod 2 ^ 64) @ body"
  have buf: "snapshot_bytes now batches = w @ le_bytes 8 (unat (checksum w))"
    by (simp add: snapshot_bytes_alt w_def es_def body_def Let_def)
  have w: "take 8 w = kMagic" "length w = 16 + length body" "drop 8 w = le_bytes 8 (length es) @ body"
    using assms(2) by (simp_all add: w_def es_def)
  have n: "read_pod 8 (le_bytes 8 (length es) @ body) = Some (length es, body)"
    using assms(2) by (simp add: es_def)
  have es: "read_entries (length es) 0 body = Inr (map (saved_entry now) es, [])"
    using read_entries_bytes [of es now 0 "[]"] assms(1) by (simp add: body_def es_def)
  show ?thesis
    unfolding buf decode_snapshot_def Let_def
    using w n es by (simp add: u64_bytes es_def [symmetric] del: le_value_le_bytes)
qed

section \<open>Properties\<close>

text \<open>What a snapshot file stores is read back entry by entry: keys, values, versions, tombstone
  flags and absolute deadlines, for keys and values below four gigabytes and deadlines within 64
  bits.\<close>

theorem snapshot_round_trip:
  assumes "\<forall>p \<in> set (concat batches). storable now p" and "length (concat batches) < 2 ^ 64"
  shows "decode_snapshot (snapshot_bytes now batches) = Inr (map (saved_entry now) (concat batches))"
  using assms by (intro decode_snapshot_bytes) auto

theorem snapshot_round_trip_witness:
  "let p = (''k'', \<lparr>vv_value = ''v'', vv_version = 9, vv_tombstone = False, vv_ttl = Some 5\<rparr>)
   in decode_snapshot (snapshot_bytes 100 [[p], []]) = Inr [saved_entry 100 p]"
  unfolding Let_def
  using snapshot_round_trip [of "[[(''k'', \<lparr>vv_value = ''v'', vv_version = 9, vv_tombstone = False, vv_ttl = Some 5\<rparr>)], []]" 100]
  by (simp add: storable_def)

lemma corrupt_decode:
  assumes ok: "decode_snapshot buf = Inr es" and i: "i < length buf" and c: "c \<noteq> buf ! i"
  shows "\<exists>err. decode_snapshot (buf[i := c]) = Inl err"
proof -
  define n where "n = length buf - 8"
  define sum where "sum b = (of_nat (le_value (drop n b)) :: u64)" for b
  have len: "16 \<le> length buf" and good: "checksum (take n buf) = sum buf"
    using ok by (auto simp: decode_snapshot_def Let_def n_def sum_def split: if_splits)
  have "checksum (take n (buf[i := c])) \<noteq> sum (buf[i := c])"
  proof (cases "i < n")
    case True
    then have "drop n (buf[i := c]) = drop n buf" by simp
    moreover have "checksum ((take n buf)[i := c]) \<noteq> checksum (take n buf)"
      using True c i by (intro checksum_one_byte) (auto simp: n_def)
    ultimately show ?thesis using good True by (simp add: sum_def take_update_swap)
  next
    case False
    then have t: "take n (buf[i := c]) = take n buf" by simp
    have "drop n (buf[i := c]) ! (i - n) = c" "drop n buf ! (i - n) = buf ! i"
      using False i by simp_all
    then have "drop n (buf[i := c]) \<noteq> drop n buf" using c by metis
    then have "le_value (drop n (buf[i := c])) \<noteq> le_value (drop n buf)"
      using le_value_inj by force
    moreover have "le_value (drop n b) < 2 ^ 64" if "length b = length buf" for b
      using le_value_less [of "drop n b"] that len by (simp add: n_def)
    ultimately have "sum (buf[i := c]) \<noteq> sum buf"
      unfolding sum_def by (subst word_of_nat_eq_iff) (simp add: take_bit_nat_def)
    with good t show ?thesis by simp
  qed
  then show ?thesis by (auto simp: decode_snapshot_def Let_def n_def sum_def)
qed

text \<open>C38: Corruption of a single byte anywhere in a valid snapshot file is always detected: loading
  it reports an error and leaves the cache exactly as it was.\<close>

theorem one_corrupt_byte_detected:
  assumes "decode_snapshot buf = Inr es" and "i < length buf" and "c \<noteq> buf ! i"
    and "fs path = Some (buf[i := c])"
  shows "\<exists>err. load_snapshot clock now cache path fs = (Inl err, cache)"
proof -
  obtain err where "decode_snapshot (buf[i := c]) = Inl err" using corrupt_decode [OF assms(1-3)] by blast
  then show ?thesis using assms(4) by (simp add: load_snapshot_def)
qed

theorem one_corrupt_byte_detected_witness:
  "\<exists>err. load_snapshot (\<lambda>_. 0) 0 (new_sharded_cache 4 2 60000) ''f''
     ((\<lambda>_. None)(''f'' \<mapsto> (snapshot_bytes 0 [])[0 := CHR ''X''])) = (Inl err, new_sharded_cache 4 2 60000)"
proof -
  have ok: "decode_snapshot (snapshot_bytes 0 []) = Inr []" using decode_snapshot_bytes [of "[]" 0] by simp
  have i: "0 < length (snapshot_bytes 0 [])" by (simp add: snapshot_bytes_alt Let_def)
  have c: "CHR ''X'' \<noteq> snapshot_bytes 0 [] ! 0" by (simp add: snapshot_bytes_alt Let_def kMagic_def)
  show ?thesis by (rule one_corrupt_byte_detected [OF ok i c]) simp
qed


section \<open>Restoring\<close>

text \<open>There is room for the entries still to come in every shard.\<close>

definition arrivals :: "int \<Rightarrow> snapshot_entry list \<Rightarrow> nat \<Rightarrow> ShardedCache \<Rightarrow> nat" where
  "arrivals now es j s = length (filter (\<lambda>e. kept now e \<and> get_shard_index (se_key e) s = j) es)"

definition room_for :: "int \<Rightarrow> snapshot_entry list \<Rightarrow> ShardedCache \<Rightarrow> bool" where
  "room_for now es s \<longleftrightarrow>
     (\<forall>j < length (s_shards s).
        length (contents (s_shards s ! j)) + arrivals now es j s \<le> c_capacity (s_shards s ! j))"

lemma sharded_apply_fresh:
  assumes wf: "sharded_wf s" and absent: "sharded_look s k = None"
    and room: "length (contents (s_shards s ! get_shard_index k s)) < c_capacity (s_shards s ! get_shard_index k s)"
  shows "sharded_look (snd (sharded_apply now k v s)) k' =
      (if k' = k then Some (entry_of now (c_tombstone_ttl (s_shards s ! get_shard_index k s)) v) else sharded_look s k')"
    and "j < length (s_shards s) \<Longrightarrow> length (contents (s_shards (snd (sharded_apply now k v s)) ! j)) =
      (if j = get_shard_index k s then Suc (length (contents (s_shards s ! j))) else length (contents (s_shards s ! j)))"
    and "j < length (s_shards s) \<Longrightarrow> c_capacity (s_shards (snd (sharded_apply now k v s)) ! j) = c_capacity (s_shards s ! j)"
proof -
  let ?i = "get_shard_index k s" and ?c = "s_shards s ! get_shard_index k s"
  have c: "cache_wf ?c" by (rule sharded_wf_shard [OF wf])
  have none: "map_of (contents ?c) k = None" using absent by (simp add: sharded_look_def)
  have new: "contents (snd (cache_apply now k v ?c)) = (k, entry_of now (c_tombstone_ttl ?c) v) # contents ?c"
    using contents_cache_apply(1) [OF c, of now k v] none room
    by (simp add: accepts_def lru_put_def applied_entry_of map_of_eq_None_iff)
  show "sharded_look (snd (sharded_apply now k v s)) k' =
      (if k' = k then Some (entry_of now (c_tombstone_ttl ?c) v) else sharded_look s k')"
    by (auto simp: sharded_apply_def look_on_shard [OF wf] new) (simp_all add: sharded_look_def)
  have shards: "s_shards (snd (sharded_apply now k v s)) = (s_shards s)[?i := snd (cache_apply now k v ?c)]"
    by (simp add: sharded_apply_def on_shard_def case_prod_beta)
  show "j < length (s_shards s) \<Longrightarrow> length (contents (s_shards (snd (sharded_apply now k v s)) ! j)) =
      (if j = ?i then Suc (length (contents (s_shards s ! j))) else length (contents (s_shards s ! j)))"
    using arg_cong [OF new, of length] by (simp add: shards nth_list_update)
  show "j < length (s_shards s) \<Longrightarrow>
      c_capacity (s_shards (snd (sharded_apply now k v s)) ! j) = c_capacity (s_shards s ! j)"
    using capacity_const(1) [of "OpApply now k v" ?c]
    by (cases "j = ?i") (simp_all add: shards case_prod_beta)
qed

lemma sharded_apply_keeps:
  assumes "sharded_wf s" "uniform s"
  shows "sharded_wf (snd (sharded_apply now k v s))" "uniform (snd (sharded_apply now k v s))"
    "c_tombstone_ttl (hd (s_shards (snd (sharded_apply now k v s)))) = c_tombstone_ttl (hd (s_shards s))"
    "get_shard_index k' (snd (sharded_apply now k v s)) = get_shard_index k' s"
    "length (s_shards (snd (sharded_apply now k v s))) = length (s_shards s)"
  using sharded.app_inv [of s now k v] sharded.app_tt [of s now k v] assms
  by (simp_all add: sharded_apply_def)

lemma room_for_apply:
  assumes wf: "sharded_wf c" "uniform c" and room: "room_for now (e # es) c" and e: "kept now e"
    and absent: "sharded_look c (se_key e) = None"
  shows "room_for now es (snd (sharded_apply t (se_key e) v c))"
    and "length (contents (s_shards c ! get_shard_index (se_key e) c)) < c_capacity (s_shards c ! get_shard_index (se_key e) c)"
proof -
  let ?i = "get_shard_index (se_key e) c"
  have i: "?i < length (s_shards c)" by (rule get_shard_index_less [OF wf(1)])
  have "arrivals now (e # es) ?i c = Suc (arrivals now es ?i c)" using e by (simp add: arrivals_def)
  with room i show lt: "length (contents (s_shards c ! ?i)) < c_capacity (s_shards c ! ?i)"
    by (fastforce simp: room_for_def)
  have same: "arrivals now es j (snd (sharded_apply t (se_key e) v c)) = arrivals now es j c" for j
    by (simp add: arrivals_def sharded_apply_keeps [OF wf])
  have "arrivals now (e # es) j c = (if j = ?i then Suc (arrivals now es j c) else arrivals now es j c)" for j
    using e by (auto simp: arrivals_def)
  with room sharded_apply_fresh(2,3) [OF wf(1) absent lt, of _ t v]
  show "room_for now es (snd (sharded_apply t (se_key e) v c))"
    by (fastforce simp: room_for_def same sharded_apply_keeps [OF wf])
qed

lemma restore_entries:
  assumes "sharded_wf c" "uniform c" "room_for now es c" "distinct (map se_key es)"
    and "\<And>e. e \<in> set es \<Longrightarrow> sharded_look c (se_key e) = None"
  shows "(\<forall>e \<in> set es. kept now e \<longrightarrow>
      (\<exists>i. sharded_look (snd (apply_entries clock now es n c)) (se_key e) =
        Some (entry_of (clock i) (c_tombstone_ttl (hd (s_shards c))) (restored_value now e))))
    \<and> (\<forall>k. k \<notin> se_key ` set es \<longrightarrow>
        sharded_look (snd (apply_entries clock now es n c)) k = sharded_look c k)"
  using assms
proof (induction es arbitrary: n c)
  case (Cons e es)
  show ?case
  proof (cases "kept now e")
    case False
    have "room_for now es c" using Cons.prems(3) False by (simp add: room_for_def arrivals_def)
    with Cons.IH [of c n] Cons.prems False show ?thesis by auto
  next
    case True
    let ?c = "snd (sharded_apply (clock n) (se_key e) (restored_value now e) c)"
    have absent: "sharded_look c (se_key e) = None" using Cons.prems by simp
    note wf = Cons.prems(1,2)
    note room = room_for_apply [OF wf Cons.prems(3) True absent]
    note look = sharded_apply_fresh(1) [OF wf(1) absent room(2), where now = "clock n" and v = "restored_value now e"]
    note keeps = sharded_apply_keeps [OF wf, where now = "clock n" and k = "se_key e" and v = "restored_value now e"]
    have notin: "se_key e \<notin> se_key ` set es" using Cons.prems(4) by simp
    have "sharded_look ?c (se_key e') = None" if e': "e' \<in> set es" for e'
    proof -
      have "se_key e' \<noteq> se_key e" using notin imageI [OF e', of se_key] by metis
      then show ?thesis using Cons.prems(5) [of e'] e' by (simp add: look)
    qed
    then have ih: "\<forall>e' \<in> set es. kept now e' \<longrightarrow>
        (\<exists>i. sharded_look (snd (apply_entries clock now es (n + 1) ?c)) (se_key e') =
          Some (entry_of (clock i) (c_tombstone_ttl (hd (s_shards c))) (restored_value now e')))"
      "\<forall>k. k \<notin> se_key ` set es \<longrightarrow>
        sharded_look (snd (apply_entries clock now es (n + 1) ?c)) k = sharded_look ?c k"
      using Cons.IH [OF keeps(1,2) room(1), of "n + 1"] Cons.prems(4) keeps(3) by auto
    from ih(2) notin have "sharded_look (snd (apply_entries clock now es (n + 1) ?c)) (se_key e) =
        Some (entry_of (clock n) (c_tombstone_ttl (hd (s_shards c))) (restored_value now e))"
      by (simp add: look uniform_shard [OF wf])
    with ih look True show ?thesis by auto
  qed
qed simp

lemma restored_saved:
  assumes "case vv_ttl v of None \<Rightarrow> True | Some t \<Rightarrow> 0 \<le> now + t \<and> now' < now + t"
  shows "kept now' (saved_entry now (k, v))"
    and "restored_value now' (saved_entry now (k, v)) =
      v\<lparr>vv_ttl := if vv_tombstone v then None else map_option (\<lambda>t. now + t - now') (vv_ttl v)\<rparr>"
  using assms by (auto simp: kept_def restored_value_def saved_entry_def Let_def split: option.splits)

lemma room_for_restart:
  assumes s: "s = snd (run sharded_step secs (new_sharded_cache cap n tt))"
  shows "room_for now' (map (saved_entry now) (concat (for_each_shard_snapshot clock s))) (new_sharded_cache cap n tt)"
proof -
  let ?new = "new_sharded_cache cap n tt" and ?es = "concat (for_each_shard_snapshot clock s)"
  note parts = run_new_shards [OF s]
  have same: "get_shard_index k ?new = get_shard_index k s" for k
    by (simp add: get_shard_index_def parts(1) new_sharded_parts(4))
  have "arrivals now' (map (saved_entry now) ?es) j ?new \<le> max 1 (cap div max 1 n)" if j: "j < max 1 n" for j
  proof -
    have "arrivals now' (map (saved_entry now) ?es) j ?new \<le> length (filter (\<lambda>p. get_shard_index (fst p) s = j) ?es)"
      using length_filter_le [of "\<lambda>p. kept now' (saved_entry now p)" "filter (\<lambda>p. get_shard_index (fst p) s = j) ?es"]
      by (simp add: arrivals_def filter_map comp_def same saved_entry_def conj_commute)
    also have "\<dots> \<le> length (contents (s_shards s ! j))"
      using j length_filter_le [of "\<lambda>(k, e). \<not> is_expired e (clock j)" "contents (s_shards s ! j)"]
      by (simp add: shard_snapshots(3) [OF parts(2)] parts(1) snapshot_contents)
    also have "\<dots> \<le> max 1 (cap div max 1 n)" using j parts(4) by (simp add: parts(1))
    finally show ?thesis .
  qed
  then show ?thesis
    by (auto simp: room_for_def new_sharded_parts new_cache_def contents_def)
qed

lemma restart_restores:
  assumes s: "s = snd (run sharded_step secs (new_sharded_cache cap n tt))"
    and storable: "\<forall>p \<in> set (concat (for_each_shard_snapshot clock s)). storable now p"
    and small: "length (concat (for_each_shard_snapshot clock s)) < 2 ^ 64"
    and saved: "save_snapshot faults clock now s path fs = (Inr stats, fs')"
    and seen: "visible (clock (get_shard_index k s)) (sharded_look s k) = Some v"
    and live: "case vv_ttl v of None \<Rightarrow> True | Some t \<Rightarrow> 0 \<le> now + t \<and> now' < now + t"
  shows "\<exists>i. sharded_look (snd (load_snapshot clock' now' (new_sharded_cache cap n tt) path fs')) k =
    Some (entry_of (clock' i) tt
      (v\<lparr>vv_ttl := if vv_tombstone v then None else map_option (\<lambda>t. now + t - now') (vv_ttl v)\<rparr>))"
proof -
  let ?new = "new_sharded_cache cap n tt"
  define batches where "batches = for_each_shard_snapshot clock s"
  define es where "es = map (saved_entry now) (concat batches)"
  note wf = run_new_shards(2) [OF s]
  have stored: "fs' path = Some (snapshot_bytes now batches)"
    using saved by (auto simp: save_snapshot_def Let_def batches_def split: if_splits option.splits)
  have dec: "decode_snapshot (snapshot_bytes now batches) = Inr es"
    unfolding es_def using storable small by (intro decode_snapshot_bytes) (auto simp: batches_def)
  have mem: "saved_entry now (k, v) \<in> set es"
    using shard_snapshots(2) [OF wf, of k v clock] seen by (auto simp: es_def batches_def)
  have keys: "distinct (map se_key es)"
    using shard_snapshots(1) [OF wf, of clock] by (simp add: es_def batches_def comp_def saved_entry_def)
  have room: "room_for now' es ?new"
    unfolding es_def batches_def by (rule room_for_restart [OF s])
  have "\<exists>i. sharded_look (snd (apply_entries clock' now' es 0 ?new)) (se_key (saved_entry now (k, v))) =
      Some (entry_of (clock' i) tt (restored_value now' (saved_entry now (k, v))))"
    using restore_entries [OF new_sharded_wf new_sharded_parts(1) room keys, of clock' 0] mem restored_saved(1) [OF live]
    by (simp add: new_sharded_parts)
  moreover have "snd (load_snapshot clock' now' ?new path fs') = snd (apply_entries clock' now' es 0 ?new)"
    by (simp add: load_snapshot_def stored dec case_prod_beta)
  ultimately show ?thesis using restored_saved(2) [OF live, of k] by (simp add: saved_entry_def)
qed

text \<open>A restart loses nothing that was saved and still lives: whatever history built the cache,
  after a successful save every key visible at the save whose deadline has not passed at load time is
  found again in a fresh cache of the same configuration, with its value, version and tombstone flag,
  and with what remains of its time to live after the downtime.\<close>

theorem snapshot_restores:
  assumes s: "s = snd (run sharded_step secs (new_sharded_cache cap n tt))"
    and storable: "\<forall>p \<in> set (concat (for_each_shard_snapshot clock s)). storable now p"
    and small: "length (concat (for_each_shard_snapshot clock s)) < 2 ^ 64"
    and saved: "save_snapshot faults clock now s path fs = (Inr stats, fs')"
    and seen: "visible (clock (get_shard_index k s)) (sharded_look s k) = Some v"
    and live: "case vv_ttl v of None \<Rightarrow> True | Some t \<Rightarrow> 0 \<le> now + t \<and> now' < now + t"
  shows "\<exists>i. sharded_look (snd (load_snapshot clock' now' (new_sharded_cache cap n tt) path fs')) k =
    Some (entry_of (clock' i) tt
      (v\<lparr>vv_ttl := if vv_tombstone v then None else map_option (\<lambda>t. now + t - now') (vv_ttl v)\<rparr>))"
  using restart_restores [OF assms] .

text \<open>A cache with one key, and its snapshot.\<close>

definition one_value_at :: VersionedValue where
  "one_value_at = \<lparr>vv_value = ''v'', vv_version = 0, vv_tombstone = False, vv_ttl = None\<rparr>"

definition one_key_cache :: "nat \<Rightarrow> nat \<Rightarrow> ShardedCache" where
  "one_key_cache cap n = sharded_set 0 ''k'' ''v'' None (new_sharded_cache cap n 60000)"

lemma one_key_cache:
  assumes "0 < n"
  shows "one_key_cache cap n = snd (run sharded_step [(0, OpSet 0 ''k'' ''v'' None)] (new_sharded_cache cap n 60000))"
    and "visible 5 (sharded_look (one_key_cache cap n) ''k'') = Some one_value_at"
    and "set (concat (for_each_shard_snapshot (\<lambda>_. 5) (one_key_cache cap n))) = {(''k'', one_value_at)}"
    and "length (concat (for_each_shard_snapshot (\<lambda>_. 5) (one_key_cache cap n))) = 1"
proof -
  let ?s = "one_key_cache cap n" and ?new = "new_sharded_cache cap n 60000"
  define es where "es = concat (for_each_shard_snapshot (\<lambda>_. 5) ?s)"
  show s: "?s = snd (run sharded_step [(0, OpSet 0 ''k'' ''v'' None)] ?new)"
    by (simp add: one_key_cache_def sharded_as_step(1) [of _ _ _ _ _ 0] case_prod_beta)
  have shard: "\<exists>c. s_shards ?new ! get_shard_index ''k'' ?new = new_cache c 60000 \<and> 0 < c"
    using get_shard_index_less [OF new_sharded_wf, of "''k''" cap n 60000] new_sharded_parts(5) [of _ n cap 60000]
    by (auto simp: new_sharded_parts(4) less_max_iff_disj)
  then obtain c where c: "s_shards ?new ! get_shard_index ''k'' ?new = new_cache c 60000" "0 < c" by blast
  have only: "sharded_look ?s k = (if k = ''k'' then Some \<lparr>ce_value = ''v'', ce_expires_at = None, ce_version = 0,
      ce_tombstone = False\<rparr> else None)" for k
    unfolding one_key_cache_def using c(2)
    by (simp add: sharded_set_def look_on_shard new_sharded_wf c(1) contents_cache_set new_cache_wf new_sharded_parts(3))
      (simp add: new_cache_def contents_def lru_put_def)
  show "visible 5 (sharded_look ?s ''k'') = Some one_value_at"
    unfolding only by (simp add: visible_def is_expired_def versioned_of_def one_value_at_def)
  note wf = run_new_shards(2) [OF s]
  have "(k, v) \<in> set es \<longleftrightarrow> k = ''k'' \<and> v = one_value_at" for k v
    unfolding es_def shard_snapshots(2) [OF wf] by (auto simp: only visible_def is_expired_def versioned_of_def one_value_at_def)
  then have only_k: "set es = {(''k'', one_value_at)}" by auto
  have "length es = card (set es)"
    using shard_snapshots(1) [OF wf, of "\<lambda>_. 5"] by (simp add: es_def distinct_map distinct_card del: length_concat set_concat)
  with only_k show "set (concat (for_each_shard_snapshot (\<lambda>_. 5) ?s)) = {(''k'', one_value_at)}"
    "length (concat (for_each_shard_snapshot (\<lambda>_. 5) ?s)) = 1" by (simp_all add: es_def del: length_concat set_concat)
qed

theorem snapshot_restores_witness:
  "let ok = \<lparr>df_open_fails = False, df_write_fails = None, df_rename_fails = False\<rparr>
   in \<exists>i. sharded_look (snd (load_snapshot int 2000 (new_sharded_cache 10 4 60000) ''f''
            (snd (save_snapshot ok (\<lambda>_. 5) 1000 (one_key_cache 10 4) ''f'' (\<lambda>_. None))))) ''k'' =
        Some (entry_of (int i) 60000 one_value_at)"
proof -
  let ?ok = "\<lparr>df_open_fails = False, df_write_fails = None, df_rename_fails = False\<rparr>"
  have saved: "save_snapshot ?ok (\<lambda>_. 5) 1000 (one_key_cache 10 4) ''f'' (\<lambda>_. None) =
      (Inr (projr (fst (save_snapshot ?ok (\<lambda>_. 5) 1000 (one_key_cache 10 4) ''f'' (\<lambda>_. None)))),
       snd (save_snapshot ?ok (\<lambda>_. 5) 1000 (one_key_cache 10 4) ''f'' (\<lambda>_. None)))"
    unfolding save_snapshot_def Let_def by simp
  have store: "\<forall>p \<in> set (concat (for_each_shard_snapshot (\<lambda>_. 5) (one_key_cache 10 4))). storable 1000 p"
    using one_key_cache(3) [of 4 10] by (simp add: storable_def one_value_at_def del: set_concat)
  have small: "length (concat (for_each_shard_snapshot (\<lambda>_. 5) (one_key_cache 10 4))) < 2 ^ 64"
    using one_key_cache(4) [of 4 10] by (simp del: length_concat)
  have live: "case vv_ttl one_value_at of None \<Rightarrow> True | Some t \<Rightarrow> 0 \<le> 1000 + t \<and> 2000 < 1000 + t"
    by (simp add: one_value_at_def)
  show ?thesis
    using snapshot_restores [OF one_key_cache(1) store small saved one_key_cache(2) live, of int]
    unfolding Let_def by (simp add: one_value_at_def)
qed

end
