(* ===== verification/Single_Flight.thy ===== *)
theory Single_Flight
  imports Std_Map
begin

text \<open>
  Coalescing of concurrent loads of one key (src/single_flight.cpp, single_flight.hpp) as a step
  relation: any number of threads, each inside one \<open>do_call\<close>, interleaved at the critical
  sections. A shared call object is named by its position in the list of all calls made so far.
  What a fetch returns or throws is chosen freely.
\<close>

section \<open>State\<close>

record Call =
  call_done :: bool
  call_val :: string
  call_exc :: "string option"

text \<open>What a fetch gives, and what a caller gets: a value, or the exception that is rethrown.\<close>

type_synonym outcome = "string \<times> string option"

text \<open>Where a thread is: before the lookup, waiting as a follower, fetching as the leader, between
  fetching and publishing, between publishing and leaving the map, or back in the caller.\<close>

datatype sf_pc =
    Entering
  | Waiting nat
  | Fetching nat
  | Fetched nat outcome
  | Published nat outcome
  | Led nat outcome
  | Followed nat outcome

record SingleFlight =
  sf_calls :: "(string \<times> nat) list"
  sf_heap :: "Call list"
  sf_pcs :: "sf_pc list"

definition new_call :: Call where
  "new_call = \<lparr>call_done = False, call_val = [], call_exc = None\<rparr>"

definition new_single_flight :: "nat \<Rightarrow> SingleFlight" where
  "new_single_flight n = \<lparr>sf_calls = [], sf_heap = [], sf_pcs = replicate n Entering\<rparr>"

section \<open>The critical sections of do_call\<close>

definition move :: "nat \<Rightarrow> sf_pc \<Rightarrow> SingleFlight \<Rightarrow> SingleFlight" where
  "move t pc s = s\<lparr>sf_pcs := (sf_pcs s)[t := pc]\<rparr>"

text \<open>Look the key up, and register a new call when there is none.\<close>

definition enter_call :: "nat \<Rightarrow> string \<Rightarrow> SingleFlight \<Rightarrow> SingleFlight" where
  "enter_call t key s =
     (case map_of (sf_calls s) key of
        Some c \<Rightarrow> move t (Waiting c) s
      | None \<Rightarrow>
          move t (Fetching (length (sf_heap s)))
            (s\<lparr>sf_heap := sf_heap s @ [new_call],
               sf_calls := umap_set key (length (sf_heap s)) (sf_calls s)\<rparr>))"

definition publish_call :: "nat \<Rightarrow> nat \<Rightarrow> outcome \<Rightarrow> SingleFlight \<Rightarrow> SingleFlight" where
  "publish_call t c r s =
     move t (Published c r)
       (s\<lparr>sf_heap := (sf_heap s)[c := \<lparr>call_done = True, call_val = fst r, call_exc = snd r\<rparr>]\<rparr>)"

definition erase_call :: "nat \<Rightarrow> string \<Rightarrow> nat \<Rightarrow> outcome \<Rightarrow> SingleFlight \<Rightarrow> SingleFlight" where
  "erase_call t key c r s = move t (Led c r) (s\<lparr>sf_calls := umap_erase key (sf_calls s)\<rparr>)"

definition call_result :: "Call \<Rightarrow> outcome" where
  "call_result c = (case call_exc c of Some e \<Rightarrow> ([], Some e) | None \<Rightarrow> (call_val c, None))"

text \<open>The caller of a fetch that threw gets the exception and no value.\<close>

definition returned :: "outcome \<Rightarrow> outcome" where
  "returned r = (case snd r of Some e \<Rightarrow> ([], Some e) | None \<Rightarrow> r)"

inductive do_call :: "string list \<Rightarrow> SingleFlight \<Rightarrow> SingleFlight \<Rightarrow> bool" for keys where
  enter: "t < length (sf_pcs s) \<Longrightarrow> sf_pcs s ! t = Entering \<Longrightarrow> do_call keys s (enter_call t (keys ! t) s)"
| fetch: "t < length (sf_pcs s) \<Longrightarrow> sf_pcs s ! t = Fetching c \<Longrightarrow> do_call keys s (move t (Fetched c r) s)"
| publish: "t < length (sf_pcs s) \<Longrightarrow> sf_pcs s ! t = Fetched c r \<Longrightarrow> do_call keys s (publish_call t c r s)"
| erase: "t < length (sf_pcs s) \<Longrightarrow> sf_pcs s ! t = Published c r \<Longrightarrow> do_call keys s (erase_call t (keys ! t) c r s)"
| wake: "t < length (sf_pcs s) \<Longrightarrow> sf_pcs s ! t = Waiting c \<Longrightarrow> call_done (sf_heap s ! c) \<Longrightarrow>
    do_call keys s (move t (Followed c (call_result (sf_heap s ! c))) s)"

inductive run_calls :: "string list \<Rightarrow> nat \<Rightarrow> SingleFlight \<Rightarrow> bool" for keys where
  start: "run_calls keys 0 (new_single_flight (length keys))"
| step: "run_calls keys n s \<Longrightarrow> do_call keys s s' \<Longrightarrow> run_calls keys (Suc n) s'"

section \<open>Invariant\<close>

text \<open>The call a thread leads, and the call it is in flight for.\<close>

fun led_call :: "sf_pc \<Rightarrow> nat option" where
  "led_call (Fetching c) = Some c"
| "led_call (Fetched c r) = Some c"
| "led_call (Published c r) = Some c"
| "led_call (Led c r) = Some c"
| "led_call pc = None"

fun in_flight :: "sf_pc \<Rightarrow> nat option" where
  "in_flight (Fetching c) = Some c"
| "in_flight (Fetched c r) = Some c"
| "in_flight (Published c r) = Some c"
| "in_flight pc = None"

fun published :: "sf_pc \<Rightarrow> outcome option" where
  "published (Published c r) = Some r"
| "published (Led c r) = Some r"
| "published pc = None"

fun joined :: "sf_pc \<Rightarrow> nat option" where
  "joined (Waiting c) = Some c"
| "joined (Followed c r) = Some c"
| "joined pc = None"

definition call_of :: "Call \<Rightarrow> outcome option" where
  "call_of c = (if call_done c then Some (call_val c, call_exc c) else None)"

text \<open>Every registered call has one leader in flight for its key; what is published is what the
  leader fetched; who joined a call asked for the leader's key and gets what is published.\<close>

definition flight_wf :: "string list \<Rightarrow> SingleFlight \<Rightarrow> bool" where
  "flight_wf keys s \<longleftrightarrow>
     length (sf_pcs s) = length keys \<and>
     (\<forall>t < length keys. \<forall>c. led_call (sf_pcs s ! t) = Some c \<longrightarrow>
        c < length (sf_heap s) \<and> call_of (sf_heap s ! c) = published (sf_pcs s ! t)) \<and>
     (\<forall>t < length keys. \<forall>u < length keys. \<forall>c.
        led_call (sf_pcs s ! t) = Some c \<and> led_call (sf_pcs s ! u) = Some c \<longrightarrow> t = u) \<and>
     (\<forall>t < length keys. \<forall>c. in_flight (sf_pcs s ! t) = Some c \<longrightarrow> map_of (sf_calls s) (keys ! t) = Some c) \<and>
     (\<forall>k c. map_of (sf_calls s) k = Some c \<longrightarrow>
        (\<exists>t < length keys. keys ! t = k \<and> in_flight (sf_pcs s ! t) = Some c)) \<and>
     (\<forall>u < length keys. \<forall>c. joined (sf_pcs s ! u) = Some c \<longrightarrow>
        (\<exists>t < length keys. keys ! t = keys ! u \<and> led_call (sf_pcs s ! t) = Some c)) \<and>
     (\<forall>u < length keys. \<forall>c r. sf_pcs s ! u = Followed c r \<longrightarrow>
        (\<exists>r'. call_of (sf_heap s ! c) = Some r' \<and> r = returned r'))"

lemma flight_wfD:
  assumes "flight_wf keys s"
  shows "length (sf_pcs s) = length keys"
    and "t < length keys \<Longrightarrow> led_call (sf_pcs s ! t) = Some c \<Longrightarrow>
      c < length (sf_heap s) \<and> call_of (sf_heap s ! c) = published (sf_pcs s ! t)"
    and "t < length keys \<Longrightarrow> u < length keys \<Longrightarrow> led_call (sf_pcs s ! t) = Some c \<Longrightarrow>
      led_call (sf_pcs s ! u) = Some c \<Longrightarrow> t = u"
    and "t < length keys \<Longrightarrow> in_flight (sf_pcs s ! t) = Some c \<Longrightarrow> map_of (sf_calls s) (keys ! t) = Some c"
    and "map_of (sf_calls s) k = Some c \<Longrightarrow> \<exists>t < length keys. keys ! t = k \<and> in_flight (sf_pcs s ! t) = Some c"
    and "u < length keys \<Longrightarrow> joined (sf_pcs s ! u) = Some c \<Longrightarrow>
      \<exists>t < length keys. keys ! t = keys ! u \<and> led_call (sf_pcs s ! t) = Some c"
    and "u < length keys \<Longrightarrow> sf_pcs s ! u = Followed c r \<Longrightarrow>
      \<exists>r'. call_of (sf_heap s ! c) = Some r' \<and> r = returned r'"
  using assms unfolding flight_wf_def by blast+

lemma in_flight_led: "in_flight pc = Some c \<Longrightarrow> led_call pc = Some c"
  by (cases pc) auto

lemma call_result_of: "call_done c \<Longrightarrow> call_of c = Some r \<Longrightarrow> call_result c = returned r"
  by (auto simp: call_of_def call_result_def returned_def split: option.split)

lemma flight_wf_start: "flight_wf keys (new_single_flight (length keys))"
  by (simp add: flight_wf_def new_single_flight_def)

text \<open>One thread moves on: what a step has to respect so that the invariant stays.\<close>

lemma flight_wf_move:
  assumes wf: "flight_wf keys s" and t: "t < length keys" and pcs: "sf_pcs s' = (sf_pcs s)[t := p]"
    and heap: "length (sf_heap s) \<le> length (sf_heap s')"
      "\<And>c. c < length (sf_heap s) \<Longrightarrow> led_call (sf_pcs s ! t) \<noteq> Some c \<Longrightarrow> sf_heap s' ! c = sf_heap s ! c"
      "\<And>c r. led_call (sf_pcs s ! t) = Some c \<Longrightarrow> call_of (sf_heap s ! c) = Some r \<Longrightarrow>
        call_of (sf_heap s' ! c) = Some r"
    and led: "\<And>c. led_call p = Some c \<Longrightarrow> c < length (sf_heap s') \<and> call_of (sf_heap s' ! c) = published p"
      "\<And>c. led_call p = Some c \<Longrightarrow> led_call (sf_pcs s ! t) = Some c \<or> length (sf_heap s) \<le> c"
      "\<And>c. led_call (sf_pcs s ! t) = Some c \<Longrightarrow> led_call p = Some c"
    and calls: "\<And>k. k \<noteq> keys ! t \<Longrightarrow> map_of (sf_calls s') k = map_of (sf_calls s) k"
      "\<And>c. in_flight p = Some c \<Longrightarrow> map_of (sf_calls s') (keys ! t) = Some c"
      "in_flight p = None \<Longrightarrow> map_of (sf_calls s') (keys ! t) =
        (if in_flight (sf_pcs s ! t) = None then map_of (sf_calls s) (keys ! t) else None)"
      "\<And>c. in_flight p = Some c \<Longrightarrow> in_flight (sf_pcs s ! t) = Some c \<or> map_of (sf_calls s) (keys ! t) = None"
    and join: "\<And>c. joined p = Some c \<Longrightarrow> joined (sf_pcs s ! t) = Some c \<or> map_of (sf_calls s) (keys ! t) = Some c"
      "\<And>c r. p = Followed c r \<Longrightarrow> \<exists>r'. call_of (sf_heap s' ! c) = Some r' \<and> r = returned r'"
  shows "flight_wf keys s'"
proof -
  note D = flight_wfD [OF wf]
  define old where "old = sf_pcs s ! t"
  have pc: "sf_pcs s' ! u = (if u = t then p else sf_pcs s ! u)" if "u < length keys" for u
    using that D(1) by (simp add: pcs nth_list_update)
  have other: "c \<noteq> c'" if "u < length keys" "u \<noteq> t" "led_call (sf_pcs s ! u) = Some c" "led_call p = Some c'" for u c c'
    using led(2) [OF that(4)] D(2) [OF that(1,3)] D(3) [OF that(1) t that(3)] that(2) by fastforce
  have keep: "call_of (sf_heap s' ! c) = call_of (sf_heap s ! c)"
    if "u < length keys" "u \<noteq> t" "led_call (sf_pcs s ! u) = Some c" for u c
    using heap(2) [of c] D(2) [OF that(1,3)] D(3) [OF that(1) t that(3)] that(2) by fastforce
  have still: "led_call (sf_pcs s' ! u) = Some c" if "u < length keys" "led_call (sf_pcs s ! u) = Some c" for u c
    using that led(3) by (cases "u = t") (simp_all add: pc)
  have solo: "in_flight (sf_pcs s ! u) = None" if "u < length keys" "u \<noteq> t" "keys ! u = keys ! t" "in_flight p \<noteq> None" for u
  proof (rule ccontr)
    assume "in_flight (sf_pcs s ! u) \<noteq> None"
    then obtain c where c: "in_flight (sf_pcs s ! u) = Some c" by auto
    have "map_of (sf_calls s) (keys ! t) = Some c" using D(4) [OF that(1) c] that(3) by simp
    with that(4) calls(4) D(4) [OF t] have "in_flight (sf_pcs s ! t) = Some c" by fastforce
    with D(3) [OF that(1) t] in_flight_led c that(2) show False by blast
  qed
  have a1: "c < length (sf_heap s') \<and> call_of (sf_heap s' ! c) = published (sf_pcs s' ! u)"
    if "u < length keys" "led_call (sf_pcs s' ! u) = Some c" for u c
    using that led(1) [of c] D(2) [of u c] keep [of u c] heap(1) by (cases "u = t") (auto simp: pc)
  have a2: "u = v" if "u < length keys" "v < length keys" "led_call (sf_pcs s' ! u) = Some c"
      "led_call (sf_pcs s' ! v) = Some c" for u v c
    using that other [of u c c] other [of v c c] D(3) [of u v c] by (cases "u = t"; cases "v = t") (auto simp: pc)
  have a3: "map_of (sf_calls s') (keys ! u) = Some c" if u: "u < length keys" "in_flight (sf_pcs s' ! u) = Some c" for u c
  proof (cases "u = t")
    case True
    with u calls(2) show ?thesis by (simp add: pc)
  next
    case False
    with u have fl: "in_flight (sf_pcs s ! u) = Some c" by (simp add: pc)
    note m = D(4) [OF u(1) fl]
    show ?thesis
    proof (cases "keys ! u = keys ! t")
      case same: True
      have np: "in_flight p = None" using solo [OF u(1) False same] fl by (cases "in_flight p") auto
      have "in_flight (sf_pcs s ! t) = None"
      proof (rule ccontr)
        assume "in_flight (sf_pcs s ! t) \<noteq> None"
        then obtain d where d: "in_flight (sf_pcs s ! t) = Some d" by auto
        with D(4) [OF t d] m same have "d = c" by simp
        with d fl D(3) [OF u(1) t] in_flight_led False show False by blast
      qed
      with calls(3) [OF np] m same show ?thesis by simp
    qed (use calls(1) m in simp)
  qed
  have a4: "\<exists>u < length keys. keys ! u = k \<and> in_flight (sf_pcs s' ! u) = Some c"
    if k: "map_of (sf_calls s') k = Some c" for k c
  proof (cases "k = keys ! t \<and> in_flight p \<noteq> None")
    case True
    with k calls(2) t show ?thesis by (auto simp: pc)
  next
    case False
    then have "map_of (sf_calls s) k = Some c" "k \<noteq> keys ! t \<or> in_flight (sf_pcs s ! t) = None"
      using k calls(1) [of k] calls(3) by (cases "k = keys ! t", auto split: if_splits)+
    with D(5) show ?thesis by (force simp: pc)
  qed
  have a5: "\<exists>u < length keys. keys ! u = keys ! v \<and> led_call (sf_pcs s' ! u) = Some c"
    if v: "v < length keys" "joined (sf_pcs s' ! v) = Some c" for v c
  proof -
    have "joined (sf_pcs s ! v) = Some c \<or> v = t \<and> map_of (sf_calls s) (keys ! v) = Some c"
      using v join(1) by (auto simp: pc split: if_splits)
    then have "\<exists>u < length keys. keys ! u = keys ! v \<and> led_call (sf_pcs s ! u) = Some c"
      using D(5,6) v(1) in_flight_led by blast
    with still show ?thesis by blast
  qed
  have a6: "\<exists>r'. call_of (sf_heap s' ! c) = Some r' \<and> r = returned r'"
    if v: "v < length keys" "sf_pcs s' ! v = Followed c r" for v c r
  proof (cases "v = t")
    case False
    with v have f: "sf_pcs s ! v = Followed c r" by (simp add: pc)
    then obtain u where u: "u < length keys" "led_call (sf_pcs s ! u) = Some c" using D(6) [OF v(1), of c] by auto
    obtain r' where "call_of (sf_heap s ! c) = Some r'" "r = returned r'" using D(7) [OF v(1) f] by auto
    with keep [OF u(1) _ u(2)] heap(3) u show ?thesis by (cases "u = t") auto
  qed (use v join(2) in \<open>simp add: pc\<close>)
  have "length (sf_pcs s') = length keys" using D(1) by (simp add: pcs)
  with a1 a2 a3 a4 a5 a6 show ?thesis unfolding flight_wf_def by blast
qed

lemma do_call_wf:
  assumes "do_call keys s s'" and wf: "flight_wf keys s"
  shows "flight_wf keys s'"
  using assms(1)
proof cases
  case (enter t)
  then have t: "t < length keys" using flight_wfD(1) [OF wf] by simp
  show ?thesis
  proof (cases "map_of (sf_calls s) (keys ! t)")
    case (Some c)
    with enter show ?thesis
      by (intro flight_wf_move [OF wf t, of s' "Waiting c"]) (auto simp: enter_call_def move_def)
  next
    case None
    with enter show ?thesis
      by (intro flight_wf_move [OF wf t, of s' "Fetching (length (sf_heap s))"])
         (auto simp: enter_call_def move_def map_of_umap_set nth_append call_of_def new_call_def)
  qed
next
  case (fetch t c r)
  then have t: "t < length keys" using flight_wfD(1) [OF wf] by simp
  have "led_call (sf_pcs s ! t) = Some c" "in_flight (sf_pcs s ! t) = Some c" using fetch by simp_all
  with flight_wfD(2,4) [OF wf t] fetch show ?thesis
    by (intro flight_wf_move [OF wf t, of s' "Fetched c r"]) (auto simp: move_def)
next
  case (publish t c r)
  then have t: "t < length keys" using flight_wfD(1) [OF wf] by simp
  have "led_call (sf_pcs s ! t) = Some c" "in_flight (sf_pcs s ! t) = Some c" using publish by simp_all
  with flight_wfD(2,4) [OF wf t] publish show ?thesis
    by (intro flight_wf_move [OF wf t, of s' "Published c r"]) (auto simp: publish_call_def move_def call_of_def)
next
  case (erase t c r)
  then have t: "t < length keys" using flight_wfD(1) [OF wf] by simp
  have "led_call (sf_pcs s ! t) = Some c" using erase by simp
  with flight_wfD(2) [OF wf t] erase show ?thesis
    by (intro flight_wf_move [OF wf t, of s' "Led c r"]) (auto simp: erase_call_def move_def map_of_umap_erase)
next
  case (wake t c)
  then have t: "t < length keys" using flight_wfD(1) [OF wf] by simp
  obtain r where "call_of (sf_heap s ! c) = Some r" using wake by (simp add: call_of_def)
  with call_result_of [OF wake(4) this] wake show ?thesis
    by (intro flight_wf_move [OF wf t, of s' "Followed c (call_result (sf_heap s ! c))"]) (auto simp: move_def)
qed

lemma run_calls_wf: "run_calls keys n s \<Longrightarrow> flight_wf keys s"
  by (induction rule: run_calls.induct) (auto intro: flight_wf_start do_call_wf)

section \<open>Properties\<close>

text \<open>C17: Concurrent loads of a key are coalesced: at any moment at most one thread is fetching for
  a key, and every follower comes back with exactly what its leader's fetch for the same key gave,
  the value or the exception.\<close>

theorem single_flight_safe:
  assumes "run_calls keys n s" and "t < length keys" and "u < length keys"
  shows "(in_flight (sf_pcs s ! t) \<noteq> None \<longrightarrow> in_flight (sf_pcs s ! u) \<noteq> None \<longrightarrow> keys ! t = keys ! u \<longrightarrow> t = u)
    \<and> (sf_pcs s ! t = Followed c r \<longrightarrow>
        (\<exists>l < length keys. \<exists>r'. keys ! l = keys ! t \<and> r = returned r' \<and>
           (sf_pcs s ! l = Published c r' \<or> sf_pcs s ! l = Led c r')))"
proof -
  note D = flight_wfD [OF run_calls_wf [OF assms(1)]]
  have "t = u" if "in_flight (sf_pcs s ! t) = Some c" "in_flight (sf_pcs s ! u) = Some d" "keys ! t = keys ! u" for c d
    using that D(4) [OF assms(2) that(1)] D(4) [OF assms(3) that(2)] D(3) [OF assms(2,3)] in_flight_led by fastforce
  moreover have "\<exists>l < length keys. \<exists>r'. keys ! l = keys ! t \<and> r = returned r' \<and>
      (sf_pcs s ! l = Published c r' \<or> sf_pcs s ! l = Led c r')" if f: "sf_pcs s ! t = Followed c r"
  proof -
    obtain l where l: "l < length keys" "keys ! l = keys ! t" "led_call (sf_pcs s ! l) = Some c"
      using D(6) [OF assms(2), of c] f by auto
    obtain r' where r': "call_of (sf_heap s ! c) = Some r'" "r = returned r'" using D(7) [OF assms(2) f] by auto
    then have "published (sf_pcs s ! l) = Some r'" using D(2) [OF l(1,3)] by simp
    then have "sf_pcs s ! l = Published c r' \<or> sf_pcs s ! l = Led c r'"
      using l(3) by (cases "sf_pcs s ! l") auto
    with l r'(2) show ?thesis by blast
  qed
  ultimately show ?thesis by blast
qed

text \<open>Two callers of one key: the second joins the first and comes back with its value before the
  first has left the map.\<close>

definition joined_pair :: SingleFlight where
  "joined_pair = \<lparr>sf_calls = [(''k'', 0)], sf_heap = [\<lparr>call_done = True, call_val = ''v'', call_exc = None\<rparr>],
     sf_pcs = [Published 0 (''v'', None), Followed 0 (''v'', None)]\<rparr>"

lemma joined_pair_run: "run_calls [''k'', ''k''] 5 joined_pair"
proof -
  let ?keys = "[''k'', ''k'']"
  let ?s = "\<lambda>h a b. \<lparr>sf_calls = [(''k'', 0)], sf_heap = [h], sf_pcs = [a, b]\<rparr>"
  let ?h = "\<lparr>call_done = True, call_val = ''v'', call_exc = None\<rparr>"
  have "run_calls ?keys 0 (new_single_flight 2)"
    using run_calls.start [of ?keys] by (simp add: numeral_2_eq_2)
  moreover have "do_call ?keys (new_single_flight 2) (?s new_call (Fetching 0) Entering)"
    using do_call.enter [of 0 "new_single_flight 2" ?keys]
    by (simp add: new_single_flight_def enter_call_def move_def umap_set_def numeral_2_eq_2)
  moreover have "do_call ?keys (?s new_call (Fetching 0) Entering) (?s new_call (Fetching 0) (Waiting 0))"
    using do_call.enter [of 1 "?s new_call (Fetching 0) Entering" ?keys] by (simp add: enter_call_def move_def)
  moreover have "do_call ?keys (?s new_call (Fetching 0) (Waiting 0)) (?s new_call (Fetched 0 (''v'', None)) (Waiting 0))"
    using do_call.fetch [of 0 "?s new_call (Fetching 0) (Waiting 0)" 0 ?keys "(''v'', None)"] by (simp add: move_def)
  moreover have "do_call ?keys (?s new_call (Fetched 0 (''v'', None)) (Waiting 0)) (?s ?h (Published 0 (''v'', None)) (Waiting 0))"
    using do_call.publish [of 0 "?s new_call (Fetched 0 (''v'', None)) (Waiting 0)" 0 "(''v'', None)" ?keys]
    by (simp add: publish_call_def move_def)
  moreover have "do_call ?keys (?s ?h (Published 0 (''v'', None)) (Waiting 0)) joined_pair"
    using do_call.wake [of 1 "?s ?h (Published 0 (''v'', None)) (Waiting 0)" 0 ?keys]
    by (simp add: move_def call_result_def joined_pair_def)
  ultimately have "run_calls ?keys (Suc (Suc (Suc (Suc (Suc 0))))) joined_pair"
    by (blast intro: run_calls.step)
  then show ?thesis by (simp add: eval_nat_numeral)
qed

theorem single_flight_safe_witness:
  "run_calls [''k'', ''k''] 5 joined_pair \<and>
   (\<exists>l < 2. \<exists>r'. returned r' = (''v'', None) \<and> (sf_pcs joined_pair ! l = Published 0 r' \<or> sf_pcs joined_pair ! l = Led 0 r'))"
  using single_flight_safe [OF joined_pair_run, of 1 1 0 "(''v'', None)"] joined_pair_run
  by (auto simp: joined_pair_def numeral_2_eq_2)

text \<open>How many sections a thread still has to run at most.\<close>

fun sections_left :: "sf_pc \<Rightarrow> nat" where
  "sections_left Entering = 4"
| "sections_left (Fetching c) = 3"
| "sections_left (Fetched c r) = 2"
| "sections_left (Published c r) = 1"
| "sections_left (Waiting c) = 1"
| "sections_left (Led c r) = 0"
| "sections_left (Followed c r) = 0"

lemma sum_list_update_less:
  "t < length xs \<Longrightarrow> f y < f (xs ! t) \<Longrightarrow> sum_list (map f (xs[t := y])) < (sum_list (map f xs) :: nat)"
proof (induction xs arbitrary: t)
  case (Cons x xs)
  then show ?case by (cases t) auto
qed simp

lemma do_call_less:
  assumes "do_call keys s s'"
  shows "sum_list (map sections_left (sf_pcs s')) < sum_list (map sections_left (sf_pcs s))"
  using assms
  by cases (auto simp: enter_call_def publish_call_def erase_call_def move_def intro!: sum_list_update_less
      split: option.split)

lemma run_calls_measure:
  "run_calls keys n s \<Longrightarrow> n + sum_list (map sections_left (sf_pcs s)) \<le> 4 * length keys"
proof (induction rule: run_calls.induct)
  case start
  then show ?case by (simp add: new_single_flight_def sum_list_replicate)
next
  case (step n s s')
  with do_call_less [OF step(2)] show ?case by linarith
qed



end
