(* ===== verification/Routing_Table.thy ===== *)
theory Routing_Table
  imports Hash_Ring
begin

text \<open>
  The immutable routing table (src/routing_table.cpp) that the coordinator reads without locks:
  the ring's points with the preference list of each precomputed as 16-bit node indices. It is
  shown to answer what a walk of the ring answers, for clusters whose nodes fit the index type.
\<close>

record RoutingTable =
  rt_nodes :: "CacheNode list"
  rt_points :: "u32 list"
  rt_replicas :: "u16 list list"
  rt_local_member :: "bool list"

text \<open>The first loop of the constructor: number the nodes in ring order and record the owner of
  each point.\<close>

record rt_build =
  b_index_of :: "(string \<times> u16) list"
  b_nodes :: "CacheNode list"
  b_points :: "u32 list"
  b_owner :: "u16 list"

definition rt_point :: "u32 \<times> CacheNode \<Rightarrow> rt_build \<Rightarrow> rt_build" where
  "rt_point p b =
     (let node = snd p;
          fresh = of_nat (length (b_nodes b));
          inserted = (map_of (b_index_of b) (cn_id node) = None);
          index_of = umap_emplace (cn_id node) fresh (b_index_of b)
      in \<lparr>b_index_of = index_of,
          b_nodes = (if inserted then b_nodes b @ [node] else b_nodes b),
          b_points = b_points b @ [fst p],
          b_owner = b_owner b @ [the (map_of index_of (cn_id node))]\<rparr>)"

definition rt_scan :: "(u32 \<times> CacheNode) list \<Rightarrow> rt_build" where
  "rt_scan ring = fold rt_point ring \<lparr>b_index_of = [], b_nodes = [], b_points = [], b_owner = []\<rparr>"

text \<open>The inner loop: the owners met from point \<open>p\<close> on, until \<open>n\<close> distinct ones are found.\<close>

fun rt_walk :: "u16 list \<Rightarrow> nat \<Rightarrow> nat \<Rightarrow> nat list \<Rightarrow> u16 list \<Rightarrow> u16 list" where
  "rt_walk owner n p [] lst = lst"
| "rt_walk owner n p (step # steps) lst =
     (if length lst < n
      then
        (let candidate = owner ! ((p + step) mod length owner)
         in rt_walk owner n p steps (if candidate \<in> set lst then lst else lst @ [candidate]))
      else lst)"

definition new_routing_table :: "ConsistentHashRing \<Rightarrow> nat \<Rightarrow> string \<Rightarrow> RoutingTable" where
  "new_routing_table ring replication_factor local_id =
     (let b = rt_scan (r_ring ring);
          n = min replication_factor (length (b_nodes b));
          points = length (b_points b);
          replicas = map (\<lambda>p. rt_walk (b_owner b) n p [0..<points] []) [0..<points]
      in \<lparr>rt_nodes = b_nodes b, rt_points = b_points b, rt_replicas = replicas,
          rt_local_member =
            map (\<lambda>lst. \<exists>idx \<in> set lst. cn_id (b_nodes b ! unat idx) = local_id) replicas\<rparr>)"

definition rt_empty :: "RoutingTable \<Rightarrow> bool" where
  "rt_empty t \<longleftrightarrow> rt_points t = []"

definition point_for :: "string \<Rightarrow> RoutingTable \<Rightarrow> nat" where
  "point_for key t =
     (let it = lower_bound (hash_fn key) (rt_points t)
      in if it = length (rt_points t) then 0 else it)"

definition rt_node :: "u16 \<Rightarrow> RoutingTable \<Rightarrow> CacheNode" where
  "rt_node idx t = rt_nodes t ! unat idx"

definition local_is_replica :: "nat \<Rightarrow> RoutingTable \<Rightarrow> bool" where
  "local_is_replica point t = rt_local_member t ! point"

definition preference_list_at :: "nat \<Rightarrow> RoutingTable \<Rightarrow> CacheNode list" where
  "preference_list_at point t = map (\<lambda>idx. rt_node idx t) (rt_replicas t ! point)"

definition preference_list :: "string \<Rightarrow> RoutingTable \<Rightarrow> CacheNode list" where
  "preference_list key t = (if rt_empty t then [] else preference_list_at (point_for key t) t)"

section \<open>The numbering of the nodes\<close>

text \<open>What the scan has built after the points \<open>ps\<close>: the nodes are numbered without repetition,
  and the owner of each point is the number of its node.\<close>

definition scanned :: "(u32 \<times> CacheNode) list \<Rightarrow> rt_build \<Rightarrow> bool" where
  "scanned ps b \<longleftrightarrow>
     b_nodes b = first_by cn_id {} (map snd ps) \<and>
     b_points b = map fst ps \<and>
     (\<forall>x i. map_of (b_index_of b) x = Some i \<longleftrightarrow>
        unat i < length (b_nodes b) \<and> cn_id (b_nodes b ! unat i) = x) \<and>
     length (b_owner b) = length ps \<and>
     (\<forall>i < length ps. unat (b_owner b ! i) < length (b_nodes b) \<and>
        cn_id (b_nodes b ! unat (b_owner b ! i)) = cn_id (snd (ps ! i)))"

lemma scanned_index_None:
  assumes "scanned ps b" and "length (b_nodes b) \<le> 65536"
  shows "map_of (b_index_of b) x = None \<longleftrightarrow> x \<notin> cn_id ` snd ` set ps"
proof -
  have idx: "\<And>i. map_of (b_index_of b) x = Some i \<longleftrightarrow>
      unat i < length (b_nodes b) \<and> cn_id (b_nodes b ! unat i) = x"
    and ids: "cn_id ` set (b_nodes b) = cn_id ` snd ` set ps"
    using assms(1) by (auto simp: scanned_def first_by_keys image_image)
  have "map_of (b_index_of b) x = Some (of_nat j)"
    if "j < length (b_nodes b)" "cn_id (b_nodes b ! j) = x" for j
    using that assms(2) by (simp add: idx unat_of_nat)
  then have "\<exists>i. map_of (b_index_of b) x = Some i" if "x \<in> cn_id ` set (b_nodes b)"
    using that by (metis image_iff in_set_conv_nth)
  moreover have "x \<in> cn_id ` set (b_nodes b)" if "map_of (b_index_of b) x = Some i" for i
    using that idx by (metis image_eqI nth_mem)
  ultimately show ?thesis unfolding ids by (cases "map_of (b_index_of b) x") auto
qed

lemma scanned_point:
  assumes sc: "scanned ps b" and bound: "length (first_by cn_id {} (map snd (ps @ [p]))) \<le> 65536"
  shows "scanned (ps @ [p]) (rt_point p b)"
proof -
  let ?x = "cn_id (snd p)"
  have nodes: "b_nodes b = first_by cn_id {} (map snd ps)" using sc by (simp add: scanned_def)
  have len: "length (b_nodes b) \<le> 65536"
    using bound by (simp add: nodes first_by_snoc split: if_splits)
  have idx: "\<And>x i. map_of (b_index_of b) x = Some i \<longleftrightarrow>
      unat i < length (b_nodes b) \<and> cn_id (b_nodes b ! unat i) = x"
    and own: "length (b_owner b) = length ps"
      "\<And>i. i < length ps \<Longrightarrow> unat (b_owner b ! i) < length (b_nodes b) \<and>
        cn_id (b_nodes b ! unat (b_owner b ! i)) = cn_id (snd (ps ! i))"
    and pts: "b_points b = map fst ps"
    using sc by (auto simp: scanned_def)
  show ?thesis
  proof (cases "map_of (b_index_of b) ?x")
    case (Some i)
    then have "?x \<in> cn_id ` snd ` set ps" using scanned_index_None [OF sc len, of ?x] by simp
    then have "first_by cn_id {} (map snd (ps @ [p])) = b_nodes b"
      by (simp add: nodes first_by_snoc image_image)
    moreover have "rt_point p b = b\<lparr>b_points := b_points b @ [fst p], b_owner := b_owner b @ [i]\<rparr>"
      using Some by (simp add: rt_point_def Let_def umap_emplace_def)
    moreover have "unat i < length (b_nodes b)" "cn_id (b_nodes b ! unat i) = ?x"
      using Some idx by blast+
    ultimately show ?thesis
      using idx own pts by (auto simp: scanned_def nth_append less_Suc_eq)
  next
    case None
    then have new: "?x \<notin> cn_id ` snd ` set ps" using scanned_index_None [OF sc len, of ?x] by simp
    then have ns: "first_by cn_id {} (map snd (ps @ [p])) = b_nodes b @ [snd p]"
      by (simp add: nodes first_by_snoc image_image)
    with bound have fresh: "unat (of_nat (length (b_nodes b)) :: u16) = length (b_nodes b)"
      by (simp add: unat_of_nat)
    then have fresh_iff: "unat i = length (b_nodes b) \<longleftrightarrow> i = of_nat (length (b_nodes b))" for i :: u16
      by (metis word_unat_eq_iff)
    have "?x \<notin> cn_id ` set (b_nodes b)"
      using new by (simp add: nodes first_by_keys image_image)
    then have "cn_id (b_nodes b ! j) \<noteq> ?x" if "j < length (b_nodes b)" for j
      using that by (metis image_eqI nth_mem)
    moreover have "rt_point p b =
        \<lparr>b_index_of = (?x, of_nat (length (b_nodes b))) # b_index_of b, b_nodes = b_nodes b @ [snd p],
         b_points = b_points b @ [fst p], b_owner = b_owner b @ [of_nat (length (b_nodes b))]\<rparr>"
      using None by (simp add: rt_point_def Let_def umap_emplace_def)
    ultimately show ?thesis
      using ns idx own pts by (auto simp: scanned_def nth_append less_Suc_eq fresh fresh_iff)
  qed
qed

lemma rt_scan_scanned:
  assumes "length (first_by cn_id {} (map snd ps)) \<le> 65536"
  shows "scanned ps (rt_scan ps)"
  using assms
proof (induction ps rule: rev_induct)
  case Nil
  then show ?case by (simp add: scanned_def rt_scan_def)
next
  case (snoc p ps)
  then have "length (first_by cn_id {} (map snd ps)) \<le> 65536"
    by (simp add: first_by_snoc split: if_splits)
  with scanned_point [OF snoc.IH snoc.prems] show ?case by (simp add: rt_scan_def)
qed

section \<open>Agreement with the ring\<close>

lemma rt_walk_first_by:
  "rt_walk owner n p steps lst =
     lst @ take (n - length lst)
       (first_by (\<lambda>x. x) (set lst) (map (\<lambda>s. owner ! ((p + s) mod length owner)) steps))"
proof (induction steps arbitrary: lst)
  case (Cons s steps)
  show ?case
  proof (cases "length lst < n")
    case True
    then have "n - length lst = Suc (n - Suc (length lst))" by simp
    with Cons True show ?thesis by (auto simp: Let_def)
  qed simp
qed simp

lemma walk_rotates: "map (\<lambda>s. xs ! ((p + s) mod length xs)) [0..<length xs] = rotate p xs"
  by (rule nth_equalityI) (simp_all add: nth_rotate)

text \<open>A ring with its scan: each point's number leads back to the point's node.\<close>

lemma scanned_owner_node:
  assumes wf: "ring_wf r" and sc: "scanned (r_ring r) b"
  shows "map (\<lambda>idx. b_nodes b ! unat idx) (b_owner b) = map snd (r_ring r)"
proof (rule nth_equalityI)
  show "length (map (\<lambda>idx. b_nodes b ! unat idx) (b_owner b)) = length (map snd (r_ring r))"
    using sc by (simp add: scanned_def)
next
  fix i assume "i < length (map (\<lambda>idx. b_nodes b ! unat idx) (b_owner b))"
  then have i: "i < length (r_ring r)" using sc by (simp add: scanned_def)
  let ?m = "b_nodes b ! unat (b_owner b ! i)"
  note reg = ring_wf_registered [OF wf]
  have "?m \<in> set (b_nodes b)" "cn_id ?m = cn_id (snd (r_ring r ! i))"
    using sc i by (auto simp: scanned_def)
  moreover have "set (b_nodes b) \<subseteq> snd ` set (r_ring r)"
    using sc first_by_subset [of cn_id "{}" "map snd (r_ring r)"] by (simp add: scanned_def)
  ultimately have "map_of (r_physical_nodes r) (cn_id (snd (r_ring r ! i))) = Some ?m"
    using reg [of ?m] by (metis subsetD)
  moreover have "map_of (r_physical_nodes r) (cn_id (snd (r_ring r ! i))) = Some (snd (r_ring r ! i))"
    using i by (intro reg imageI nth_mem)
  ultimately have "?m = snd (r_ring r ! i)" by (metis option.inject)
  then show "map (\<lambda>idx. b_nodes b ! unat idx) (b_owner b) ! i = map snd (r_ring r) ! i"
    using sc i by (simp add: scanned_def)
qed

lemma scanned_inj:
  assumes "scanned ps b"
  shows "inj_on (\<lambda>idx. cn_id (b_nodes b ! unat idx)) (set (b_owner b))"
proof -
  have d: "distinct (map cn_id (b_nodes b))" using assms by (simp add: scanned_def first_by_keys)
  have "unat x < length (b_nodes b)" if "x \<in> set (b_owner b)" for x
    using assms that by (auto simp: scanned_def in_set_conv_nth)
  with d show ?thesis
    by (auto simp: inj_on_def distinct_conv_nth) (metis word_unat_eq_iff)
qed

lemma walk_preference:
  assumes wf: "ring_wf r" and sc: "scanned (r_ring r) b"
  shows "map (\<lambda>idx. b_nodes b ! unat idx) (rt_walk (b_owner b) n p [0..<length (b_owner b)] []) =
    take n (first_by cn_id {} (map snd (rotate p (r_ring r))))"
proof -
  have "map (\<lambda>idx. b_nodes b ! unat idx) (first_by (\<lambda>x. x) {} (rotate p (b_owner b))) =
      first_by cn_id {} (rotate p (map snd (r_ring r)))"
    using map_first_by [of cn_id "\<lambda>idx. b_nodes b ! unat idx" "{}" "rotate p (b_owner b)"]
      scanned_inj [OF sc] scanned_owner_node [OF wf sc]
    by (simp add: rotate_map [symmetric])
  then show ?thesis
    by (simp add: rt_walk_first_by walk_rotates take_map [symmetric] rotate_map)
qed

text \<open>C18: The precomputed routing table and the ring agree: the table's preference list of every key
  is the ring's, and its flag says whether the local node is in it, for rings with at most 65536
  nodes, the range of the table's 16-bit node indices.\<close>

theorem routing_table_agrees:
  assumes wf: "ring_wf r" and bound: "card (cn_id ` snd ` set (r_ring r)) \<le> 65536"
  shows "preference_list key (new_routing_table r rf local_id) = locate_replicas key rf r
    \<and> (r_ring r \<noteq> [] \<longrightarrow>
        (local_is_replica (point_for key (new_routing_table r rf local_id)) (new_routing_table r rf local_id)
         \<longleftrightarrow> local_id \<in> cn_id ` set (locate_replicas key rf r)))"
proof (cases "r_ring r = []")
  case True
  then show ?thesis
    by (simp add: preference_list_def new_routing_table_def rt_scan_def rt_empty_def Let_def
        locate_replicas_def)
next
  case False
  let ?t = "new_routing_table r rf local_id" and ?b = "rt_scan (r_ring r)"
  define p where "p = point_for key ?t"
  have nodes: "length (first_by cn_id {} (map snd (r_ring r))) = card (cn_id ` snd ` set (r_ring r))"
    using distinct_card [OF first_by_keys(2), of cn_id "{}" "map snd (r_ring r)"]
    by (simp add: first_by_keys image_image)
  with bound have sc: "scanned (r_ring r) ?b" by (simp add: rt_scan_scanned)
  have parts: "b_points ?b = map fst (r_ring r)" "length (b_owner ?b) = length (r_ring r)"
    "length (b_nodes ?b) = card (cn_id ` snd ` set (r_ring r))"
    using sc nodes by (simp_all add: scanned_def)
  have p: "p < length (r_ring r)"
    using False lower_bound_le [of "hash_fn key" "map fst (r_ring r)"]
    by (auto simp: p_def point_for_def new_routing_table_def parts Let_def)
  have "rotate p (r_ring r) = rotate (lower_bound (hash_fn key) (map fst (r_ring r))) (r_ring r)"
    by (simp add: p_def point_for_def new_routing_table_def parts Let_def)
  then have pref: "first_by cn_id {} (map snd (rotate p (r_ring r))) = preference (hash_fn key) (r_ring r)"
    by (simp add: preference_def clockwise_rotate [OF ring_wf_sorted [OF wf]])
  have "length (preference (hash_fn key) (r_ring r)) = length (b_nodes ?b)"
    using distinct_card [OF preference_ids(2)] by (simp add: preference_ids parts)
  then have lst: "map (\<lambda>idx. b_nodes ?b ! unat idx)
      (rt_walk (b_owner ?b) (min rf (length (b_nodes ?b))) p [0..<length (b_owner ?b)] []) =
      locate_replicas key rf r"
    by (simp add: walk_preference [OF wf sc] pref locate_replicas_preference [OF ring_wf_sorted [OF wf]]
        min_def)
  have "preference_list_at p ?t = locate_replicas key rf r"
    using lst p by (simp add: preference_list_at_def rt_node_def new_routing_table_def Let_def parts)
  moreover have "local_is_replica p ?t \<longleftrightarrow> local_id \<in> cn_id ` set (locate_replicas key rf r)"
    unfolding lst [symmetric] using p
    by (auto simp: local_is_replica_def new_routing_table_def Let_def parts)
  moreover have "\<not> rt_empty ?t"
    using False by (simp add: rt_empty_def new_routing_table_def Let_def parts)
  ultimately show ?thesis by (simp add: preference_list_def p_def)
qed

theorem routing_table_agrees_witness:
  "let r = ring_add_node node_b (ring_add_node node_a (new_ring 1))
   in preference_list ''k'' (new_routing_table r 2 ''a'') = locate_replicas ''k'' 2 r"
proof -
  let ?r = "ring_add_node node_b (ring_add_node node_a (new_ring 1))"
  have "snd ` set (r_ring ?r) \<subseteq> {node_a, node_b}"
    by (auto simp: ring_add_node_def split: if_splits)
  then have "cn_id ` snd ` set (r_ring ?r) \<subseteq> {''a'', ''b''}"
    by (auto simp: node_ids dest!: subsetD)
  then have "card (cn_id ` snd ` set (r_ring ?r)) \<le> card {''a'', ''b''}"
    by (rule card_mono [rotated]) simp
  then have "card (cn_id ` snd ` set (r_ring ?r)) \<le> 65536" by simp
  from routing_table_agrees [OF ring_example(2) this] show ?thesis by (simp add: Let_def)
qed

end
