(* ===== verification/Hybrid_Clock.thy ===== *)
theory Hybrid_Clock
  imports Prelude
begin

text \<open>
  The hybrid logical clock (include/shardcache/hybrid_clock.hpp): the two operations as functions
  on the last timestamp, and the compare-and-swap loops that implement them as a step relation
  over any number of threads. Timestamps are unique, strictly increasing in the order of the
  successful swaps and above everything observed before, as long as the 64-bit counter is not
  exhausted; a single observed timestamp of all ones makes the clock start again from zero.
\<close>

definition kLogicalBits :: nat where
  "kLogicalBits = 16"

definition next_timestamp :: "u64 \<Rightarrow> u64 \<Rightarrow> u64" where
  "next_timestamp physical lst = (if lst < physical then physical else lst + 1)"

definition physical_ms :: "u64 \<Rightarrow> u64" where
  "physical_ms timestamp = drop_bit kLogicalBits timestamp"

text \<open>A call that is not disturbed by other threads: the wall clock in milliseconds is an input,
  the new value of \<open>last_\<close> is both stored and returned.\<close>

definition hlc_now :: "u64 \<Rightarrow> u64 \<Rightarrow> u64 \<times> u64" where
  "hlc_now physical_now lst =
     (let nxt = next_timestamp (push_bit kLogicalBits physical_now) lst in (nxt, nxt))"

definition hlc_observe :: "u64 \<Rightarrow> u64 \<Rightarrow> u64" where
  "hlc_observe remote lst = (if lst < remote then remote else lst)"

section \<open>The compare-and-swap loops\<close>

datatype clock_pc =
    Idle
  | InNow u64 u64
  | InObserve u64 u64

text \<open>\<open>k_log\<close> records the timestamps returned by \<open>now\<close> and the values merged by
  \<open>observe\<close> in the order in which the calls took effect.\<close>

datatype clock_event =
    Issued u64
  | Merged u64

record clock =
  k_last :: u64
  k_pc :: "nat \<Rightarrow> clock_pc"
  k_log :: "clock_event list"

definition new_clock :: clock where
  "new_clock = \<lparr>k_last = 0, k_pc = (\<lambda>_. Idle), k_log = []\<rparr>"

text \<open>The bound limits the wall clock readings and the remote timestamps that enter.
  A weak compare-and-swap may fail even when the values agree; both failures reload.\<close>

inductive clock_step :: "u64 \<Rightarrow> clock \<Rightarrow> clock \<Rightarrow> bool" for bound where
  now_load: "k_pc s t = Idle \<Longrightarrow> push_bit kLogicalBits physical_now \<le> bound \<Longrightarrow>
    clock_step bound s
      (s\<lparr>k_pc := (k_pc s)(t := InNow (push_bit kLogicalBits physical_now) (k_last s))\<rparr>)"
| now_swap: "k_pc s t = InNow physical (k_last s) \<Longrightarrow>
    clock_step bound s
      (s\<lparr>k_last := next_timestamp physical (k_last s), k_pc := (k_pc s)(t := Idle),
         k_log := k_log s @ [Issued (next_timestamp physical (k_last s))]\<rparr>)"
| now_retry: "k_pc s t = InNow physical lst \<Longrightarrow>
    clock_step bound s (s\<lparr>k_pc := (k_pc s)(t := InNow physical (k_last s))\<rparr>)"
| observe_load: "k_pc s t = Idle \<Longrightarrow> remote \<le> bound \<Longrightarrow>
    clock_step bound s (s\<lparr>k_pc := (k_pc s)(t := InObserve remote (k_last s))\<rparr>)"
| observe_done: "k_pc s t = InObserve remote lst \<Longrightarrow> \<not> lst < remote \<Longrightarrow>
    clock_step bound s
      (s\<lparr>k_pc := (k_pc s)(t := Idle), k_log := k_log s @ [Merged remote]\<rparr>)"
| observe_swap: "k_pc s t = InObserve remote (k_last s) \<Longrightarrow> k_last s < remote \<Longrightarrow>
    clock_step bound s
      (s\<lparr>k_last := remote, k_pc := (k_pc s)(t := Idle), k_log := k_log s @ [Merged remote]\<rparr>)"
| observe_retry: "k_pc s t = InObserve remote lst \<Longrightarrow> lst < remote \<Longrightarrow>
    clock_step bound s (s\<lparr>k_pc := (k_pc s)(t := InObserve remote (k_last s))\<rparr>)"

inductive_cases clock_stepE: "clock_step bound s s'"

inductive clock_reachable :: "u64 \<Rightarrow> clock \<Rightarrow> bool" for bound where
  init: "clock_reachable bound new_clock"
| step: "clock_reachable bound s \<Longrightarrow> clock_step bound s s' \<Longrightarrow> clock_reachable bound s'"

section \<open>Invariant\<close>

fun event_stamp :: "clock_event \<Rightarrow> u64" where
  "event_stamp (Issued w) = w"
| "event_stamp (Merged w) = w"

text \<open>Every timestamp is above everything issued or merged before it.\<close>

fun issues_increase :: "clock_event list \<Rightarrow> bool" where
  "issues_increase [] = True"
| "issues_increase (e # es) =
     (issues_increase es \<and> (\<forall>w. Issued w \<in> set es \<longrightarrow> event_stamp e < w))"

definition clock_inv :: "u64 \<Rightarrow> clock \<Rightarrow> bool" where
  "clock_inv bound s \<longleftrightarrow>
     unat (k_last s) \<le> unat bound + length (k_log s) \<and>
     (\<forall>t p l. k_pc s t = InNow p l \<longrightarrow> p \<le> bound \<and> l \<le> k_last s) \<and>
     (\<forall>t r l. k_pc s t = InObserve r l \<longrightarrow> r \<le> bound \<and> l \<le> k_last s) \<and>
     (\<forall>e \<in> set (k_log s). event_stamp e \<le> k_last s) \<and>
     issues_increase (k_log s)"

lemma issues_increase_snoc:
  "issues_increase (es @ [e]) \<longleftrightarrow>
     issues_increase es \<and> (\<forall>w. e = Issued w \<longrightarrow> (\<forall>d \<in> set es. event_stamp d < w))"
  by (induction es) auto

lemma unat_plus_one: "w \<noteq> - 1 \<Longrightarrow> unat (w + 1) = Suc (unat w)" for w :: u64
  using unatSuc [of w] by (simp add: add.commute eq_neg_iff_add_eq_0)

lemma next_timestamp_greater: "lst \<noteq> - 1 \<Longrightarrow> lst < next_timestamp physical lst"
  by (simp add: next_timestamp_def word_less_nat_alt unat_plus_one)

lemma next_timestamp_unat:
  "physical \<le> bound \<Longrightarrow> unat lst \<le> unat bound + n \<Longrightarrow>
   unat (next_timestamp physical lst) \<le> unat bound + Suc n"
  by (cases "lst = - 1") (auto simp: next_timestamp_def word_le_nat_alt unat_plus_one)

lemma below_last_not_max:
  fixes bound lst :: u64
  assumes "unat bound + Suc n < 2 ^ 64" "unat lst \<le> unat bound + n"
  shows "lst \<noteq> - 1"
  using assms by (auto simp: unsigned_minus_1_eq_mask mask_eq_exp_minus_1)

lemma clock_inv_step:
  assumes inv: "clock_inv bound s" and "clock_step bound s s'"
    and room: "unat bound + length (k_log s') < 2 ^ 64"
  shows "clock_inv bound s'"
  using assms(2)
proof cases
  case (now_swap t p)
  then have len: "length (k_log s') = Suc (length (k_log s))" by simp
  have prev: "unat (k_last s) \<le> unat bound + length (k_log s)" and p: "p \<le> bound"
    using inv now_swap by (auto simp: clock_inv_def)
  have "k_last s < next_timestamp p (k_last s)"
    using below_last_not_max [OF _ prev] room len by (intro next_timestamp_greater) simp
  with inv next_timestamp_unat [OF p prev] now_swap show ?thesis
    by (auto simp: clock_inv_def issues_increase_snoc
        intro: order.trans [OF _ less_imp_le] order.strict_trans1)
       (meson order.strict_implies_order order.trans)+
next
  case (observe_swap t r)
  then have "r \<le> bound" using inv by (auto simp: clock_inv_def)
  with inv observe_swap show ?thesis
    by (auto simp: clock_inv_def issues_increase_snoc word_le_nat_alt word_less_nat_alt)
       (fastforce simp: word_le_nat_alt word_less_nat_alt)+
next
  case (observe_done t r l)
  then have "r \<le> k_last s" using inv by (auto simp: clock_inv_def not_less intro: order.trans)
  with inv observe_done show ?thesis by (auto simp: clock_inv_def issues_increase_snoc)
qed (use inv in \<open>auto simp: clock_inv_def\<close>)

lemma clock_step_log: "clock_step bound s s' \<Longrightarrow> length (k_log s) \<le> length (k_log s')"
  by (erule clock_stepE) auto

lemma clock_inv_reachable:
  "clock_reachable bound s \<Longrightarrow> unat bound + length (k_log s) < 2 ^ 64 \<Longrightarrow> clock_inv bound s"
proof (induction rule: clock_reachable.induct)
  case init
  show ?case by (simp add: clock_inv_def new_clock_def)
next
  case (step s s')
  with clock_step_log [OF step.hyps(2)] show ?case by (intro clock_inv_step [OF step.IH]) auto
qed

lemma issues_increase_nth:
  "issues_increase es \<Longrightarrow> i < j \<Longrightarrow> j < length es \<Longrightarrow> es ! j = Issued w \<Longrightarrow> event_stamp (es ! i) < w"
proof (induction es arbitrary: i j)
  case (Cons e es)
  obtain j' where j: "j = Suc j'" using Cons.prems(2) by (cases j) auto
  then have "Issued w \<in> set es" using Cons.prems by (auto simp: in_set_conv_nth)
  with Cons j show ?case by (cases i) auto
qed simp

lemma now_uncontended:
  assumes "k_pc s t = Idle" "push_bit kLogicalBits p \<le> bound"
  shows "\<exists>s1 s2. clock_step bound s s1 \<and> clock_step bound s1 s2 \<and>
    k_last s2 = snd (hlc_now p (k_last s)) \<and> k_pc s2 = k_pc s \<and>
    k_log s2 = k_log s @ [Issued (fst (hlc_now p (k_last s)))]"
proof -
  let ?s1 = "s\<lparr>k_pc := (k_pc s)(t := InNow (push_bit kLogicalBits p) (k_last s))\<rparr>"
  have "clock_step bound s ?s1" using assms by (rule now_load)
  moreover have "k_pc ?s1 t = InNow (push_bit kLogicalBits p) (k_last ?s1)" by simp
  note now_swap [OF this]
  ultimately show ?thesis
    using assms(1) by (force simp: hlc_now_def Let_def fun_upd_idem)
qed

section \<open>Properties\<close>

text \<open>C26: With any number of threads in the two compare-and-swap loops, every timestamp that
  \<open>now\<close> issues is above every timestamp issued and every remote timestamp merged before it,
  so timestamps are unique. This needs the inputs to leave room in the 64-bit range for the calls
  made.\<close>

theorem timestamps_increase:
  assumes "clock_reachable bound s" and "unat bound + length (k_log s) < 2 ^ 64"
    and "i < j" "j < length (k_log s)" "k_log s ! j = Issued w"
  shows "event_stamp (k_log s ! i) < w"
  using clock_inv_reachable [OF assms(1,2)] issues_increase_nth [OF _ assms(3-5)]
  by (simp add: clock_inv_def)

lemma clock_example:
  "\<exists>s. clock_reachable 65536 s \<and> k_log s = [Issued 65536, Issued 65537]"
proof -
  have r: "\<exists>s2. clock_reachable 65536 s2 \<and> k_last s2 = snd (hlc_now 1 (k_last s)) \<and> k_pc s2 = k_pc s
      \<and> k_log s2 = k_log s @ [Issued (fst (hlc_now 1 (k_last s)))]"
    if "clock_reachable 65536 s" "k_pc s 0 = Idle" for s
    using now_uncontended [OF that(2), of 1 65536] that(1)
    by (auto simp: kLogicalBits_def intro: clock_reachable.step)
  obtain s1 where s1: "clock_reachable 65536 s1" "k_last s1 = 65536" "k_pc s1 0 = Idle" "k_log s1 = [Issued 65536]"
    using r [OF clock_reachable.init]
    by (auto simp: new_clock_def hlc_now_def next_timestamp_def kLogicalBits_def)
  from r [OF s1(1,3)] s1 show ?thesis
    by (auto simp: hlc_now_def next_timestamp_def kLogicalBits_def)
qed

theorem timestamps_increase_witness:
  "\<exists>s. clock_reachable 65536 s \<and> k_log s = [Issued 65536, Issued 65537]
     \<and> event_stamp (k_log s ! 0) < 65537"
proof -
  obtain s where s: "clock_reachable 65536 s" "k_log s = [Issued 65536, Issued 65537]"
    using clock_example by blast
  have "event_stamp (k_log s ! 0) < 65537"
    by (rule timestamps_increase [OF s(1), of 0 1]) (simp_all add: s(2))
  with s show ?thesis by blast
qed

text \<open>Merging a remote timestamp moves the clock to the larger of the two, and the timestamp
  issued next lies above both, unless one of them is the largest 64-bit value.\<close>

theorem observe_then_now:
  assumes "remote \<noteq> - 1" and "lst \<noteq> - 1"
  shows "hlc_observe remote lst = max lst remote
    \<and> max lst remote < fst (hlc_now p (hlc_observe remote lst))"
  using assms next_timestamp_greater [of "max lst remote" "push_bit kLogicalBits p"]
  by (auto simp: hlc_observe_def hlc_now_def max_def Let_def)

theorem observe_then_now_witness:
  "hlc_observe 9 4 = max 4 9 \<and> max 4 9 < fst (hlc_now 0 (hlc_observe 9 4))"
  by (rule observe_then_now) simp_all

text \<open>A node that merges the all-ones timestamp issues zero next: the counter wraps, and its
  later writes lose to every version already stored.\<close>

theorem all_ones_wraps: "fst (hlc_now p (hlc_observe (- 1) lst)) = 0"
proof -
  have "\<not> - 1 < x" for x :: u64 by (simp add: not_less word_order.extremum)
  then show ?thesis
    using word_order.extremum_unique [of lst] by (auto simp: hlc_observe_def hlc_now_def next_timestamp_def Let_def not_less)
qed

end
