(* ===== verification/Health_Checker.thy ===== *)
theory Health_Checker
  imports Hash_Ring Std_Map
begin

text \<open>
  The health checker (src/health_checker.cpp, health_checker.hpp). The answers of the nodes to one
  round of pings are an input; the callbacks of a round are its result. The two counters start at
  zero and only grow or return to zero, so they are natural numbers here.
\<close>

datatype NodeHealth = Healthy | Suspect | Unhealthy

record NodeHealthState =
  nh_status :: NodeHealth
  nh_failures :: nat
  nh_successes :: nat

record HealthChecker =
  hc_nodes :: "CacheNode list"
  hc_node_states :: "(string \<times> NodeHealthState) list"

definition new_health_state :: NodeHealthState where
  "new_health_state = \<lparr>nh_status = Healthy, nh_failures = 0, nh_successes = 0\<rparr>"

definition new_health_checker :: HealthChecker where
  "new_health_checker = \<lparr>hc_nodes = [], hc_node_states = []\<rparr>"

definition health_add_node :: "CacheNode \<Rightarrow> HealthChecker \<Rightarrow> HealthChecker" where
  "health_add_node node h =
     h\<lparr>hc_nodes := hc_nodes h @ [node],
       hc_node_states := umap_set (cn_id node) new_health_state (hc_node_states h)\<rparr>"

definition health_remove_node :: "string \<Rightarrow> HealthChecker \<Rightarrow> HealthChecker" where
  "health_remove_node node_id h =
     h\<lparr>hc_nodes := filter (\<lambda>n. cn_id n \<noteq> node_id) (hc_nodes h),
       hc_node_states := umap_erase node_id (hc_node_states h)\<rparr>"

definition get_node_health :: "string \<Rightarrow> HealthChecker \<Rightarrow> NodeHealth" where
  "get_node_health node_id h =
     (case map_of (hc_node_states h) node_id of
        Some s \<Rightarrow> nh_status s
      | None \<Rightarrow> Unhealthy)"

text \<open>The state of one node after a ping, and whether it is reported up or down.\<close>

definition record_ping :: "bool \<Rightarrow> NodeHealthState \<Rightarrow> bool option \<times> NodeHealthState" where
  "record_ping healthy s =
     (if healthy then
        (let s = s\<lparr>nh_failures := 0, nh_successes := nh_successes s + 1\<rparr> in
         if nh_status s \<noteq> Healthy \<and> 2 \<le> nh_successes s
         then (Some True, s\<lparr>nh_status := Healthy\<rparr>)
         else (None, s))
      else
        (let s = s\<lparr>nh_successes := 0, nh_failures := nh_failures s + 1\<rparr>;
             s = (if nh_status s = Healthy \<and> 1 \<le> nh_failures s then s\<lparr>nh_status := Suspect\<rparr> else s)
         in if nh_status s \<noteq> Unhealthy \<and> 3 \<le> nh_failures s
            then (Some False, s\<lparr>nh_status := Unhealthy\<rparr>)
            else (None, s)))"

definition node_state :: "string \<Rightarrow> HealthChecker \<Rightarrow> NodeHealthState" where
  "node_state node_id h =
     (case map_of (hc_node_states h) node_id of Some s \<Rightarrow> s | None \<Rightarrow> new_health_state)"

definition check_node ::
    "CacheNode \<Rightarrow> bool \<Rightarrow> HealthChecker \<Rightarrow> (string \<times> bool) list \<times> HealthChecker" where
  "check_node node healthy h =
     (case record_ping healthy (node_state (cn_id node) h) of
        (event, s) \<Rightarrow>
          (case event of Some up \<Rightarrow> [(cn_id node, up)] | None \<Rightarrow> [],
           h\<lparr>hc_node_states := umap_set (cn_id node) s (hc_node_states h)\<rparr>))"

fun check_nodes ::
    "(CacheNode \<Rightarrow> bool) \<Rightarrow> CacheNode list \<Rightarrow> HealthChecker \<Rightarrow> (string \<times> bool) list \<times> HealthChecker" where
  "check_nodes answers [] h = ([], h)"
| "check_nodes answers (node # nodes) h =
     (case check_node node (answers node) h of
        (ev, h') \<Rightarrow> (case check_nodes answers nodes h' of (evs, h'') \<Rightarrow> (ev @ evs, h'')))"

definition run_check :: "(CacheNode \<Rightarrow> bool) \<Rightarrow> HealthChecker \<Rightarrow> (string \<times> bool) list \<times> HealthChecker" where
  "run_check answers h = check_nodes answers (hc_nodes h) h"

text \<open>The worker: one round after another.\<close>

fun run_rounds ::
    "(CacheNode \<Rightarrow> bool) list \<Rightarrow> HealthChecker \<Rightarrow> (string \<times> bool) list \<times> HealthChecker" where
  "run_rounds [] h = ([], h)"
| "run_rounds (r # rounds) h =
     (case run_check r h of (ev, h') \<Rightarrow> (case run_rounds rounds h' of (evs, h'') \<Rightarrow> (ev @ evs, h'')))"

section \<open>One node's history\<close>

text \<open>What the callbacks make of a health flag.\<close>

definition report :: "bool option \<Rightarrow> bool \<Rightarrow> bool" where
  "report event up = (case event of Some b \<Rightarrow> b | None \<Rightarrow> up)"

fun ping_history :: "bool list \<Rightarrow> bool \<times> NodeHealthState \<Rightarrow> bool \<times> NodeHealthState" where
  "ping_history [] s = s"
| "ping_history (b # bs) s =
     (case record_ping b (snd s) of (event, s') \<Rightarrow> ping_history bs (report event (fst s), s'))"

text \<open>A node is down when three pings in a row failed and since then no two in a row succeeded.\<close>

fun two_answers :: "bool list \<Rightarrow> bool" where
  "two_answers (a # b # bs) \<longleftrightarrow> a \<and> b \<or> two_answers (b # bs)"
| "two_answers bs \<longleftrightarrow> False"

definition down :: "bool list \<Rightarrow> bool" where
  "down bs \<longleftrightarrow> (\<exists>xs ys. bs = xs @ [False, False, False] @ ys \<and> \<not> two_answers ys)"

lemma two_answers_snoc: "two_answers (bs @ [b]) \<longleftrightarrow> two_answers bs \<or> b \<and> bs \<noteq> [] \<and> last bs"
  by (induction bs rule: two_answers.induct) auto

definition run_of :: "bool \<Rightarrow> bool list \<Rightarrow> nat" where
  "run_of b bs = length (takeWhile (\<lambda>x. x = b) (rev bs))"

lemma run_of_snoc [simp]: "run_of b (bs @ [c]) = (if b = c then Suc (run_of b bs) else 0)"
  by (auto simp: run_of_def)

lemma run_of_Nil [simp]: "run_of b [] = 0"
  by (simp add: run_of_def)

lemma last_run: "bs \<noteq> [] \<and> last bs \<longleftrightarrow> 1 \<le> run_of True bs"
  by (cases bs rule: rev_cases) auto

lemma ends_fails: "(\<exists>xs. bs = xs @ [False, False]) \<longleftrightarrow> 2 \<le> run_of False bs"
proof (cases bs rule: rev_cases)
  case (snoc as a)
  then show ?thesis by (cases as rule: rev_cases) (auto simp: run_of_def)
qed simp

lemma down_snoc_True: "down (bs @ [True]) \<longleftrightarrow> down bs \<and> run_of True bs = 0"
proof
  assume "down (bs @ [True])"
  then obtain xs ys where d: "bs @ [True] = xs @ [False, False, False] @ ys" "\<not> two_answers ys"
    by (auto simp: down_def)
  then obtain ys' where ys: "ys = ys' @ [True]" by (cases ys rule: rev_cases) auto
  then have bs: "bs = xs @ [False, False, False] @ ys'" using d(1) by simp
  moreover have "\<not> two_answers ys'" "ys' = [] \<or> \<not> last ys'"
    using d(2) by (auto simp: ys two_answers_snoc)
  ultimately have "\<not> last bs" "bs \<noteq> []" by auto
  then show "down bs \<and> run_of True bs = 0"
    using bs \<open>\<not> two_answers ys'\<close> last_run [of bs] by (auto simp: down_def)
next
  assume d: "down bs \<and> run_of True bs = 0"
  then obtain xs ys where bs: "bs = xs @ [False, False, False] @ ys" "\<not> two_answers ys"
    by (auto simp: down_def)
  have "ys = [] \<or> \<not> last ys" using d last_run [of bs] bs(1) by auto
  with bs have "bs @ [True] = xs @ [False, False, False] @ (ys @ [True])" "\<not> two_answers (ys @ [True])"
    by (auto simp: two_answers_snoc)
  then show "down (bs @ [True])" unfolding down_def by blast
qed

lemma down_snoc_False: "down (bs @ [False]) \<longleftrightarrow> down bs \<or> 2 \<le> run_of False bs"
proof
  assume "down (bs @ [False])"
  then obtain xs ys where d: "bs @ [False] = xs @ [False, False, False] @ ys" "\<not> two_answers ys"
    by (auto simp: down_def)
  show "down bs \<or> 2 \<le> run_of False bs"
  proof (cases ys rule: rev_cases)
    case Nil
    with d have "bs = xs @ [False, False]" by simp
    then show ?thesis using ends_fails by blast
  next
    case (snoc ys' y)
    with d have "bs = xs @ [False, False, False] @ ys'" "\<not> two_answers ys'"
      by (auto simp: two_answers_snoc)
    then show ?thesis by (auto simp: down_def)
  qed
next
  assume "down bs \<or> 2 \<le> run_of False bs"
  then show "down (bs @ [False])"
  proof
    assume "down bs"
    then obtain xs ys where "bs = xs @ [False, False, False] @ ys" "\<not> two_answers ys"
      by (auto simp: down_def)
    then have "bs @ [False] = xs @ [False, False, False] @ (ys @ [False])" "\<not> two_answers (ys @ [False])"
      by (auto simp: two_answers_snoc)
    then show ?thesis unfolding down_def by blast
  next
    assume "2 \<le> run_of False bs"
    then obtain xs where "bs = xs @ [False, False]" using ends_fails by blast
    then have "bs @ [False] = xs @ [False, False, False] @ []" "\<not> two_answers []" by auto
    then show ?thesis unfolding down_def by blast
  qed
qed

lemma ping_history_append: "ping_history (as @ bs) s = ping_history bs (ping_history as s)"
  by (induction as s rule: ping_history.induct) (auto split: prod.split)

lemma ping_history_status:
  assumes "ping_history bs (True, new_health_state) = (up, s)"
  shows "nh_failures s = run_of False bs \<and> nh_successes s = run_of True bs \<and>
    (nh_status s = Unhealthy \<longleftrightarrow> down bs) \<and> (nh_status s = Healthy \<longrightarrow> run_of False bs = 0) \<and> (up \<longleftrightarrow> \<not> down bs)"
  using assms
proof (induction bs arbitrary: up s rule: rev_induct)
  case Nil
  then show ?case by (auto simp: new_health_state_def down_def)
next
  case (snoc b bs)
  obtain up' s' where before: "ping_history bs (True, new_health_state) = (up', s')" by fastforce
  note ih = snoc.IH [OF before]
  have step: "(up, s) = (report (fst (record_ping b s')) up', snd (record_ping b s'))"
    using snoc.prems before by (simp add: ping_history_append split: prod.splits)
  have zero: "run_of (\<not> c) bs = 0" if "0 < run_of c bs" for c
    using that by (cases bs rule: rev_cases) (auto split: if_splits)
  show ?case
  proof (cases b)
    case True
    then show ?thesis
      using step ih
      by (cases "nh_status s'") (auto simp: record_ping_def report_def Let_def down_snoc_True split: if_splits)
  next
    case False
    then show ?thesis
      using step ih zero [of True]
      by (cases "nh_status s'") (auto simp: record_ping_def report_def Let_def down_snoc_False split: if_splits)
  qed
qed

section \<open>All nodes\<close>

text \<open>The health flag of a node, as the callbacks leave it.\<close>

definition flag_after :: "(string \<times> bool) list \<Rightarrow> string \<Rightarrow> bool \<Rightarrow> bool" where
  "flag_after events node_id up = foldl (\<lambda>u (id, b). if id = node_id then b else u) up events"

lemma flag_after_append: "flag_after (as @ bs) x up = flag_after bs x (flag_after as x up)"
  by (simp add: flag_after_def)

lemma flag_after_Nil [simp]: "flag_after [] x up = up"
  by (simp add: flag_after_def)

lemma check_node_keeps:
  assumes "check_node node b h = (ev, h')"
  shows "hc_nodes h' = hc_nodes h"
    and "x \<noteq> cn_id node \<Longrightarrow> node_state x h' = node_state x h \<and> flag_after ev x up = up"
    and "node_state (cn_id node) h' = snd (record_ping b (node_state (cn_id node) h))"
    and "flag_after ev (cn_id node) up = report (fst (record_ping b (node_state (cn_id node) h))) up"
  using assms
  by (auto simp: check_node_def node_state_def map_of_umap_set flag_after_def report_def
      split: prod.splits option.splits)

lemma check_nodes_keeps:
  "check_nodes r nodes h = (ev, h') \<Longrightarrow> hc_nodes h' = hc_nodes h \<and>
   (x \<notin> cn_id ` set nodes \<longrightarrow> node_state x h' = node_state x h \<and> flag_after ev x up = up)"
proof (induction nodes arbitrary: h ev up)
  case (Cons n nodes)
  obtain ev1 h1 ev2 where c: "check_node n (r n) h = (ev1, h1)" "check_nodes r nodes h1 = (ev2, h')" "ev = ev1 @ ev2"
    using Cons.prems by (auto split: prod.splits)
  from Cons.IH [OF c(2)] check_node_keeps(1,2) [OF c(1)] c(3) show ?case
    by (auto simp: flag_after_append)
qed simp

lemma check_nodes_one:
  assumes "check_nodes r nodes h = (ev, h')" "distinct (map cn_id nodes)" "n \<in> set nodes"
  shows "(flag_after ev (cn_id n) up, node_state (cn_id n) h') = ping_history [r n] (up, node_state (cn_id n) h)"
  using assms
proof (induction nodes arbitrary: h ev up)
  case (Cons m nodes)
  obtain ev1 h1 ev2 where c: "check_node m (r m) h = (ev1, h1)" "check_nodes r nodes h1 = (ev2, h')" "ev = ev1 @ ev2"
    using Cons.prems by (auto split: prod.splits)
  show ?case
  proof (cases "n = m")
    case True
    then have "cn_id n \<notin> cn_id ` set nodes" using Cons.prems(2) by auto
    with check_nodes_keeps [OF c(2), of "cn_id n"] check_node_keeps(3) [OF c(1)] check_node_keeps(4) [OF c(1), of up] True c(3)
    show ?thesis by (simp add: flag_after_append split: prod.split)
  next
    case False
    then have n: "n \<in> set nodes" and ne: "cn_id n \<noteq> cn_id m" using Cons.prems(2,3) by (auto simp: rev_image_eqI)
    show ?thesis
      using Cons.IH [OF c(2) _ n, of up] Cons.prems(2) check_node_keeps(2) [OF c(1) ne, of up] c(3)
      by (simp add: flag_after_append)
  qed
qed simp

lemma run_rounds_one:
  assumes "run_rounds rounds h = (ev, h')" "distinct (map cn_id (hc_nodes h))" "n \<in> set (hc_nodes h)"
  shows "(flag_after ev (cn_id n) up, node_state (cn_id n) h') =
    ping_history (map (\<lambda>r. r n) rounds) (up, node_state (cn_id n) h)"
  using assms
proof (induction rounds arbitrary: h ev up)
  case (Cons r rounds)
  obtain ev1 h1 ev2 where c: "check_nodes r (hc_nodes h) h = (ev1, h1)" "run_rounds rounds h1 = (ev2, h')" "ev = ev1 @ ev2"
    using Cons.prems by (auto simp: run_check_def split: prod.splits)
  have nodes: "hc_nodes h1 = hc_nodes h" using check_nodes_keeps [OF c(1)] by simp
  have "(flag_after ev (cn_id n) up, node_state (cn_id n) h') =
      ping_history (map (\<lambda>r. r n) rounds) (flag_after ev1 (cn_id n) up, node_state (cn_id n) h1)"
    using Cons.IH [OF c(2), of "flag_after ev1 (cn_id n) up"] Cons.prems(2,3) nodes c(3)
    by (simp add: flag_after_append)
  then show ?case using check_nodes_one [OF c(1) Cons.prems(2,3), of up] by (simp split: prod.splits)
qed simp

text \<open>A checker to which the given nodes were added, and nothing has happened since.\<close>

definition watching :: "CacheNode list \<Rightarrow> HealthChecker" where
  "watching nodes = foldl (\<lambda>h n. health_add_node n h) new_health_checker nodes"

lemma watching_parts: "hc_nodes (watching nodes) = nodes" "node_state x (watching nodes) = new_health_state"
proof (induction nodes rule: rev_induct)
  case (snoc n nodes)
  {
    case 1
    from snoc show ?case by (simp add: watching_def health_add_node_def)
  next
    case 2
    from snoc show ?case
      by (simp add: watching_def health_add_node_def node_state_def map_of_umap_set)
  }
qed (simp_all add: watching_def new_health_checker_def node_state_def)

lemma watching_known: "n \<in> set nodes \<Longrightarrow> map_of (hc_node_states (watching nodes)) (cn_id n) \<noteq> None"
  by (induction nodes rule: rev_induct)
     (auto simp: watching_def health_add_node_def map_of_umap_set)

lemma node_stays_known:
  "check_nodes r nodes h = (ev, h') \<Longrightarrow> map_of (hc_node_states h) x \<noteq> None \<Longrightarrow> map_of (hc_node_states h') x \<noteq> None"
  "run_rounds rounds h = (ev, h') \<Longrightarrow> map_of (hc_node_states h) x \<noteq> None \<Longrightarrow> map_of (hc_node_states h') x \<noteq> None"
proof -
  have nodes: "map_of (hc_node_states h') x \<noteq> None"
    if "check_nodes r nodes h = (ev, h')" "map_of (hc_node_states h) x \<noteq> None" for r nodes h ev h'
    using that
    by (induction nodes arbitrary: h ev) (auto simp: check_node_def map_of_umap_set split: prod.splits)
  then show "check_nodes r nodes h = (ev, h') \<Longrightarrow> map_of (hc_node_states h) x \<noteq> None \<Longrightarrow> map_of (hc_node_states h') x \<noteq> None" .
  show "run_rounds rounds h = (ev, h') \<Longrightarrow> map_of (hc_node_states h) x \<noteq> None \<Longrightarrow> map_of (hc_node_states h') x \<noteq> None"
    by (induction rounds arbitrary: h ev) (auto simp: run_check_def split: prod.splits dest!: nodes)
qed

text \<open>C21: Through any number of rounds of pings, whatever the nodes answer, a node's status is
  unhealthy, and the flag that the callbacks maintain is off, exactly when three of its pings in a
  row have failed and no two in a row have succeeded since.\<close>

theorem health_tracks_pings:
  assumes "distinct (map cn_id nodes)" and "n \<in> set nodes"
    and "run_rounds rounds (watching nodes) = (events, h)"
  shows "(get_node_health (cn_id n) h = Unhealthy \<longleftrightarrow> down (map (\<lambda>r. r n) rounds))
    \<and> (flag_after events (cn_id n) True \<longleftrightarrow> \<not> down (map (\<lambda>r. r n) rounds))"
proof -
  have hist: "ping_history (map (\<lambda>r. r n) rounds) (True, new_health_state) =
      (flag_after events (cn_id n) True, node_state (cn_id n) h)"
    using run_rounds_one [OF assms(3), of n True] assms(1,2) by (simp add: watching_parts)
  obtain s where s: "map_of (hc_node_states h) (cn_id n) = Some s"
    using node_stays_known(2) [OF assms(3)] watching_known [OF assms(2)] by blast
  then show ?thesis
    using ping_history_status [OF hist] by (simp add: get_node_health_def node_state_def)
qed

theorem health_tracks_pings_witness:
  "let h = snd (run_rounds [\<lambda>n. n = node_b, \<lambda>n. False, \<lambda>n. n = node_b] (watching [node_a, node_b]))
   in get_node_health ''a'' h = Unhealthy \<and> get_node_health ''b'' h \<noteq> Unhealthy"
proof -
  let ?rs = "[\<lambda>n. n = node_b, \<lambda>n. False, \<lambda>n. n = node_b]"
  obtain ev h where run: "run_rounds ?rs (watching [node_a, node_b]) = (ev, h)" by fastforce
  have ab: "distinct (map cn_id [node_a, node_b])" "node_a \<noteq> node_b" by (auto simp: node_a_def node_b_def)
  have "down [False, False, False]" unfolding down_def by (intro exI [of _ "[]"]) simp
  moreover have "\<not> down [True, False, True]" by (auto simp: down_def Cons_eq_append_conv)
  ultimately show ?thesis
    using health_tracks_pings [OF ab(1) _ run, of node_a] health_tracks_pings [OF ab(1) _ run, of node_b] ab(2) run
    by (simp add: node_ids)
qed

text \<open>A node that answers again is taken back: whatever state the checker has for it, two
  answered rounds in a row make it healthy and switch its flag on, unless it never was off.\<close>

theorem recovers_after_two_answers:
  assumes "distinct (map cn_id (hc_nodes h))" and "n \<in> set (hc_nodes h)"
    and "run_rounds [r1, r2] h = (events, h')" and "r1 n" and "r2 n"
  shows "nh_status (node_state (cn_id n) h') = Healthy
    \<and> (flag_after events (cn_id n) up \<longleftrightarrow> up \<or> nh_status (node_state (cn_id n) h) \<noteq> Healthy)"
  using run_rounds_one [OF assms(3,1,2), of up] assms(4,5)
  by (auto simp: record_ping_def report_def Let_def split: if_splits)

theorem recovers_after_two_answers_witness:
  "let h = snd (run_rounds [\<lambda>n. False, \<lambda>n. False, \<lambda>n. False] (watching [node_a]));
       h' = snd (run_rounds [\<lambda>n. True, \<lambda>n. True] h)
   in nh_status (node_state ''a'' h') = Healthy"
proof -
  define h where "h = snd (run_rounds [\<lambda>n. False, \<lambda>n. False, \<lambda>n. False] (watching [node_a]))"
  have "hc_nodes h = [node_a]"
    by (simp add: h_def run_check_def check_node_def case_prod_beta watching_parts)
  moreover obtain ev h' where "run_rounds [\<lambda>n. True, \<lambda>n. True] h = (ev, h')" by fastforce
  ultimately show ?thesis
    using recovers_after_two_answers [of h node_a "\<lambda>n. True" "\<lambda>n. True" ev h'] by (simp add: node_ids h_def)
qed

end
