(* ===== verification/Resp.thy ===== *)
theory Resp
  imports Decimal
begin

text \<open>
  The RESP2 codec (src/protocol/resp.cpp and resp.hpp). A buffer is the string of bytes received
  so far; the parsers are called again with a longer buffer after \<open>Incomplete\<close>. Positions are
  as in the sources; \<open>substr\<close> and \<open>find\<close> follow \<open>std::string_view\<close>.
\<close>

section \<open>Data\<close>

datatype RespValue =
    SimpleString string
  | RespError string
  | RespInteger int
  | BulkString string
  | RespNull
  | RespArray "RespValue list"

text \<open>The status together with what the call hands back: the value and the number of bytes
  consumed, or the error text.\<close>

datatype 'a ParseStatus =
    Ok 'a nat
  | Incomplete
  | Error string

definition kMaxBulkLength :: nat where
  "kMaxBulkLength = 64 * 1024 * 1024"

definition kMaxArrayLength :: nat where
  "kMaxArrayLength = 1024 * 1024"

definition kMaxInlineLength :: nat where
  "kMaxInlineLength = 64 * 1024"

abbreviation CR :: char where
  "CR \<equiv> CHR 0x0D"

abbreviation LF :: char where
  "LF \<equiv> CHR 0x0A"

abbreviation crlf :: string where
  "crlf \<equiv> [CR, LF]"

definition substr :: "string \<Rightarrow> nat \<Rightarrow> nat \<Rightarrow> string" where
  "substr buf pos n = take n (drop pos buf)"

fun crlf_at :: "string \<Rightarrow> nat option" where
  "crlf_at (a # b # s) = (if a = CR \<and> b = LF then Some 0 else map_option Suc (crlf_at (b # s)))"
| "crlf_at _ = None"

definition find_crlf :: "string \<Rightarrow> nat \<Rightarrow> nat option" where
  "find_crlf buf pos = map_option ((+) pos) (crlf_at (drop pos buf))"

definition parse_int :: "string \<Rightarrow> int option" where
  "parse_int s =
     (if s = [] then None
      else case from_chars_i64 s of
             Some (out, rest) \<Rightarrow> if rest = [] then Some out else None
           | None \<Rightarrow> None)"

section \<open>Requests\<close>

definition is_blank :: "char \<Rightarrow> bool" where
  "is_blank c \<longleftrightarrow> c = CHR '' '' \<or> c = CHR 0x09"

text \<open>The words of an inline command: skip blanks, stop at the end of the line, take a word.\<close>

function inline_words :: "string \<Rightarrow> string list" where
  "inline_words s =
     (let t = dropWhile is_blank s
      in if t = [] then []
         else takeWhile (\<lambda>c. \<not> is_blank c) t # inline_words (dropWhile (\<lambda>c. \<not> is_blank c) t))"
  by auto
termination
  by (relation "measure length") (simp, simp add: after_word_shorter)

declare inline_words.simps [simp del]

definition parse_inline :: "string \<Rightarrow> string list ParseStatus" where
  "parse_inline buf =
     (let eol = length (takeWhile (\<lambda>c. c \<noteq> LF) buf)
      in if eol = length buf
         then (if kMaxInlineLength < length buf
               then Error ''Protocol error: too big inline request'' else Incomplete)
         else
           (let line = take eol buf;
                line = (if line \<noteq> [] \<and> last line = CR then butlast line else line)
            in Ok (inline_words line) (eol + 1)))"

text \<open>The loop over the bulk strings of a request, counting down what is left.\<close>

fun parse_bulks :: "string \<Rightarrow> nat \<Rightarrow> nat \<Rightarrow> string list \<Rightarrow> string list ParseStatus" where
  "parse_bulks buf 0 pos args = Ok args pos"
| "parse_bulks buf (Suc left) pos args =
     (if length buf \<le> pos then Incomplete
      else if buf ! pos \<noteq> CHR ''$'' then Error (''Protocol error: expected '' @ [CHR 0x27, CHR ''$'', CHR 0x27])
      else
        case find_crlf buf pos of
          None \<Rightarrow> Incomplete
        | Some len_eol \<Rightarrow>
            (case parse_int (substr buf (pos + 1) (len_eol - pos - 1)) of
               None \<Rightarrow> Error ''Protocol error: invalid bulk length''
             | Some len \<Rightarrow>
                 if len < 0 \<or> int kMaxBulkLength < len
                 then Error ''Protocol error: invalid bulk length''
                 else
                   (let data_start = len_eol + 2;
                        data_end = data_start + nat len
                    in if length buf < data_end + 2 then Incomplete
                       else if buf ! data_end \<noteq> CR \<or> buf ! (data_end + 1) \<noteq> LF
                       then Error ''Protocol error: bulk string not terminated by CRLF''
                       else parse_bulks buf left (data_end + 2) (args @ [substr buf data_start (nat len)]))))"

definition parse_request :: "string \<Rightarrow> string list ParseStatus" where
  "parse_request buf =
     (if buf = [] then Incomplete
      else if hd buf \<noteq> CHR ''*'' then parse_inline buf
      else
        case find_crlf buf 0 of
          None \<Rightarrow> Incomplete
        | Some eol \<Rightarrow>
            (case parse_int (substr buf 1 (eol - 1)) of
               None \<Rightarrow> Error ''Protocol error: invalid multibulk length''
             | Some count \<Rightarrow>
                 if count < 0 \<or> int kMaxArrayLength < count
                 then Error ''Protocol error: invalid multibulk length''
                 else parse_bulks buf (nat count) (eol + 2) []))"

section \<open>Replies\<close>

text \<open>\<open>parse_elems\<close> is the loop over the elements of an array; it reads from the suffix that
  the source passes on as \<open>buf.substr(pos)\<close> and returns how far it got.\<close>

function (sequential) parse_reply :: "string \<Rightarrow> RespValue ParseStatus"
  and parse_elems :: "nat \<Rightarrow> string \<Rightarrow> RespValue list ParseStatus" where
  "parse_reply [] = Incomplete"
| "parse_reply (tag # tail) =
     (let buf = tag # tail in
      case find_crlf buf 0 of
        None \<Rightarrow> Incomplete
      | Some eol \<Rightarrow>
          (let line = (if eol = 0 then substr buf 1 (length buf) else substr buf 1 (eol - 1)) in
           if tag = CHR ''+'' then Ok (SimpleString line) (eol + 2)
           else if tag = CHR ''-'' then Ok (RespError line) (eol + 2)
           else if tag = CHR '':'' then
             (case parse_int line of None \<Rightarrow> Error [] | Some n \<Rightarrow> Ok (RespInteger n) (eol + 2))
           else if tag = CHR ''$'' then
             (case parse_int line of
                None \<Rightarrow> Error []
              | Some len \<Rightarrow>
                  if len < -1 \<or> int kMaxBulkLength < len then Error []
                  else if len = -1 then Ok RespNull (eol + 2)
                  else
                    (let start = eol + 2;
                         end_pos = start + nat len
                     in if length buf < end_pos + 2 then Incomplete
                        else Ok (BulkString (substr buf start (nat len))) (end_pos + 2)))
           else if tag = CHR ''*'' then
             (case parse_int line of
                None \<Rightarrow> Error []
              | Some count \<Rightarrow>
                  if count < -1 \<or> int kMaxArrayLength < count then Error []
                  else if count = -1 then Ok RespNull (eol + 2)
                  else
                    (case parse_elems (nat count) (drop (eol + 2) buf) of
                       Ok elements used \<Rightarrow> Ok (RespArray elements) (eol + 2 + used)
                     | Incomplete \<Rightarrow> Incomplete
                     | Error e \<Rightarrow> Error e))
           else Error []))"
| "parse_elems 0 rest = Ok [] 0"
| "parse_elems (Suc n) rest =
     (case parse_reply rest of
        Ok elem used \<Rightarrow>
          (case parse_elems n (drop used rest) of
             Ok elems more \<Rightarrow> Ok (elem # elems) (used + more)
           | Incomplete \<Rightarrow> Incomplete
           | Error e \<Rightarrow> Error e)
      | Incomplete \<Rightarrow> Incomplete
      | Error e \<Rightarrow> Error e)"
  by pat_completeness auto
termination
  by (relation "measures
       [\<lambda>x. case x of Inl buf \<Rightarrow> length buf | Inr (n, rest) \<Rightarrow> length rest,
        \<lambda>x. case x of Inl buf \<Rightarrow> 0 | Inr (n, rest) \<Rightarrow> Suc n]") auto

declare parse_reply.simps [simp del] parse_elems.simps [simp del]

section \<open>Encoders\<close>

definition append_simple :: "string \<Rightarrow> string \<Rightarrow> string" where
  "append_simple out s = out @ ''+'' @ s @ crlf"

definition append_error :: "string \<Rightarrow> string \<Rightarrow> string" where
  "append_error out s = out @ ''-'' @ s @ crlf"

definition append_integer :: "string \<Rightarrow> int \<Rightarrow> string" where
  "append_integer out n = out @ '':'' @ int_to_string n @ crlf"

definition append_bulk :: "string \<Rightarrow> string \<Rightarrow> string" where
  "append_bulk out s = out @ ''$'' @ nat_to_string (length s) @ crlf @ s @ crlf"

definition append_null :: "string \<Rightarrow> string" where
  "append_null out = out @ ''$-1'' @ crlf"

definition append_array_header :: "string \<Rightarrow> nat \<Rightarrow> string" where
  "append_array_header out n = out @ ''*'' @ nat_to_string n @ crlf"

definition command :: "string list \<Rightarrow> string" where
  "command args = foldl append_bulk (append_array_header [] (length args)) args"

section \<open>Finding line ends\<close>

lemma crlf_at_append: "CR \<notin> set s \<Longrightarrow> crlf_at (s @ CR # LF # r) = Some (length s)"
proof (induction s)
  case (Cons a s)
  then show ?case by (cases s) auto
qed simp

lemma crlf_at_None: "CR \<notin> set (butlast t) \<Longrightarrow> crlf_at t = None"
  by (induction t rule: crlf_at.induct) (auto split: if_splits)

lemma crlf_at_Some:
  "crlf_at t = Some e \<Longrightarrow> Suc e < length t \<and> t ! e = CR \<and> t ! Suc e = LF"
  by (induction t arbitrary: e rule: crlf_at.induct) (auto split: if_splits)

lemma crlf_at_more: "crlf_at t = Some e \<Longrightarrow> crlf_at (t @ u) = Some e"
  by (induction t arbitrary: e rule: crlf_at.induct) (auto split: if_splits)

lemma find_crlf_suffix [simp]: "find_crlf (pre @ t) (length pre) = map_option ((+) (length pre)) (crlf_at t)"
  by (simp add: find_crlf_def)

lemma find_crlf_front [simp]: "find_crlf t 0 = crlf_at t"
  by (cases "crlf_at t") (simp_all add: find_crlf_def)

lemma parse_int_to_string: "n < 2 ^ 63 \<Longrightarrow> parse_int (nat_to_string n) = Some (int n)"
  using from_chars_i64_to_string [of "int n"] by (simp add: parse_int_def int_to_string_def)

lemma nat_to_string_no_cr [simp]: "CR \<notin> set (nat_to_string n)"
  by (rule nat_to_string_no) simp

section \<open>Framing of requests\<close>

definition bulk :: "string \<Rightarrow> string" where
  "bulk s = append_bulk [] s"

lemma foldl_append_bulk: "foldl append_bulk out args = out @ concat (map bulk args)"
  by (induction args arbitrary: out) (simp_all add: bulk_def append_bulk_def)

lemma bulk_alt: "bulk s = CHR ''$'' # nat_to_string (length s) @ crlf @ s @ crlf"
  by (simp add: bulk_def append_bulk_def)

lemma parse_bulks_cut_header:
  assumes "t = take m (CHR ''$'' # d @ [CR])" "CR \<notin> set d"
  shows "parse_bulks (pre @ t) (Suc k) (length pre) acc = Incomplete"
proof (cases m)
  case 0
  with assms show ?thesis by simp
next
  case (Suc m')
  have "CR \<notin> set (butlast t)"
    using assms(2) unfolding assms(1)
    by (cases "m \<le> length d + 1")
       (auto simp: take_Cons' butlast_take butlast_append dest!: in_set_butlastD in_set_takeD split: if_splits)
  from crlf_at_None [OF this] assms Suc show ?thesis by (simp add: nth_append)
qed

lemma parse_bulks_header:
  assumes a: "length a \<le> kMaxBulkLength"
    and t: "t = CHR ''$'' # nat_to_string (length a) @ CR # LF # u"
  shows "parse_bulks (pre @ t) (Suc k) (length pre) acc =
    (if length u < length a + 2 then Incomplete
     else if u ! length a \<noteq> CR \<or> u ! (length a + 1) \<noteq> LF
     then Error ''Protocol error: bulk string not terminated by CRLF''
     else parse_bulks (pre @ t) k (length pre + (length t - length u) + length a + 2)
            (acc @ [take (length a) u]))"
proof -
  let ?d = "nat_to_string (length a)"
  have e: "crlf_at t = Some (Suc (length ?d))"
    using crlf_at_append [of "CHR ''$'' # ?d" u] by (simp add: t)
  have "length a < 2 ^ 63" using a by (simp add: kMaxBulkLength_def)
  then have p: "parse_int ?d = Some (int (length a))" by (rule parse_int_to_string)
  have line: "substr (pre @ t) (length pre + 1) (length pre + Suc (length ?d) - length pre - 1) = ?d"
    by (simp add: substr_def t)
  define h where "h = CHR ''$'' # ?d @ crlf"
  have h: "pre @ t = (pre @ h) @ u" "length pre + Suc (length ?d) + 2 = length (pre @ h)"
    by (simp_all add: h_def t)
  have data: "substr (pre @ t) (length pre + Suc (length ?d) + 2) n = take n u"
    "(pre @ t) ! (length pre + Suc (length ?d) + 2 + i) = u ! i" for n i
    unfolding h substr_def using append_eq_conv_conj [of "pre @ h" u "(pre @ h) @ u"]
    by (simp_all only: nth_append_length_plus simp_thms)
  have at: "(pre @ t) ! length pre = CHR ''$''" "\<not> length (pre @ t) \<le> length pre"
    by (simp_all add: t)
  have data_lf: "(pre @ t) ! (length pre + Suc (length ?d) + 2 + length a + 1) = u ! (length a + 1)"
    using data(2) [of "length a + 1"] by (simp only: add.assoc)
  have len: "length (pre @ t) = length pre + Suc (length ?d) + 2 + length u"
    "length pre + (length t - length u) = length pre + Suc (length ?d) + 2"
    by (simp_all add: t)
  show ?thesis
    using a unfolding parse_bulks.simps at if_False find_crlf_suffix e option.map option.case line p Let_def
      nat_int data data_lf len by simp
qed

lemma parse_bulks_frame:
  assumes "\<And>a. a \<in> set args \<Longrightarrow> length a \<le> kMaxBulkLength"
  shows "parse_bulks (pre @ take m (concat (map bulk args) @ rest)) (length args) (length pre) acc =
    (if m < length (concat (map bulk args)) then Incomplete
     else Ok (acc @ args) (length pre + length (concat (map bulk args))))"
  using assms
proof (induction args arbitrary: pre m acc)
  case (Cons a args)
  let ?d = "nat_to_string (length a)" and ?T = "concat (map bulk args) @ rest"
  let ?t = "take m (concat (map bulk (a # args)) @ rest)"
  define hl where "hl = length ?d + 3"
  have blen: "length (bulk a) = hl + length a + 2" by (simp add: bulk_alt hl_def)
  show ?case
  proof (cases "m < hl")
    case True
    then have "?t = take m (CHR ''$'' # ?d @ [CR])"
      by (cases m) (auto simp: bulk_alt hl_def take_Cons' not_less_eq)
    from parse_bulks_cut_header [OF this] True blen show ?thesis by simp
  next
    case False
    define u where "u = take (m - hl) (a @ crlf @ ?T)"
    have t: "?t = CHR ''$'' # ?d @ CR # LF # u"
      using False by (auto simp: bulk_alt hl_def u_def take_Cons' numeral_3_eq_3)
    have lu: "length u < length a + 2 \<longleftrightarrow> m < length (bulk a)"
      using False by (auto simp: u_def blen)
    have a: "length a \<le> kMaxBulkLength" using Cons.prems by simp
    show ?thesis
    proof (cases "m < length (bulk a)")
      case True
      with parse_bulks_header [OF a t, of pre "length args" acc] lu show ?thesis by simp
    next
      case m: False
      have u: "u = a @ crlf @ take (m - length (bulk a)) ?T"
        using m False by (simp add: u_def blen take_Cons')
      have whole: "pre @ ?t = (pre @ bulk a) @ take (m - length (bulk a)) ?T"
        using m by simp
      have fin: "\<not> length u < length a + 2" "\<not> (u ! length a \<noteq> CR \<or> u ! (length a + 1) \<noteq> LF)"
        using lu m by (simp_all add: u nth_append)
      have "length ?t = hl + length u" unfolding t by (simp add: hl_def)
      then have pos: "length pre + (length ?t - length u) + length a + 2 = length (pre @ bulk a)"
        using blen by (simp only: diff_add_inverse2 length_append)
      have ta: "take (length a) u = a" by (simp add: u)
      have "parse_bulks (pre @ ?t) (Suc (length args)) (length pre) acc =
          parse_bulks (pre @ ?t) (length args) (length (pre @ bulk a)) (acc @ [a])"
        using parse_bulks_header [OF a t, of pre "length args" acc]
        by (simp only: fin pos ta if_False)
      also have "\<dots> = parse_bulks ((pre @ bulk a) @ take (m - length (bulk a)) ?T) (length args)
          (length (pre @ bulk a)) (acc @ [a])"
        by (simp only: whole)
      also have "\<dots> = (if m - length (bulk a) < length (concat (map bulk args)) then Incomplete
          else Ok ((acc @ [a]) @ args) (length (pre @ bulk a) + length (concat (map bulk args))))"
        using Cons.prems by (intro Cons.IH) simp
      finally show ?thesis using m by (auto simp: ac_simps)
    qed
  qed
qed simp

lemma command_alt:
  "command args = CHR ''*'' # nat_to_string (length args) @ crlf @ concat (map bulk args)"
  by (simp add: command_def append_array_header_def foldl_append_bulk)

text \<open>A line with its terminator, cut anywhere: the terminator is found exactly when it is there.\<close>

lemma take_line:
  assumes "CR \<notin> set l"
  shows "crlf_at (take m (l @ CR # LF # r)) = (if m < length l + 2 then None else Some (length l))"
proof (cases "m < length l + 2")
  case True
  then have t: "take m (l @ CR # LF # r) = take m (l @ [CR])"
    by (cases "m \<le> length l") (auto simp: take_Cons')
  have "CR \<notin> set (butlast (take m (l @ [CR])))"
    using assms by (cases "m \<le> length l")
      (auto simp: butlast_append dest!: in_set_butlastD in_set_takeD split: if_splits)
  with True t show ?thesis by (simp add: crlf_at_None)
next
  case False
  then have "take m (l @ CR # LF # r) = l @ CR # LF # take (m - length l - 2) r"
    by (simp add: take_Cons' numeral_2_eq_2)
  with False crlf_at_append [OF assms] show ?thesis by simp
qed

section \<open>Properties of requests\<close>

lemma command_framed:
  assumes "length args \<le> kMaxArrayLength" and "\<forall>a \<in> set args. length a \<le> kMaxBulkLength"
  shows "parse_request (take m (command args @ rest)) =
    (if m < length (command args) then Incomplete else Ok args (length (command args)))"
proof -
  let ?d = "nat_to_string (length args)" and ?B = "concat (map bulk args)"
  let ?pre = "CHR ''*'' # ?d @ crlf"
  define buf where "buf = take m (command args @ rest)"
  have full: "command args @ rest = (CHR ''*'' # ?d) @ CR # LF # ?B @ rest" by (simp add: command_alt)
  have crlf: "crlf_at buf = (if m < length ?pre then None else Some (length ?d + 1))"
    unfolding buf_def full by (subst take_line) auto
  show ?thesis
  proof (cases "m < length ?pre")
    case True
    then show ?thesis using crlf by (cases m) (auto simp: buf_def parse_request_def command_alt)
  next
    case False
    have pre: "buf = ?pre @ take (m - length ?pre) (?B @ rest)"
      using False by (simp add: buf_def command_alt take_Cons' numeral_3_eq_3)
    have hd: "buf \<noteq> []" "hd buf = CHR ''*''" unfolding pre by simp_all
    have "length args < 2 ^ 63" using assms(1) by (simp add: kMaxArrayLength_def)
    then have count: "parse_int (substr buf 1 (length ?d + 1 - 1)) = Some (int (length args))"
      unfolding pre by (simp add: substr_def parse_int_to_string)
    have "parse_request buf = parse_bulks buf (length args) (length ?pre) []"
      using hd crlf count False assms(1) by (simp add: parse_request_def)
    also have "\<dots> = (if m - length ?pre < length ?B then Incomplete
        else Ok ([] @ args) (length ?pre + length ?B))"
      unfolding pre using assms(2) by (intro parse_bulks_frame) blast
    finally show ?thesis using False by (auto simp: buf_def command_alt)
  qed
qed

text \<open>C10: Framing. However a command is cut into packets, the request parser asks for more until the
  last byte of the encoded command has arrived, and then returns exactly the arguments and the
  number of bytes they took, whatever follows.\<close>

theorem request_framing:
  assumes "length args \<le> kMaxArrayLength" and "\<forall>a \<in> set args. length a \<le> kMaxBulkLength"
  shows "parse_request (take m (command args @ rest)) =
    (if m < length (command args) then Incomplete else Ok args (length (command args)))"
  using command_framed [OF assms] .

theorem request_framing_witness:
  "parse_request (take 17 (command [''GET'', ''k''] @ ''junk'')) = Incomplete
   \<and> parse_request (take 24 (command [''GET'', ''k''] @ ''junk'')) = Ok [''GET'', ''k''] 20"
proof -
  have len: "length (command [''GET'', ''k'']) = 20"
    by (simp add: command_alt bulk_alt nat_to_string.simps)
  show ?thesis
    using request_framing [of "[''GET'', ''k'']" 17 "''junk''"] request_framing [of "[''GET'', ''k'']" 24 "''junk''"]
    by (auto simp: len kMaxArrayLength_def kMaxBulkLength_def)
qed

lemma find_crlf_bounds:
  assumes "find_crlf buf pos = Some e" shows "pos \<le> e" "e + 1 < length buf"
proof -
  obtain d where d: "crlf_at (drop pos buf) = Some d" "e = pos + d"
    using assms by (auto simp: find_crlf_def)
  from crlf_at_Some [OF d(1)] d(2) show "pos \<le> e" "e + 1 < length buf" by auto
qed

lemma find_crlf_more:
  assumes "find_crlf buf pos = Some e" shows "find_crlf (buf @ more) pos = Some e"
proof -
  obtain d where d: "crlf_at (drop pos buf) = Some d" "e = pos + d"
    using assms by (auto simp: find_crlf_def)
  have "pos \<le> length buf" using crlf_at_Some [OF d(1), THEN conjunct1] by simp
  then have "drop pos (buf @ more) = drop pos buf @ more" by simp
  with crlf_at_more [OF d(1)] d(2) show ?thesis by (simp add: find_crlf_def)
qed

lemma substr_more: "pos + n \<le> length buf \<Longrightarrow> substr (buf @ more) pos n = substr buf pos n"
  by (simp add: substr_def)

text \<open>What one round of the bulk loop did, when the whole parse succeeded.\<close>

lemma parse_bulks_Ok_Suc:
  assumes "parse_bulks buf (Suc left) pos args = Ok res n"
  obtains e len where "pos < length buf" "buf ! pos = CHR ''$''" "find_crlf buf pos = Some e"
    "parse_int (substr buf (pos + 1) (e - pos - 1)) = Some len" "0 \<le> len" "len \<le> int kMaxBulkLength"
    "e + 2 + nat len + 2 \<le> length buf" "buf ! (e + 2 + nat len) = CR" "buf ! (e + 2 + nat len + 1) = LF"
    "parse_bulks buf left (e + 2 + nat len + 2) (args @ [substr buf (e + 2) (nat len)]) = Ok res n"
  using assms by (auto simp: Let_def not_less not_le split: if_splits option.splits)

lemma parse_bulks_Ok:
  "parse_bulks buf left pos args = Ok res n \<Longrightarrow> pos \<le> length buf \<Longrightarrow>
   pos \<le> n \<and> n \<le> length buf \<and> length res = length args + left \<and>
   (\<forall>a \<in> set res. a \<in> set args \<or> length a \<le> kMaxBulkLength) \<and>
   parse_bulks (buf @ more) left pos args = Ok res n"
proof (induction left arbitrary: pos args)
  case (Suc left)
  from Suc.prems(1) show ?case
  proof (cases rule: parse_bulks_Ok_Suc)
    case (1 e len)
    note e = find_crlf_bounds [OF 1(3)]
    from Suc.IH [OF 1(10)] 1(7) have ih: "e + 2 + nat len + 2 \<le> n" "n \<le> length buf"
      "length res = length args + Suc left"
      "\<forall>a \<in> set res. a \<in> set (args @ [substr buf (e + 2) (nat len)]) \<or> length a \<le> kMaxBulkLength"
      "parse_bulks (buf @ more) left (e + 2 + nat len + 2) (args @ [substr buf (e + 2) (nat len)]) = Ok res n"
      by auto
    have "length (substr buf (e + 2) (nat len)) \<le> kMaxBulkLength"
      using 1(6) by (simp add: substr_def)
    moreover have "parse_bulks (buf @ more) (Suc left) pos args = Ok res n"
      using 1 e ih(5) by (simp add: Let_def find_crlf_more [OF 1(3)] substr_more nth_append)
    ultimately show ?thesis using ih e by auto
  qed
qed simp

lemma parse_inline_Ok:
  assumes "parse_inline buf = Ok res n"
  shows "0 < n" "n \<le> length buf" "parse_inline (buf @ more) = Ok res n"
proof -
  let ?l = "takeWhile (\<lambda>c. c \<noteq> LF) buf"
  have ne: "length ?l \<noteq> length buf"
    using assms by (auto simp: parse_inline_def Let_def split: if_splits)
  then have lt: "length ?l < length buf" using length_takeWhile_le [of "\<lambda>c. c \<noteq> LF" buf] by simp
  then have "buf ! length ?l = LF" using nth_length_takeWhile [of "\<lambda>c. c \<noteq> LF" buf] by simp
  then have "LF \<in> set buf" using lt by (metis nth_mem)
  then have same: "takeWhile (\<lambda>c. c \<noteq> LF) (buf @ more) = ?l" by (simp add: takeWhile_append1)
  from assms ne lt show "0 < n" "n \<le> length buf" by (auto simp: parse_inline_def Let_def)
  from assms ne lt same show "parse_inline (buf @ more) = Ok res n"
    by (simp add: parse_inline_def Let_def)
qed

lemma request_Ok:
  assumes "parse_request buf = Ok args n"
  shows "0 < n \<and> n \<le> length buf
    \<and> (hd buf = CHR ''*'' \<longrightarrow> length args \<le> kMaxArrayLength \<and> (\<forall>a \<in> set args. length a \<le> kMaxBulkLength))
    \<and> parse_request (buf @ more) = Ok args n"
proof (cases "hd buf = CHR ''*''")
  case False
  with assms parse_inline_Ok(1,2) [of buf args n] parse_inline_Ok(3) [of buf args n more] show ?thesis
    by (auto simp: parse_request_def split: if_splits)
next
  case True
  from assms have ne: "buf \<noteq> []" by (auto simp: parse_request_def)
  obtain e count where e: "find_crlf buf 0 = Some e" and c: "parse_int (substr buf 1 (e - 1)) = Some count"
    "0 \<le> count" "count \<le> int kMaxArrayLength" and b: "parse_bulks buf (nat count) (e + 2) [] = Ok args n"
    using assms True ne by (auto simp: parse_request_def not_less split: option.splits if_splits)
  note eb = find_crlf_bounds [OF e]
  have "0 < e"
  proof (rule ccontr)
    assume "\<not> 0 < e"
    then have "buf ! 0 = CR" using e crlf_at_Some [of buf 0] by (simp add: find_crlf_def)
    with True ne show False by (cases buf) auto
  qed
  then have "substr (buf @ more) 1 (e - 1) = substr buf 1 (e - 1)"
    using eb by (intro substr_more) simp
  moreover note parse_bulks_Ok [OF b, of more]
  ultimately show ?thesis
    using eb c ne True find_crlf_more [OF e, of more] by (auto simp: parse_request_def)
qed

text \<open>A parsed request made progress within the buffer, respects the limits on the number and
  the length of its bulk strings, and stays the same when more bytes arrive behind it.\<close>

theorem request_bounds:
  assumes "parse_request buf = Ok args n"
  shows "0 < n \<and> n \<le> length buf
    \<and> (hd buf = CHR ''*'' \<longrightarrow> length args \<le> kMaxArrayLength \<and> (\<forall>a \<in> set args. length a \<le> kMaxBulkLength))
    \<and> parse_request (buf @ more) = Ok args n"
  using request_Ok [OF assms] .

theorem request_bounds_witness:
  "parse_request (''PING'' @ crlf) = Ok [''PING''] 6 \<and> parse_request ((''PING'' @ crlf) @ ''x'') = Ok [''PING''] 6"
proof -
  have "parse_request (''PING'' @ crlf) = Ok [''PING''] 6"
    by (simp add: parse_request_def parse_inline_def inline_words.simps is_blank_def Let_def)
  with request_bounds [OF this, of "''x''"] show ?thesis by blast
qed

section \<open>Framing of replies\<close>

text \<open>The bytes of a reply, written with the encoders as the command handler writes them.\<close>

fun reply_bytes :: "RespValue \<Rightarrow> string" where
  "reply_bytes (SimpleString s) = append_simple [] s"
| "reply_bytes (RespError s) = append_error [] s"
| "reply_bytes (RespInteger n) = append_integer [] n"
| "reply_bytes (BulkString s) = append_bulk [] s"
| "reply_bytes RespNull = append_null []"
| "reply_bytes (RespArray vs) = append_array_header [] (length vs) @ concat (map reply_bytes vs)"

text \<open>Line texts without carriage return, 64-bit integers, and lengths within the limits.\<close>

fun encodable :: "RespValue \<Rightarrow> bool" where
  "encodable (SimpleString s) \<longleftrightarrow> CR \<notin> set s"
| "encodable (RespError s) \<longleftrightarrow> CR \<notin> set s"
| "encodable (RespInteger n) \<longleftrightarrow> - (2 ^ 63) \<le> n \<and> n < 2 ^ 63"
| "encodable (BulkString s) \<longleftrightarrow> length s \<le> kMaxBulkLength"
| "encodable RespNull \<longleftrightarrow> True"
| "encodable (RespArray vs) \<longleftrightarrow> length vs \<le> kMaxArrayLength \<and> list_all encodable vs"

definition framed :: "RespValue \<Rightarrow> bool" where
  "framed v \<longleftrightarrow> (\<forall>m rest. parse_reply (take m (reply_bytes v @ rest)) =
     (if m < length (reply_bytes v) then Incomplete else Ok v (length (reply_bytes v))))"

lemma int_to_string_no_cr [simp]: "CR \<notin> set (int_to_string n)"
  by (simp add: int_to_string_def)

lemma parse_int_int_to_string:
  "- (2 ^ 63) \<le> n \<Longrightarrow> n < 2 ^ 63 \<Longrightarrow> parse_int (int_to_string n) = Some n"
  by (simp add: parse_int_def from_chars_i64_to_string) (simp add: int_to_string_def)

lemma reply_line_cut:
  assumes "CR \<notin> set l" "tag \<noteq> CR" "m < length l + 3"
  shows "parse_reply (take m (tag # l @ CR # LF # r)) = Incomplete"
proof (cases m)
  case 0
  then show ?thesis by (simp add: parse_reply.simps)
next
  case (Suc m')
  from assms take_line [of "tag # l" m r] have "crlf_at (take m (tag # l @ CR # LF # r)) = None"
    by simp
  with Suc show ?thesis by (simp add: parse_reply.simps)
qed

lemma reply_line_whole:
  assumes "CR \<notin> set l" "tag \<noteq> CR"
  shows "crlf_at (tag # l @ CR # LF # u) = Some (Suc (length l))"
    and "substr (tag # l @ CR # LF # u) (Suc 0) (length l) = l"
    and "drop (Suc (length l) + 2) (tag # l @ CR # LF # u) = u"
  using assms crlf_at_append [of "tag # l" u] by (auto simp: substr_def)

lemma take_whole_line:
  assumes "\<not> m < length l + 3"
  shows "take m (tag # l @ CR # LF # r) = tag # l @ CR # LF # take (m - (length l + 3)) r"
  using assms by (simp add: take_Cons' numeral_3_eq_3)

lemma framed_line:
  assumes l: "CR \<notin> set l" "tag \<noteq> CR" and v: "reply_bytes v = tag # l @ crlf"
    and p: "\<And>u. parse_reply (tag # l @ CR # LF # u) = Ok v (length l + 3)"
  shows "framed v"
proof -
  have "parse_reply (take m (reply_bytes v @ rest)) =
      (if m < length (reply_bytes v) then Incomplete else Ok v (length (reply_bytes v)))" for m rest
  proof (cases "m < length l + 3")
    case True
    with reply_line_cut [OF l True, of rest] show ?thesis by (simp add: v)
  next
    case False
    with take_whole_line [OF False, of tag rest] p show ?thesis by (simp add: v)
  qed
  then show ?thesis by (simp add: framed_def)
qed

lemma framed_scalars:
  "CR \<notin> set s \<Longrightarrow> framed (SimpleString s)"
  "CR \<notin> set s \<Longrightarrow> framed (RespError s)"
  "- (2 ^ 63) \<le> n \<Longrightarrow> n < 2 ^ 63 \<Longrightarrow> framed (RespInteger n)"
  "framed RespNull"
proof -
  show "framed (SimpleString s)" if "CR \<notin> set s"
    using that by (intro framed_line [where tag = "CHR ''+''" and l = s])
      (simp_all add: append_simple_def parse_reply.simps reply_line_whole Let_def)
  show "framed (RespError s)" if "CR \<notin> set s"
    using that by (intro framed_line [where tag = "CHR ''-''" and l = s])
      (simp_all add: append_error_def parse_reply.simps reply_line_whole Let_def)
  show "framed (RespInteger n)" if "- (2 ^ 63) \<le> n" "n < 2 ^ 63"
    using parse_int_int_to_string [OF that]
    by (intro framed_line [where tag = "CHR '':''" and l = "int_to_string n"])
      (simp_all add: append_integer_def parse_reply.simps reply_line_whole Let_def)
  have minus_one: "int_to_string (- 1) = ''-1''"
    by code_simp
  have "parse_int ''-1'' = Some (- 1)"
    using parse_int_int_to_string [of "- 1"] by (simp add: minus_one)
  then show "framed RespNull"
    using reply_line_whole [of "''-1''" "CHR ''$''"]
    by (intro framed_line [where tag = "CHR ''$''" and l = "''-1''"])
      (simp_all add: append_null_def parse_reply.simps Let_def)
qed

lemma framed_bulk:
  assumes s: "length s \<le> kMaxBulkLength" shows "framed (BulkString s)"
proof -
  let ?d = "nat_to_string (length s)"
  have "length s < 2 ^ 63" using s by (simp add: kMaxBulkLength_def)
  then have p: "parse_int ?d = Some (int (length s))" by (rule parse_int_to_string)
  have bytes: "reply_bytes (BulkString s) = CHR ''$'' # ?d @ CR # LF # s @ crlf"
    by (simp add: append_bulk_def)
  have "parse_reply (take m (reply_bytes (BulkString s) @ rest)) =
      (if m < length (reply_bytes (BulkString s)) then Incomplete
       else Ok (BulkString s) (length (reply_bytes (BulkString s))))" for m rest
  proof (cases "m < length ?d + 3")
    case True
    with reply_line_cut [of ?d "CHR ''$''" m "s @ crlf @ rest"] show ?thesis
      by (simp add: bytes del: reply_bytes.simps take_append)
  next
    case False
    define u where "u = take (m - (length ?d + 3)) (s @ crlf @ rest)"
    have t: "take m (reply_bytes (BulkString s) @ rest) = CHR ''$'' # ?d @ CR # LF # u"
      using take_whole_line [OF False, of "CHR ''$''" "s @ crlf @ rest"] by (simp add: bytes u_def del: reply_bytes.simps take_append)
    have lu: "length u < length s + 2 \<longleftrightarrow> m < length (reply_bytes (BulkString s))"
      using False by (auto simp: u_def bytes simp del: reply_bytes.simps)
    have "take (length s) u = s" if "\<not> length u < length s + 2"
      using that by (simp add: u_def)
    moreover have "substr (CHR ''$'' # ?d @ CR # LF # u) (Suc (length ?d) + 2) (length s) = take (length s) u"
      by (simp only: substr_def reply_line_whole(3) nat_to_string_no_cr simp_thms char.inject)
    ultimately show ?thesis
      using p s lu unfolding t
      by (simp add: parse_reply.simps reply_line_whole Let_def bytes del: reply_bytes.simps)
  qed
  then show ?thesis by (simp add: framed_def)
qed

lemma parse_elems_framed:
  assumes "\<And>v. v \<in> set vs \<Longrightarrow> framed v"
  shows "parse_elems (length vs) (take m (concat (map reply_bytes vs) @ rest)) =
    (if m < length (concat (map reply_bytes vs)) then Incomplete
     else Ok vs (length (concat (map reply_bytes vs))))"
  using assms
proof (induction vs arbitrary: m)
  case (Cons v vs)
  let ?b = "reply_bytes v" and ?r = "concat (map reply_bytes vs) @ rest"
  have v: "parse_reply (take m (?b @ ?r)) = (if m < length ?b then Incomplete else Ok v (length ?b))"
    using Cons.prems [of v] unfolding framed_def by (simp only: list.set insert_iff simp_thms)
  show ?case
  proof (cases "m < length ?b")
    case True
    with v show ?thesis by (auto simp: parse_elems.simps)
  next
    case False
    define r where "r = ?r"
    have rest: "drop (length ?b) (take m (?b @ r)) = take (m - length ?b) r"
      using False by simp
    show ?thesis
      using v False Cons.IH [of "m - length ?b"] Cons.prems
      by (auto simp: parse_elems.simps rest [unfolded r_def] simp del: take_append)
  qed
qed (simp add: parse_elems.simps)

lemma framed_array:
  assumes "length vs \<le> kMaxArrayLength" "\<And>v. v \<in> set vs \<Longrightarrow> framed v"
  shows "framed (RespArray vs)"
proof -
  let ?d = "nat_to_string (length vs)" and ?c = "concat (map reply_bytes vs)"
  have "length vs < 2 ^ 63" using assms(1) by (simp add: kMaxArrayLength_def)
  then have p: "parse_int ?d = Some (int (length vs))" by (rule parse_int_to_string)
  have bytes: "reply_bytes (RespArray vs) = CHR ''*'' # ?d @ CR # LF # ?c"
    by (simp add: append_array_header_def)
  have "parse_reply (take m (reply_bytes (RespArray vs) @ rest)) =
      (if m < length (reply_bytes (RespArray vs)) then Incomplete
       else Ok (RespArray vs) (length (reply_bytes (RespArray vs))))" for m rest
  proof (cases "m < length ?d + 3")
    case True
    with reply_line_cut [of ?d "CHR ''*''" m "?c @ rest"] show ?thesis
      by (simp add: bytes del: reply_bytes.simps take_append)
  next
    case False
    define u where "u = take (m - (length ?d + 3)) (?c @ rest)"
    have t: "take m (reply_bytes (RespArray vs) @ rest) = CHR ''*'' # ?d @ CR # LF # u"
      using take_whole_line [OF False, of "CHR ''*''" "?c @ rest"] by (simp add: bytes u_def del: reply_bytes.simps take_append)
    have els: "parse_elems (length vs) u =
        (if m - (length ?d + 3) < length ?c then Incomplete else Ok vs (length ?c))"
      unfolding u_def using assms(2) by (rule parse_elems_framed)
    show ?thesis
      using p assms(1) els False unfolding t
      by (auto simp: parse_reply.simps reply_line_whole Let_def bytes simp del: reply_bytes.simps)
  qed
  then show ?thesis by (simp add: framed_def)
qed

lemma encodable_framed: "encodable v \<Longrightarrow> framed v"
  by (induction v) (auto simp: framed_scalars framed_bulk framed_array list_all_iff)

lemma parse_reply_bytes: "encodable v \<Longrightarrow> parse_reply (reply_bytes v @ rest) = Ok v (length (reply_bytes v))"
  using encodable_framed [of v]
  by (metis framed_def length_append less_add_same_cancel1 not_add_less1 take_all_iff order_refl)



end
