(* ===== verification/Command_Parser.thy ===== *)
theory Command_Parser
  imports Decimal
begin

text \<open>
  The command parser (src/protocol/parser.cpp, command.hpp): from the argument vector of a request
  to a typed command. A command that is not understood is of type \<open>CmdUnknown\<close> and carries the
  error text of the reply.
\<close>

section \<open>Commands\<close>

datatype CommandType =
    CmdGet | CmdSet | CmdDelete | CmdExists | CmdExpire | CmdTtl | CmdPttl | CmdStats | CmdPing
  | CmdEcho | CmdDbSize | CmdFlushAll | CmdCommandDocs | CmdConfig | CmdSelect | CmdClient | CmdQuit
  | CmdReplSet | CmdReplDelete | CmdReplGet | CmdClusterGossip | CmdClusterNodes | CmdUnknown

record Command =
  cmd_type :: CommandType
  cmd_key :: string
  cmd_keys :: "string list"
  cmd_value :: string
  cmd_ttl_ms :: "u64 option"
  cmd_version :: u64
  cmd_error :: string

definition new_command :: Command where
  "new_command = \<lparr>cmd_type = CmdUnknown, cmd_key = [], cmd_keys = [], cmd_value = [],
     cmd_ttl_ms = None, cmd_version = 0, cmd_error = []\<rparr>"

section \<open>Helpers\<close>

text \<open>\<open>std::toupper\<close> and \<open>std::tolower\<close> in the default locale.\<close>

definition upper_char :: "char \<Rightarrow> char" where
  "upper_char c =
     (if 97 \<le> (of_char c :: nat) \<and> (of_char c :: nat) \<le> 122 then char_of (of_char c - (32 :: nat)) else c)"

definition lower_char :: "char \<Rightarrow> char" where
  "lower_char c =
     (if 65 \<le> (of_char c :: nat) \<and> (of_char c :: nat) \<le> 90 then char_of (of_char c + (32 :: nat)) else c)"

definition to_upper :: "string \<Rightarrow> string" where
  "to_upper str = map upper_char str"

definition to_lower :: "string \<Rightarrow> string" where
  "to_lower str = map lower_char str"

definition parse_u64 :: "string \<Rightarrow> u64 option" where
  "parse_u64 s =
     (case from_chars_u64 s of
        None \<Rightarrow> None
      | Some (v, rest) \<Rightarrow> if rest \<noteq> [] \<or> s = [] then None else Some v)"

definition invalid :: "string \<Rightarrow> Command" where
  "invalid message = new_command\<lparr>cmd_type := CmdUnknown, cmd_error := message\<rparr>"

definition wrong_arity :: "string \<Rightarrow> Command" where
  "wrong_arity verb =
     invalid (''ERR wrong number of arguments for '' @ [CHR 0x27] @ to_lower verb @ [CHR 0x27] @ '' command'')"

definition kMaxTtlSeconds :: u64 where
  "kMaxTtlSeconds = 10 * 365 * 24 * 3600"

text \<open>The options behind a SET; \<open>None\<close> is a syntax error. Seconds are turned into milliseconds
  in 64 bits.\<close>

fun parse_set_options :: "string list \<Rightarrow> Command \<Rightarrow> Command option" where
  "parse_set_options [] cmd = Some cmd"
| "parse_set_options [a] cmd = None"
| "parse_set_options (a # b # args) cmd =
     (let opt = to_upper a in
      if opt = ''EX'' \<or> opt = ''PX'' \<or> opt = ''TTL''
      then
        (case parse_u64 b of
           None \<Rightarrow> None
         | Some n \<Rightarrow>
             if n = 0 then None
             else
               (let ms = (if opt = ''PX'' then n else n * 1000)
                in if kMaxTtlSeconds * 1000 < ms then None
                   else parse_set_options args (cmd\<lparr>cmd_ttl_ms := Some ms\<rparr>)))
      else None)"

section \<open>The parser\<close>

definition parse :: "string list \<Rightarrow> Command" where
  "parse args =
     (if args = [] then invalid ''ERR empty command''
      else
        (let verb = to_upper (args ! 0);
             argc = length args;
             cmd = new_command
         in
         if verb = ''PING'' then
           (if 2 < argc then wrong_arity verb
            else if argc = 2 then cmd\<lparr>cmd_type := CmdPing, cmd_value := args ! 1\<rparr>
            else cmd\<lparr>cmd_type := CmdPing\<rparr>)
         else if verb = ''ECHO'' then
           (if argc \<noteq> 2 then wrong_arity verb else cmd\<lparr>cmd_type := CmdEcho, cmd_value := args ! 1\<rparr>)
         else if verb = ''STATS'' \<or> verb = ''INFO'' then cmd\<lparr>cmd_type := CmdStats\<rparr>
         else if verb = ''DBSIZE'' then cmd\<lparr>cmd_type := CmdDbSize\<rparr>
         else if verb = ''FLUSHALL'' \<or> verb = ''FLUSHDB'' then cmd\<lparr>cmd_type := CmdFlushAll\<rparr>
         else if verb = ''COMMAND'' then cmd\<lparr>cmd_type := CmdCommandDocs\<rparr>
         else if verb = ''CONFIG'' then
           (if 3 \<le> argc \<and> to_upper (args ! 1) = ''GET''
            then cmd\<lparr>cmd_type := CmdConfig, cmd_keys := drop 2 args\<rparr>
            else cmd\<lparr>cmd_type := CmdConfig\<rparr>)
         else if verb = ''SELECT'' then
           (if argc \<noteq> 2 then wrong_arity verb else cmd\<lparr>cmd_type := CmdSelect, cmd_value := args ! 1\<rparr>)
         else if verb = ''CLUSTER'' then
           (if argc < 2 then wrong_arity verb
            else
              (let sub = to_upper (args ! 1) in
               if sub = ''GOSSIP'' then
                 (if (argc - 2) mod 5 \<noteq> 0 then invalid ''ERR malformed gossip payload''
                  else cmd\<lparr>cmd_type := CmdClusterGossip, cmd_keys := drop 2 args\<rparr>)
               else if sub = ''NODES'' then cmd\<lparr>cmd_type := CmdClusterNodes\<rparr>
               else invalid (''ERR unknown CLUSTER subcommand '' @ [CHR 0x27] @ args ! 1 @ [CHR 0x27])))
         else if verb = ''CLIENT'' then cmd\<lparr>cmd_type := CmdClient\<rparr>
         else if verb = ''QUIT'' then cmd\<lparr>cmd_type := CmdQuit\<rparr>
         else if verb = ''GET'' then
           (if argc \<noteq> 2 then wrong_arity verb else cmd\<lparr>cmd_type := CmdGet, cmd_key := args ! 1\<rparr>)
         else if verb = ''SET'' then
           (if argc < 3 then wrong_arity verb
            else
              (case parse_set_options (drop 3 args)
                      (cmd\<lparr>cmd_type := CmdSet, cmd_key := args ! 1, cmd_value := args ! 2\<rparr>) of
                 None \<Rightarrow> invalid ''ERR syntax error''
               | Some c \<Rightarrow> c))
         else if verb = ''REPL_SET'' then
           (if argc < 4 then wrong_arity verb
            else
              (case parse_u64 (args ! 3) of
                 None \<Rightarrow> invalid ''ERR invalid version''
               | Some version \<Rightarrow>
                   (case parse_set_options (drop 4 args)
                           (cmd\<lparr>cmd_type := CmdReplSet, cmd_key := args ! 1, cmd_value := args ! 2,
                                cmd_version := version\<rparr>) of
                      None \<Rightarrow> invalid ''ERR syntax error''
                    | Some c \<Rightarrow> c)))
         else if verb = ''REPL_DEL'' then
           (if argc \<noteq> 3 then wrong_arity verb
            else
              (case parse_u64 (args ! 2) of
                 None \<Rightarrow> invalid ''ERR invalid version''
               | Some version \<Rightarrow>
                   cmd\<lparr>cmd_type := CmdReplDelete, cmd_key := args ! 1, cmd_version := version\<rparr>))
         else if verb = ''REPL_GET'' then
           (if argc \<noteq> 2 then wrong_arity verb else cmd\<lparr>cmd_type := CmdReplGet, cmd_key := args ! 1\<rparr>)
         else if verb = ''DEL'' \<or> verb = ''DELETE'' \<or> verb = ''EXISTS'' then
           (if argc < 2 then wrong_arity verb
            else cmd\<lparr>cmd_type := (if verb = ''EXISTS'' then CmdExists else CmdDelete),
                     cmd_key := args ! 1, cmd_keys := drop 1 args\<rparr>)
         else if verb = ''EXPIRE'' \<or> verb = ''PEXPIRE'' then
           (if argc \<noteq> 3 then wrong_arity verb
            else
              (case parse_u64 (args ! 2) of
                 None \<Rightarrow> invalid ''ERR value is not an integer or out of range''
               | Some n \<Rightarrow>
                   if kMaxTtlSeconds * 1000 < n
                   then invalid ''ERR value is not an integer or out of range''
                   else cmd\<lparr>cmd_type := CmdExpire, cmd_key := args ! 1,
                            cmd_ttl_ms := Some (if verb = ''PEXPIRE'' then n else n * 1000)\<rparr>))
         else if verb = ''TTL'' \<or> verb = ''PTTL'' then
           (if argc \<noteq> 2 then wrong_arity verb
            else cmd\<lparr>cmd_type := (if verb = ''TTL'' then CmdTtl else CmdPttl), cmd_key := args ! 1\<rparr>)
         else invalid (''ERR unknown command '' @ [CHR 0x27] @ args ! 0 @ [CHR 0x27])))"

text \<open>The overload for a text line splits at white space.\<close>

function line_tokens :: "string \<Rightarrow> string list" where
  "line_tokens s =
     (let t = dropWhile is_space s
      in if t = [] then []
         else takeWhile (\<lambda>c. \<not> is_space c) t # line_tokens (dropWhile (\<lambda>c. \<not> is_space c) t))"
  by auto
termination
  by (relation "measure length") (simp, simp add: after_word_shorter)

declare line_tokens.simps [simp del]

definition parse_line :: "string \<Rightarrow> Command" where
  "parse_line line = parse (line_tokens line)"

section \<open>Facts about the options\<close>

lemma parse_set_options_Some:
  "parse_set_options args cmd = Some c \<Longrightarrow>
   cmd_type c = cmd_type cmd \<and> cmd_key c = cmd_key cmd \<and> cmd_keys c = cmd_keys cmd \<and>
   cmd_value c = cmd_value cmd \<and> cmd_version c = cmd_version cmd \<and> cmd_error c = cmd_error cmd \<and>
   (cmd_ttl_ms c = cmd_ttl_ms cmd \<or> (\<exists>ms. cmd_ttl_ms c = Some ms \<and> ms \<le> kMaxTtlSeconds * 1000))"
proof (induction args cmd rule: parse_set_options.induct)
  case (3 a b args cmd)
  from "3.prems" obtain n ms where "parse_set_options args (cmd\<lparr>cmd_ttl_ms := Some ms\<rparr>) = Some c"
    and "ms \<le> kMaxTtlSeconds * 1000" "parse_u64 b = Some n" "n \<noteq> 0"
    "ms = (if to_upper a = ''PX'' then n else n * 1000)"
    "to_upper a = ''EX'' \<or> to_upper a = ''PX'' \<or> to_upper a = ''TTL''"
    by (auto simp: Let_def not_less split: if_splits option.splits)
  with "3.IH" [OF refl _ \<open>parse_u64 b = Some n\<close> \<open>n \<noteq> 0\<close>] show ?case
    by (auto simp: not_less)
qed auto

text \<open>Rules that follow the branches of the parser, for a predicate on the resulting command and for
  a relation between the results of two runs that take the same branches.\<close>

definition coherent :: "Command \<Rightarrow> bool" where
  "coherent c \<longleftrightarrow> (cmd_type c = CmdUnknown \<longleftrightarrow> cmd_error c \<noteq> [])"

definition same_command :: "Command \<Rightarrow> Command \<Rightarrow> bool" where
  "same_command c d \<longleftrightarrow> cmd_type c = cmd_type d \<and> (cmd_type c \<noteq> CmdUnknown \<longrightarrow> c = d)"

lemma if_pred: "P c \<Longrightarrow> P d \<Longrightarrow> P (if b then c else d)"
  by simp

lemma option_pred: "P c \<Longrightarrow> (\<And>x. e = Some x \<Longrightarrow> P (f x)) \<Longrightarrow> P (case e of None \<Rightarrow> c | Some x \<Rightarrow> f x)"
  by (simp split: option.split)

lemma same_command_branches:
  "same_command (if b then c else d) (if b then c' else d') \<longleftrightarrow>
     (if b then same_command c c' else same_command d d')"
  by simp

lemma same_command_refl [simp]: "same_command c c"
  by (simp add: same_command_def)

lemma same_command_invalid: "same_command (invalid m) (invalid m')"
  by (simp add: same_command_def invalid_def)

lemma coherent_invalid: "m \<noteq> [] \<Longrightarrow> coherent (invalid m)" "coherent (wrong_arity v)"
  by (simp_all add: coherent_def invalid_def wrong_arity_def)

lemma coherent_options: "parse_set_options args cmd = Some c \<Longrightarrow> coherent cmd \<Longrightarrow> coherent c"
  by (auto simp: coherent_def dest: parse_set_options_Some)

lemma coherent_new:
  "t \<noteq> CmdUnknown \<Longrightarrow> coherent (new_command\<lparr>cmd_type := t\<rparr>)"
  by (simp add: coherent_def new_command_def)

lemma coherent_fields [simp]:
  "coherent (c\<lparr>cmd_key := k\<rparr>) = coherent c" "coherent (c\<lparr>cmd_keys := ks\<rparr>) = coherent c"
  "coherent (c\<lparr>cmd_value := v\<rparr>) = coherent c" "coherent (c\<lparr>cmd_ttl_ms := t\<rparr>) = coherent c"
  "coherent (c\<lparr>cmd_version := w\<rparr>) = coherent c"
  by (simp_all add: coherent_def)

lemma parse_coherent: "coherent (parse args)"
  unfolding parse_def Let_def
  by (intro if_pred [of coherent] option_pred [of coherent])
     (auto simp: coherent_invalid coherent_new elim!: coherent_options)

section \<open>Properties\<close>

text \<open>A parsed command is of unknown type exactly when it carries an error text, so every
  request gets either its command or an error reply.\<close>

theorem unknown_iff_error: "cmd_type (parse args) = CmdUnknown \<longleftrightarrow> cmd_error (parse args) \<noteq> []"
  using parse_coherent [of args] by (simp add: coherent_def)

lemma cons_args:
  "(a # args) ! 0 = a" "(a # args) ! 1 = args ! 0" "(a # args) ! 2 = args ! 1" "(a # args) ! 3 = args ! 2"
  "drop 1 (a # args) = args" "drop 2 (a # args) = drop 1 args" "drop 3 (a # args) = drop 2 args"
  "drop 4 (a # args) = drop 3 args" "length (a # args) = Suc (length args)" "(a # args = []) = False"
  by (simp_all add: numeral_2_eq_2 numeral_3_eq_3)

text \<open>Command verbs are not case sensitive: two requests whose verbs agree up to case and whose
  remaining arguments are equal have the same type, and are the same command unless both are
  unknown.\<close>

theorem parse_case_insensitive:
  assumes "to_upper a = to_upper b"
  shows "cmd_type (parse (a # args)) = cmd_type (parse (b # args))
    \<and> (cmd_type (parse (a # args)) \<noteq> CmdUnknown \<longrightarrow> parse (a # args) = parse (b # args))"
proof -
  have "same_command (parse (a # args)) (parse (b # args))"
    unfolding parse_def Let_def cons_args assms if_False
    by (simp only: same_command_branches same_command_refl same_command_invalid if_cancel)
  then show ?thesis unfolding same_command_def .
qed

theorem parse_case_insensitive_witness:
  "cmd_type (parse [''get'', ''k'']) = cmd_type (parse [''GET'', ''k''])"
  by (rule parse_case_insensitive [THEN conjunct1]) code_simp

section \<open>Times to live\<close>

definition ttl_bounded :: "Command \<Rightarrow> bool" where
  "ttl_bounded c \<longleftrightarrow>
     (\<forall>ms. cmd_ttl_ms c = Some ms \<longrightarrow> cmd_type c = CmdExpire \<or> ms \<le> kMaxTtlSeconds * 1000)"

lemma ttl_bounded_options:
  "parse_set_options args cmd = Some c \<Longrightarrow> cmd_ttl_ms cmd = None \<Longrightarrow> ttl_bounded c"
  by (auto simp: ttl_bounded_def dest!: parse_set_options_Some)

lemma ttl_bounded_plain:
  "cmd_ttl_ms c = None \<Longrightarrow> ttl_bounded c" "cmd_type c = CmdExpire \<Longrightarrow> ttl_bounded c"
  by (simp_all add: ttl_bounded_def)

lemma parse_ttl_bounded: "ttl_bounded (parse args)"
  unfolding parse_def Let_def
  by (intro if_pred [of ttl_bounded] option_pred [of ttl_bounded])
     (auto simp: invalid_def wrong_arity_def new_command_def intro: ttl_bounded_plain
       elim!: ttl_bounded_options)

text \<open>The time to live of a write, in nanoseconds, stays below two to the power 62, so adding it
  to a clock reading below that power cannot overflow the 64-bit expiry time.\<close>

theorem write_ttl_in_range:
  assumes "cmd_ttl_ms (parse args) = Some ms" and "cmd_type (parse args) \<noteq> CmdExpire"
  shows "ticks_of_millis (uint ms) < 2 ^ 62"
proof -
  have "ms \<le> kMaxTtlSeconds * 1000"
    using parse_ttl_bounded [of args] assms by (simp add: ttl_bounded_def)
  then have "uint ms \<le> 315360000000"
    by (simp add: word_le_def kMaxTtlSeconds_def)
  then show ?thesis by (simp add: ticks_of_millis_def)
qed

lemmas eval_number = parse_u64_def from_chars_u64_def is_digit_def digits_val_def digit_val_def Let_def
lemmas eval_verb = to_upper_def upper_char_def

lemma set_px_example: "parse [''SET'', ''k'', ''v'', ''px'', ''250''] =
  new_command\<lparr>cmd_type := CmdSet, cmd_key := ''k'', cmd_value := ''v'', cmd_ttl_ms := Some 250\<rparr>"
proof -
  have n: "parse_u64 ''250'' = Some 250" by (simp add: eval_number)
  have v: "to_upper ''SET'' = ''SET''" "to_upper ''px'' = ''PX''" by code_simp+
  show ?thesis
    unfolding parse_def Let_def cons_args v by (simp add: n v kMaxTtlSeconds_def)
qed

theorem write_ttl_in_range_witness:
  "cmd_ttl_ms (parse [''SET'', ''k'', ''v'', ''px'', ''250'']) = Some 250 \<and> ticks_of_millis (uint (250 :: u64)) < 2 ^ 62"
proof -
  have t: "cmd_ttl_ms (parse [''SET'', ''k'', ''v'', ''px'', ''250'']) = Some 250"
    and c: "cmd_type (parse [''SET'', ''k'', ''v'', ''px'', ''250'']) \<noteq> CmdExpire"
    by (simp_all add: set_px_example)
  from write_ttl_in_range [OF t c] t show ?thesis by blast
qed

text \<open>The bound does not hold for EXPIRE: the largest number of seconds it accepts is a time to
  live whose nanoseconds exceed the signed 64-bit range of the expiry time.\<close>

theorem expire_ttl_overflows:
  "cmd_ttl_ms (parse [''EXPIRE'', ''k'', ''315360000000'']) = Some 315360000000000
   \<and> 2 ^ 63 \<le> ticks_of_millis (uint (315360000000000 :: u64))"
proof
  have n: "parse_u64 ''315360000000'' = Some 315360000000" by (simp add: eval_number)
  have v: "to_upper ''EXPIRE'' = ''EXPIRE''" by code_simp
  show "cmd_ttl_ms (parse [''EXPIRE'', ''k'', ''315360000000'']) = Some 315360000000000"
    unfolding parse_def Let_def cons_args v by (simp add: n kMaxTtlSeconds_def)
  show "2 ^ 63 \<le> ticks_of_millis (uint (315360000000000 :: u64))" by (simp add: ticks_of_millis_def)
qed

text \<open>Seconds given with EX are multiplied in 64 bits before the limit is checked: a time to
  live of half a billion years is accepted as 384 milliseconds.\<close>

theorem ex_seconds_wrap:
  "cmd_type (parse [''SET'', ''k'', ''v'', ''EX'', ''18446744073709552'']) = CmdSet
   \<and> cmd_ttl_ms (parse [''SET'', ''k'', ''v'', ''EX'', ''18446744073709552'']) = Some 384"
proof -
  have n: "parse_u64 ''18446744073709552'' = Some 18446744073709552" by (simp add: eval_number)
  have v: "to_upper ''SET'' = ''SET''" "to_upper ''EX'' = ''EX''" by code_simp+
  show ?thesis
    unfolding parse_def Let_def cons_args v by (simp add: n v kMaxTtlSeconds_def)
qed

end
