(* ===== verification/Replica_Rpc.thy ===== *)
theory Replica_Rpc
  imports Resp Command_Parser Cache_Entry
begin

text \<open>
  The blocking client and the wire format of the replication calls (src/network/client.cpp,
  client.hpp, request_result.hpp). The socket is an input: a peer maps the bytes of a request to
  the outcome of the write and to what is read afterwards, until the timer fires.
\<close>

section \<open>Results\<close>

datatype RequestStatus = StOk | StNotFound | StTimeout | StConnectionError | StProtocolError

record 'a RequestResult =
  rr_status :: RequestStatus
  rr_value :: "'a option"
  rr_message :: string

definition rr_is_ok :: "'a RequestResult \<Rightarrow> bool" where
  "rr_is_ok r \<longleftrightarrow> rr_status r = StOk"

definition rr_is_not_found :: "'a RequestResult \<Rightarrow> bool" where
  "rr_is_not_found r \<longleftrightarrow> rr_status r = StNotFound"

definition rr_is_error :: "'a RequestResult \<Rightarrow> bool" where
  "rr_is_error r \<longleftrightarrow>
     rr_status r = StTimeout \<or> rr_status r = StConnectionError \<or> rr_status r = StProtocolError"

definition rr_success :: "'a \<Rightarrow> 'a RequestResult" where
  "rr_success v = \<lparr>rr_status = StOk, rr_value = Some v, rr_message = []\<rparr>"

definition rr_not_found :: "'a RequestResult" where
  "rr_not_found = \<lparr>rr_status = StNotFound, rr_value = None, rr_message = []\<rparr>"

definition rr_error :: "RequestStatus \<Rightarrow> string \<Rightarrow> 'a RequestResult" where
  "rr_error st msg = \<lparr>rr_status = st, rr_value = None, rr_message = msg\<rparr>"

text \<open>The \<open>str\<close> member of a reply, which is empty for the kinds that carry no text.\<close>

fun resp_str :: "RespValue \<Rightarrow> string" where
  "resp_str (SimpleString s) = s"
| "resp_str (RespError s) = s"
| "resp_str (BulkString s) = s"
| "resp_str (RespInteger n) = []"
| "resp_str RespNull = []"
| "resp_str (RespArray vs) = []"

section \<open>The client\<close>

record Client =
  cl_connected :: bool
  cl_rx :: string

text \<open>What the socket delivers after the request is written; when nothing more is listed the timer
  fires.\<close>

datatype io_event = Received string | IoError string

type_synonym peer = "string \<Rightarrow> string option \<times> io_event list"

definition new_client :: Client where
  "new_client = \<lparr>cl_connected = False, cl_rx = []\<rparr>"

definition client_connect :: "bool \<Rightarrow> Client \<Rightarrow> bool \<times> Client" where
  "client_connect reachable c = (reachable, c\<lparr>cl_connected := reachable\<rparr>)"

definition client_disconnect :: "Client \<Rightarrow> Client" where
  "client_disconnect c = (if cl_connected c then c\<lparr>cl_connected := False, cl_rx := []\<rparr> else c\<lparr>cl_rx := []\<rparr>)"

fun read_more :: "io_event list \<Rightarrow> Client \<Rightarrow> RespValue RequestResult \<times> Client" where
  "read_more [] c = (rr_error StTimeout ''Operation timed out'', client_disconnect c)"
| "read_more (IoError msg # evs) c = (rr_error StConnectionError msg, client_disconnect c)"
| "read_more (Received chunk # evs) c =
     (let rx = cl_rx c @ chunk in
      case parse_reply rx of
        Ok reply used \<Rightarrow> (rr_success reply, c\<lparr>cl_rx := drop used rx\<rparr>)
      | Error e \<Rightarrow> (rr_error StProtocolError ''Malformed RESP reply'', client_disconnect c)
      | Incomplete \<Rightarrow> read_more evs (c\<lparr>cl_rx := rx\<rparr>))"

definition client_command :: "peer \<Rightarrow> string list \<Rightarrow> Client \<Rightarrow> RespValue RequestResult \<times> Client" where
  "client_command peer args c =
     (if \<not> cl_connected c then (rr_error StConnectionError ''Client is not connected'', c)
      else
        case peer (command args) of
          (Some msg, evs) \<Rightarrow> (rr_error StConnectionError msg, client_disconnect c)
        | (None, evs) \<Rightarrow> read_more evs c)"

text \<open>The reply of a successful call; the members of a result are only read after its status.\<close>

definition on_reply :: "RespValue RequestResult \<Rightarrow> (RespValue \<Rightarrow> 'a RequestResult) \<Rightarrow> 'a RequestResult" where
  "on_reply res f =
     (if \<not> rr_is_ok res then rr_error (rr_status res) (rr_message res)
      else case rr_value res of Some v \<Rightarrow> f v | None \<Rightarrow> rr_error (rr_status res) (rr_message res))"

definition expect_ok_reply :: "RespValue \<Rightarrow> unit RequestResult" where
  "expect_ok_reply v =
     (if v = SimpleString ''OK'' then rr_success () else rr_error StProtocolError (resp_str v))"

definition expect_ok :: "peer \<Rightarrow> string list \<Rightarrow> Client \<Rightarrow> unit RequestResult \<times> Client" where
  "expect_ok peer args c =
     (case client_command peer args c of (res, c') \<Rightarrow> (on_reply res expect_ok_reply, c'))"

definition client_set ::
    "peer \<Rightarrow> string \<Rightarrow> string \<Rightarrow> u64 option \<Rightarrow> Client \<Rightarrow> unit RequestResult \<times> Client" where
  "client_set peer key value ttl_ms c =
     (case ttl_ms of
        Some t \<Rightarrow> expect_ok peer [''SET'', key, value, ''PX'', nat_to_string (unat t)] c
      | None \<Rightarrow> expect_ok peer [''SET'', key, value] c)"

definition client_get :: "peer \<Rightarrow> string \<Rightarrow> Client \<Rightarrow> string RequestResult \<times> Client" where
  "client_get peer key c =
     (case client_command peer [''GET'', key] c of
        (res, c') \<Rightarrow>
          (on_reply res (\<lambda>v. case v of
             RespNull \<Rightarrow> rr_not_found
           | BulkString s \<Rightarrow> rr_success s
           | _ \<Rightarrow> rr_error StProtocolError (resp_str v)), c'))"

definition integer_to_result :: "RespValue RequestResult \<Rightarrow> unit RequestResult" where
  "integer_to_result res =
     on_reply res (\<lambda>v. case v of
       RespInteger n \<Rightarrow> if 0 < n then rr_success () else rr_not_found
     | _ \<Rightarrow> rr_error StProtocolError (resp_str v))"

definition client_remove :: "peer \<Rightarrow> string \<Rightarrow> Client \<Rightarrow> unit RequestResult \<times> Client" where
  "client_remove peer key c =
     (case client_command peer [''DEL'', key] c of (res, c') \<Rightarrow> (integer_to_result res, c'))"

definition client_expire :: "peer \<Rightarrow> string \<Rightarrow> u64 \<Rightarrow> Client \<Rightarrow> unit RequestResult \<times> Client" where
  "client_expire peer key ttl_ms c =
     (case client_command peer [''PEXPIRE'', key, nat_to_string (unat ttl_ms)] c of
        (res, c') \<Rightarrow> (integer_to_result res, c'))"

definition client_pttl :: "peer \<Rightarrow> string \<Rightarrow> Client \<Rightarrow> int RequestResult \<times> Client" where
  "client_pttl peer key c =
     (case client_command peer [''PTTL'', key] c of
        (res, c') \<Rightarrow>
          (on_reply res (\<lambda>v. case v of
             RespInteger n \<Rightarrow> if n = -2 then rr_not_found else rr_success n
           | _ \<Rightarrow> rr_error StProtocolError (resp_str v)), c'))"

definition client_ping :: "peer \<Rightarrow> Client \<Rightarrow> bool \<times> Client" where
  "client_ping peer c =
     (case client_command peer [''PING''] c of
        (res, c') \<Rightarrow>
          (rr_is_ok res \<and> (case rr_value res of Some v \<Rightarrow> resp_str v = ''PONG'' | None \<Rightarrow> False), c'))"

section \<open>Replication calls\<close>

definition replica_write_command :: "string \<Rightarrow> VersionedValue \<Rightarrow> string list" where
  "replica_write_command key v =
     (if vv_tombstone v then [''REPL_DEL'', key, nat_to_string (unat (vv_version v))]
      else
        [''REPL_SET'', key, vv_value v, nat_to_string (unat (vv_version v))] @
        (case vv_ttl v of
           Some t \<Rightarrow> [''PX'', int_to_string (max 1 t)]
         | None \<Rightarrow> []))"

definition replica_get_command :: "string \<Rightarrow> string list" where
  "replica_get_command key = [''REPL_GET'', key]"

definition decode_replica_write :: "RespValue \<Rightarrow> bool RequestResult" where
  "decode_replica_write reply =
     (case reply of
        RespInteger n \<Rightarrow> rr_success (n \<noteq> 0)
      | _ \<Rightarrow> rr_error StProtocolError (resp_str reply))"

definition decode_replica_get :: "RespValue \<Rightarrow> VersionedValue RequestResult" where
  "decode_replica_get r =
     (case r of
        RespNull \<Rightarrow> rr_not_found
      | RespArray [e, RespInteger version, RespInteger tombstone, RespInteger ttl] \<Rightarrow>
          rr_success
            \<lparr>vv_value = resp_str e, vv_version = word_of_int version, vv_tombstone = (tombstone \<noteq> 0),
             vv_ttl = (if 0 \<le> ttl then Some ttl else None)\<rparr>
      | _ \<Rightarrow> rr_error StProtocolError ''Malformed REPL_GET reply'')"

definition replica_write ::
    "peer \<Rightarrow> string \<Rightarrow> VersionedValue \<Rightarrow> Client \<Rightarrow> bool RequestResult \<times> Client" where
  "replica_write peer key v c =
     (case client_command peer (replica_write_command key v) c of
        (res, c') \<Rightarrow> (on_reply res decode_replica_write, c'))"

definition replica_get :: "peer \<Rightarrow> string \<Rightarrow> Client \<Rightarrow> VersionedValue RequestResult \<times> Client" where
  "replica_get peer key c =
     (case client_command peer (replica_get_command key) c of
        (res, c') \<Rightarrow> (on_reply res decode_replica_get, c'))"

section \<open>Facts\<close>

lemma rr_simps [simp]:
  "rr_is_ok (rr_success v)" "\<not> rr_is_ok rr_not_found" "rr_is_ok (rr_error st m) \<longleftrightarrow> st = StOk"
  "rr_value (rr_success v) = Some v" "rr_value (rr_error st m) = None" "rr_value rr_not_found = None"
  "rr_is_not_found rr_not_found" "\<not> rr_is_not_found (rr_success v)"
  "rr_is_not_found (rr_error st m) \<longleftrightarrow> st = StNotFound"
  "rr_status (rr_success v) = StOk" "rr_status (rr_error st m) = st"
  by (simp_all add: rr_is_ok_def rr_is_not_found_def rr_success_def rr_not_found_def rr_error_def)

lemma on_reply_success [simp]: "on_reply (rr_success v) f = f v"
  by (simp add: on_reply_def)

lemma read_more_chunks:
  assumes v: "encodable v"
  shows "cl_rx c @ concat chunks = reply_bytes v @ rest \<Longrightarrow> length (cl_rx c) < length (reply_bytes v) \<Longrightarrow>
    \<exists>k \<le> length chunks. read_more (map Received chunks @ evs) c =
      (rr_success v, c\<lparr>cl_rx := drop (length (reply_bytes v)) (cl_rx c @ concat (take k chunks))\<rparr>)"
proof (induction chunks arbitrary: c)
  case Nil
  then have "length (cl_rx c) = length (reply_bytes v @ rest)" by simp
  with Nil show ?case by simp
next
  case (Cons chunk chunks)
  let ?rx = "cl_rx c @ chunk"
  have whole: "?rx @ concat chunks = reply_bytes v @ rest" using Cons.prems(1) by simp
  then have rx: "?rx = take (length ?rx) (reply_bytes v @ rest)" by (metis append_eq_conv_conj)
  have p: "parse_reply ?rx = (if length ?rx < length (reply_bytes v) then Incomplete else Ok v (length (reply_bytes v)))"
    using encodable_framed [OF v] unfolding framed_def by (subst rx) blast
  show ?case
  proof (cases "length ?rx < length (reply_bytes v)")
    case True
    with Cons.IH [of "c\<lparr>cl_rx := ?rx\<rparr>"] whole obtain k where "k \<le> length chunks"
      "read_more (map Received chunks @ evs) (c\<lparr>cl_rx := ?rx\<rparr>) =
        (rr_success v, c\<lparr>cl_rx := drop (length (reply_bytes v)) (?rx @ concat (take k chunks))\<rparr>)"
      by auto
    with p True show ?thesis by (intro exI [of _ "Suc k"]) (simp add: Let_def)
  next
    case False
    with p show ?thesis by (intro exI [of _ 1]) (simp add: Let_def)
  qed
qed

text \<open>However the network cuts a reply into pieces, and whatever it delivers afterwards, a call
  on a connected client with nothing left over returns the reply that was sent and keeps the
  connection clean for the next call.\<close>

theorem client_reassembles_reply:
  assumes "encodable v" and "concat chunks = reply_bytes v"
    and "peer (command args) = (None, map Received chunks @ evs)"
  shows "client_command peer args \<lparr>cl_connected = True, cl_rx = []\<rparr> =
    (rr_success v, \<lparr>cl_connected = True, cl_rx = []\<rparr>)"
proof -
  let ?c = "\<lparr>cl_connected = True, cl_rx = []\<rparr>"
  have "reply_bytes v \<noteq> []"
    by (cases v) (simp_all add: append_simple_def append_error_def append_integer_def append_bulk_def
        append_null_def append_array_header_def)
  with read_more_chunks [OF assms(1), of ?c chunks "[]" evs] assms(2) obtain k where
    "read_more (map Received chunks @ evs) ?c =
      (rr_success v, ?c\<lparr>cl_rx := drop (length (reply_bytes v)) (concat (take k chunks))\<rparr>)"
    by auto
  moreover have "length (concat (take k chunks)) \<le> length (reply_bytes v)"
    unfolding assms(2) [symmetric]
    by (metis append_take_drop_id concat_append le_add1 length_append)
  ultimately show ?thesis using assms(3) by (simp add: client_command_def)
qed

theorem client_reassembles_reply_witness:
  "client_command (\<lambda>_. (None, map Received ['':'', ''7'', crlf])) [''DBSIZE''] \<lparr>cl_connected = True, cl_rx = []\<rparr> =
    (rr_success (RespInteger 7), \<lparr>cl_connected = True, cl_rx = []\<rparr>)"
proof (rule client_reassembles_reply)
  show "encodable (RespInteger 7)" by simp
  show "concat ['':'', ''7'', crlf] = reply_bytes (RespInteger 7)" by code_simp
  show "(None, map Received ['':'', ''7'', crlf]) = (None, map Received ['':'', ''7'', crlf] @ [])" by simp
qed

lemma parse_u64_to_string [simp]: "parse_u64 (nat_to_string (unat w)) = Some w"
  by (simp add: parse_u64_def from_chars_u64_to_string_word)

lemma int_to_string_u64: "0 \<le> t \<Longrightarrow> t < 2 ^ 64 \<Longrightarrow> int_to_string t = nat_to_string (unat (word_of_int t :: u64))"
  by (simp add: int_to_string_def unat_eq_nat_uint uint_word_of_int)

text \<open>The command a replica sees: a tombstone carries no value, and a time to live is at least one
  millisecond.\<close>

definition received_command :: "string \<Rightarrow> VersionedValue \<Rightarrow> Command" where
  "received_command key v =
     (if vv_tombstone v
      then new_command\<lparr>cmd_type := CmdReplDelete, cmd_key := key, cmd_version := vv_version v\<rparr>
      else new_command\<lparr>cmd_type := CmdReplSet, cmd_key := key, cmd_value := vv_value v,
             cmd_version := vv_version v,
             cmd_ttl_ms := map_option (\<lambda>t. word_of_int (max 1 t)) (vv_ttl v)\<rparr>)"

lemma verbs:
  "to_upper ''REPL_SET'' = ''REPL_SET''" "to_upper ''REPL_DEL'' = ''REPL_DEL''"
  "to_upper ''REPL_GET'' = ''REPL_GET''" "to_upper ''PX'' = ''PX''"
  by code_simp+

lemma parse_replica_write_command:
  assumes "\<And>t. vv_ttl v = Some t \<Longrightarrow> t \<le> 315360000000"
  shows "parse (replica_write_command key v) = received_command key v"
proof (cases "vv_tombstone v")
  case True
  then show ?thesis
    unfolding replica_write_command_def parse_def Let_def received_command_def by (simp add: cons_args verbs)
next
  case False
  show ?thesis
  proof (cases "vv_ttl v")
    case None
    with False show ?thesis
      unfolding replica_write_command_def parse_def Let_def received_command_def
      by (simp add: cons_args verbs new_command_def)
  next
    case (Some t)
    define w :: u64 where "w = word_of_int (max 1 t)"
    have "max 1 t < 2 ^ 64" "max 1 t \<le> 315360000000" using assms [OF Some] by auto
    then have s: "int_to_string (max 1 t) = nat_to_string (unat w)" and u: "uint w = max 1 t"
      by (simp_all add: int_to_string_u64 w_def uint_word_of_int)
    have "w \<noteq> 0" using u by auto
    moreover have "\<not> kMaxTtlSeconds * 1000 < w"
      using u \<open>max 1 t \<le> 315360000000\<close> by (simp add: word_less_def kMaxTtlSeconds_def)
    ultimately show ?thesis
      using False Some
      unfolding replica_write_command_def parse_def Let_def received_command_def
      by (simp add: cons_args verbs new_command_def s w_def [symmetric])
  qed
qed

end
