(* ===== verification/Cluster_State.thy ===== *)
theory Cluster_State
  imports Sharded_Cache Routing_Table Hybrid_Clock Health_Checker Replica_Rpc
begin

text \<open>
  The state of a node's cluster object and the queries on it (src/cluster.cpp, cluster.hpp):
  configuration, membership tables, routing snapshot, hint queues and counters. A published routing
  table carries the epoch under which it was published; the epoch also stands for the identity of
  the shared table object, which the rebalancer compares.
\<close>

section \<open>Data\<close>

datatype Consistency = Quorum | Linearizable

record ClusterConfig =
  cfg_replication_factor :: nat
  cfg_read_quorum :: nat
  cfg_write_quorum :: nat
  cfg_cache_capacity :: nat
  cfg_rpc_timeout :: millis
  cfg_tombstone_ttl :: millis
  cfg_health_check_interval :: millis
  cfg_rpc_threads :: nat
  cfg_peer_channels :: nat
  cfg_peer_io_threads :: nat
  cfg_max_hints_per_node :: nat
  cfg_consistency :: Consistency
  cfg_gossip_interval :: millis

definition default_config :: ClusterConfig where
  "default_config =
     \<lparr>cfg_replication_factor = 3, cfg_read_quorum = 0, cfg_write_quorum = 0,
      cfg_cache_capacity = 100000, cfg_rpc_timeout = 1000, cfg_tombstone_ttl = 60 * 1000,
      cfg_health_check_interval = 1000, cfg_rpc_threads = 32, cfg_peer_channels = 2,
      cfg_peer_io_threads = 2, cfg_max_hints_per_node = 100000, cfg_consistency = Quorum,
      cfg_gossip_interval = 500\<rparr>"

datatype MemberStatus = Alive | Left

record MemberInfo =
  mi_node :: CacheNode
  mi_generation :: u64
  mi_status :: MemberStatus

datatype ReadStatus = Found | NotFound | Unavailable

record ReadResult =
  rd_status :: ReadStatus
  rd_value :: VersionedValue

record WriteResult =
  wr_ok :: bool
  wr_existed :: bool
  wr_acks :: nat

record ClusterStats =
  cs_read_quorum_failures :: u64
  cs_write_quorum_failures :: u64
  cs_read_repairs :: u64
  cs_hints_delivered :: u64
  cs_hints_dropped :: u64
  cs_keys_moved :: u64
  cs_hints_pending :: nat
  cs_healthy_nodes :: nat
  cs_ring_nodes :: nat

record Hint =
  hint_key :: string
  hint_value :: VersionedValue
  hint_deadline :: "ticks option"

type_synonym published_table = "u64 \<times> RoutingTable"

record Cluster =
  cu_config :: ClusterConfig
  cu_local_node :: CacheNode
  cu_clock :: u64
  cu_ring :: ConsistentHashRing
  cu_local_cache :: ShardedCache
  cu_health_checker :: HealthChecker
  cu_nodes :: "(string \<times> CacheNode) list"
  cu_node_health :: "(string \<times> bool) list"
  cu_members :: "(string \<times> MemberInfo) list"
  cu_seeds :: "(string \<times> u16) list"
  cu_rebalance_requested :: bool
  cu_placed_for :: published_table
  cu_keys_moved :: u64
  cu_read_quorum_failures :: u64
  cu_write_quorum_failures :: u64
  cu_read_repairs :: u64
  cu_hints_delivered :: u64
  cu_hints_dropped :: u64
  cu_routing :: published_table
  cu_routing_epoch :: u64
  cu_hints :: "(string \<times> Hint list) list"

abbreviation local_id :: "Cluster \<Rightarrow> string" where
  "local_id c \<equiv> cn_id (cu_local_node c)"

abbreviation routing_table :: "Cluster \<Rightarrow> RoutingTable" where
  "routing_table c \<equiv> snd (cu_routing c)"

section \<open>Routing snapshots\<close>

text \<open>Publishing takes the next value of the process-wide epoch counter. Each thread keeps the last
  table it saw with its epoch and looks again only when the epoch has moved.\<close>

definition publish_routing :: "Cluster \<Rightarrow> Cluster" where
  "publish_routing c =
     (let table = new_routing_table (cu_ring c) (cfg_replication_factor (cu_config c)) (local_id c);
          epoch = cu_routing_epoch c + 1
      in c\<lparr>cu_routing := (epoch, table), cu_routing_epoch := epoch\<rparr>)"

definition routing :: "published_table \<Rightarrow> Cluster \<Rightarrow> RoutingTable \<times> published_table" where
  "routing thread_table c =
     (let thread_table =
            (if fst thread_table \<noteq> cu_routing_epoch c
             then (cu_routing_epoch c, snd (cu_routing c)) else thread_table)
      in (snd thread_table, thread_table))"

section \<open>Construction\<close>

definition init_common :: "u64 \<Rightarrow> Cluster \<Rightarrow> Cluster" where
  "init_common boot_ms c =
     (let l = cu_local_node c;
          c = c\<lparr>cu_ring := ring_add_node l (cu_ring c),
                cu_nodes := umap_set (cn_id l) l (cu_nodes c),
                cu_node_health := umap_set (cn_id l) True (cu_node_health c),
                cu_members := umap_set (cn_id l)
                  \<lparr>mi_node = l, mi_generation = boot_ms, mi_status = Alive\<rparr> (cu_members c)\<rparr>;
          c = publish_routing c
      in c\<lparr>cu_placed_for := cu_routing c\<rparr>)"

definition new_cluster :: "u64 \<Rightarrow> CacheNode \<Rightarrow> ClusterConfig \<Rightarrow> Cluster" where
  "new_cluster boot_ms local config =
     init_common boot_ms
       \<lparr>cu_config = config, cu_local_node = local, cu_clock = 0, cu_ring = new_ring 256,
        cu_local_cache = new_sharded_cache (cfg_cache_capacity config) 16 (cfg_tombstone_ttl config),
        cu_health_checker = new_health_checker, cu_nodes = [], cu_node_health = [], cu_members = [],
        cu_seeds = [], cu_rebalance_requested = False,
        cu_placed_for = (0, new_routing_table (new_ring 256) (cfg_replication_factor config) (cn_id local)),
        cu_keys_moved = 0, cu_read_quorum_failures = 0, cu_write_quorum_failures = 0, cu_read_repairs = 0,
        cu_hints_delivered = 0, cu_hints_dropped = 0,
        cu_routing = (0, new_routing_table (new_ring 256) (cfg_replication_factor config) (cn_id local)),
        cu_routing_epoch = 0, cu_hints = []\<rparr>"

definition legacy_config :: "nat \<Rightarrow> nat \<Rightarrow> ClusterConfig" where
  "legacy_config replication_factor cache_capacity =
     default_config\<lparr>cfg_replication_factor := replication_factor, cfg_cache_capacity := cache_capacity\<rparr>"

section \<open>Queries\<close>

definition node_count :: "Cluster \<Rightarrow> nat" where
  "node_count c = length (rt_nodes (routing_table c))"

definition cluster_preference_list :: "string \<Rightarrow> Cluster \<Rightarrow> CacheNode list" where
  "cluster_preference_list key c = preference_list key (routing_table c)"

definition is_node_healthy :: "string \<Rightarrow> Cluster \<Rightarrow> bool" where
  "is_node_healthy node_id c =
     (case map_of (cu_node_health c) node_id of Some h \<Rightarrow> h | None \<Rightarrow> True)"

text \<open>The first healthy node of the preference list, or its head when none is.\<close>

definition cluster_locate :: "string \<Rightarrow> Cluster \<Rightarrow> CacheNode option" where
  "cluster_locate key c =
     (let replicas = cluster_preference_list key c in
      case List.find (\<lambda>node. is_node_healthy (cn_id node) c) replicas of
        Some node \<Rightarrow> Some node
      | None \<Rightarrow> if replicas \<noteq> [] then Some (hd replicas) else None)"

definition cluster_locate_replicas :: "string \<Rightarrow> nat \<Rightarrow> Cluster \<Rightarrow> CacheNode list" where
  "cluster_locate_replicas key n c = locate_replicas key n (cu_ring c)"

definition set_node_health :: "string \<Rightarrow> bool \<Rightarrow> Cluster \<Rightarrow> Cluster" where
  "set_node_health node_id healthy c =
     c\<lparr>cu_node_health := umap_set node_id healthy (cu_node_health c)\<rparr>"

definition effective_quorum :: "nat \<Rightarrow> nat \<Rightarrow> Cluster \<Rightarrow> nat" where
  "effective_quorum configured replicas c =
     (let q = (if configured \<noteq> 0 then configured else cfg_replication_factor (cu_config c) div 2 + 1)
      in max 1 (min q replicas))"

definition can_serve_locally :: "string \<Rightarrow> bool \<Rightarrow> Cluster \<Rightarrow> bool" where
  "can_serve_locally key is_write c =
     (let table = routing_table c in
      if rt_empty table then False
      else
        (let point = point_for key table in
         if \<not> local_is_replica point table then False
         else
           (let replicas = length (rt_replicas table ! point) in
            if is_write \<or> cfg_consistency (cu_config c) = Linearizable then replicas = 1
            else effective_quorum (cfg_read_quorum (cu_config c)) replicas c = 1)))"

definition pending_hints :: "Cluster \<Rightarrow> nat" where
  "pending_hints c = sum_list (map (\<lambda>(id, queue). length queue) (cu_hints c))"

definition cluster_stats :: "Cluster \<Rightarrow> ClusterStats" where
  "cluster_stats c =
     \<lparr>cs_read_quorum_failures = cu_read_quorum_failures c,
      cs_write_quorum_failures = cu_write_quorum_failures c,
      cs_read_repairs = cu_read_repairs c, cs_hints_delivered = cu_hints_delivered c,
      cs_hints_dropped = cu_hints_dropped c, cs_keys_moved = cu_keys_moved c,
      cs_hints_pending = pending_hints c,
      cs_healthy_nodes = length (filter (\<lambda>(id, node). is_node_healthy id c) (cu_nodes c)),
      cs_ring_nodes = length (cu_nodes c)\<rparr>"

section \<open>Facts\<close>

text \<open>A thread whose table is no older than its epoch always gets the table last published.\<close>

lemma routing_current:
  assumes "fst (cu_routing c) = cu_routing_epoch c" and "fst t = cu_routing_epoch c \<Longrightarrow> t = cu_routing c"
  shows "routing t c = (routing_table c, cu_routing c)"
  using assms by (cases "cu_routing c") (auto simp: routing_def Let_def)

end
