(* ===== verification/Membership.thy ===== *)
theory Membership
  imports Cluster_State
begin

text \<open>
  Membership by gossip (src/cluster.cpp, the membership section): the table of members with their
  generations, the nodes and the ring that follow it, the exchange of views, and a node's
  departure. What a peer answers is an input.
\<close>

section \<open>Operations\<close>

text \<open>Apply one entry; the result tells whether the ring changed. Added nodes and removed ids are
  collected for the work that follows the change.\<close>

type_synonym change = "CacheNode list \<times> string list"

definition install_member :: "MemberInfo \<Rightarrow> Cluster \<Rightarrow> change \<Rightarrow> bool \<times> Cluster \<times> change" where
  "install_member m c chg =
     (let id = cn_id (mi_node m);
          c = c\<lparr>cu_members := umap_set id m (cu_members c)\<rparr>;
          in_ring = (map_of (cu_nodes c) id \<noteq> None)
      in if mi_status m = Alive \<and> \<not> in_ring
         then (True,
               c\<lparr>cu_nodes := umap_set id (mi_node m) (cu_nodes c),
                 cu_ring := ring_add_node (mi_node m) (cu_ring c),
                 cu_node_health := umap_set id True (cu_node_health c)\<rparr>,
               (fst chg @ [mi_node m], snd chg))
         else if mi_status m = Left \<and> in_ring
         then (True,
               c\<lparr>cu_ring := ring_remove_node id (cu_ring c),
                 cu_nodes := umap_erase id (cu_nodes c),
                 cu_node_health := umap_erase id (cu_node_health c)\<rparr>,
               (fst chg, snd chg @ [id]))
         else (False, c, chg))"

definition apply_member :: "MemberInfo \<Rightarrow> Cluster \<Rightarrow> change \<Rightarrow> bool \<times> Cluster \<times> change" where
  "apply_member m c chg =
     (let id = cn_id (mi_node m) in
      case map_of (cu_members c) id of
        Some known \<Rightarrow>
          if mi_generation m \<le> mi_generation known then (False, c, chg)
          else if id = local_id c
          then (False,
                c\<lparr>cu_members := umap_set id (known\<lparr>mi_generation := mi_generation m + 1\<rparr>) (cu_members c)\<rparr>,
                chg)
          else install_member m c chg
      | None \<Rightarrow> install_member m c chg)"

fun apply_members :: "MemberInfo list \<Rightarrow> bool \<times> Cluster \<times> change \<Rightarrow> bool \<times> Cluster \<times> change" where
  "apply_members [] st = st"
| "apply_members (m # ms) (changed, c, chg) =
     (case apply_member m c chg of (b, c', chg') \<Rightarrow> apply_members ms (b \<or> changed, c', chg'))"

definition after_membership_change :: "change \<Rightarrow> Cluster \<Rightarrow> Cluster" where
  "after_membership_change chg c =
     (let h = foldl (\<lambda>h node. if cn_id node \<noteq> local_id c then health_add_node node h else h)
                (cu_health_checker c) (fst chg);
          h = foldl (\<lambda>h id. health_remove_node id h) h (snd chg);
          c = c\<lparr>cu_health_checker := h\<rparr>
      in if fst chg \<noteq> [] \<or> snd chg \<noteq> [] then c\<lparr>cu_rebalance_requested := True\<rparr> else c)"

definition members :: "Cluster \<Rightarrow> MemberInfo list" where
  "members c = map snd (cu_members c)"

definition merge_gossip :: "MemberInfo list \<Rightarrow> Cluster \<Rightarrow> MemberInfo list \<times> Cluster" where
  "merge_gossip remote c =
     (case apply_members remote (False, c, ([], [])) of
        (changed, c, chg) \<Rightarrow>
          (let c = (if changed then publish_routing c else c)
           in (members c, after_membership_change chg c)))"

text \<open>Statically configured peers enter at generation zero.\<close>

definition cluster_add_node :: "CacheNode \<Rightarrow> Cluster \<Rightarrow> Cluster" where
  "cluster_add_node node c =
     snd (merge_gossip [\<lparr>mi_node = node, mi_generation = 0, mi_status = Alive\<rparr>] c)"

definition cluster_remove_node :: "string \<Rightarrow> Cluster \<Rightarrow> Cluster" where
  "cluster_remove_node node_id c =
     (case map_of (cu_members c) node_id of
        None \<Rightarrow> c
      | Some known \<Rightarrow>
          (let gone = known\<lparr>mi_generation := mi_generation known + 1, mi_status := Left\<rparr>
           in case apply_member gone c ([], []) of (_, c', chg) \<Rightarrow> after_membership_change chg c'))"

definition add_seed :: "string \<Rightarrow> u16 \<Rightarrow> Cluster \<Rightarrow> Cluster" where
  "add_seed host port c = c\<lparr>cu_seeds := cu_seeds c @ [(host, port)]\<rparr>"

section \<open>The exchange of views\<close>

definition member_args :: "MemberInfo \<Rightarrow> string list" where
  "member_args m =
     [cn_id (mi_node m), cn_host (mi_node m), nat_to_string (unat (cn_port (mi_node m))),
      nat_to_string (unat (mi_generation m)), if mi_status m = Alive then ''alive'' else ''left'']"

definition gossip_args :: "Cluster \<Rightarrow> string list" where
  "gossip_args c = [''CLUSTER'', ''GOSSIP''] @ concat (map member_args (members c))"

text \<open>Five fields per entry; an incomplete rest is ignored, a bad number gives up.\<close>

fun parse_members :: "string list \<Rightarrow> MemberInfo list option" where
  "parse_members (node_id # host # port # generation # status # rest) =
     (case stoi port of
        None \<Rightarrow> None
      | Some p \<Rightarrow>
          (case stoull generation of
             None \<Rightarrow> None
           | Some g \<Rightarrow>
               (case parse_members rest of
                  None \<Rightarrow> None
                | Some ms \<Rightarrow>
                    Some (\<lparr>mi_node = \<lparr>cn_id = node_id, cn_host = host, cn_port = word_of_int p\<rparr>,
                           mi_generation = g,
                           mi_status = (if status = ''left'' then Left else Alive)\<rparr> # ms))))"
| "parse_members _ = Some []"

text \<open>\<open>None\<close> is a peer that could not be reached.\<close>

definition exchange_gossip :: "RespValue RequestResult option \<Rightarrow> Cluster \<Rightarrow> bool \<times> Cluster" where
  "exchange_gossip response c =
     (case response of
        None \<Rightarrow> (False, c)
      | Some res \<Rightarrow>
          if \<not> rr_is_ok res then (False, c)
          else
            (case rr_value res of
               Some (RespArray e) \<Rightarrow>
                 (case parse_members (map resp_str e) of
                    None \<Rightarrow> (False, c)
                  | Some remote \<Rightarrow> (True, snd (merge_gossip remote c)))
             | _ \<Rightarrow> (False, c)))"

text \<open>One round: the peer and the seed are picked at random, so the picks are inputs, and so is what
  an address answers.\<close>

definition gossip_peers :: "Cluster \<Rightarrow> CacheNode list" where
  "gossip_peers c =
     map snd (filter (\<lambda>(id, node). id \<noteq> local_id c \<and> is_node_healthy id c) (cu_nodes c))"

definition gossip_once ::
    "nat \<Rightarrow> nat \<Rightarrow> (string \<Rightarrow> u16 \<Rightarrow> RespValue RequestResult option) \<Rightarrow> Cluster \<Rightarrow> Cluster" where
  "gossip_once pick_peer pick_seed net c =
     (let peers = gossip_peers c;
          seeds = cu_seeds c;
          c = (if peers \<noteq> []
               then (let peer = peers ! (pick_peer mod length peers)
                     in snd (exchange_gossip (net (cn_host peer) (cn_port peer)) c))
               else c)
      in if seeds \<noteq> [] \<and> length peers < 2
         then (let seed = seeds ! (pick_seed mod length seeds)
               in snd (exchange_gossip (net (fst seed) (snd seed)) c))
         else c)"

text \<open>The first half of a departure, under the membership lock; the peers to tell are the result.\<close>

definition leave_ring :: "Cluster \<Rightarrow> CacheNode list \<times> Cluster" where
  "leave_ring c =
     (let self = (case map_of (cu_members c) (local_id c) of
                    Some m \<Rightarrow> m
                  | None \<Rightarrow> \<lparr>mi_node = \<lparr>cn_id = [], cn_host = [], cn_port = 0\<rparr>, mi_generation = 0, mi_status = Alive\<rparr>);
          c = c\<lparr>cu_members := umap_set (local_id c)
                  (self\<lparr>mi_generation := mi_generation self + 1, mi_status := Left\<rparr>) (cu_members c)\<rparr>;
          peers = map snd (filter (\<lambda>(id, node). id \<noteq> local_id c) (cu_nodes c));
          c = c\<lparr>cu_ring := ring_remove_node (local_id c) (cu_ring c),
                cu_nodes := umap_erase (local_id c) (cu_nodes c)\<rparr>
      in (peers, publish_routing c))"

definition announce_leave ::
    "(string \<Rightarrow> u16 \<Rightarrow> RespValue RequestResult option) \<Rightarrow> CacheNode list \<Rightarrow> Cluster \<Rightarrow> Cluster" where
  "announce_leave net peers c =
     foldl (\<lambda>c peer. snd (exchange_gossip (net (cn_host peer) (cn_port peer)) c)) c peers"

section \<open>Invariant\<close>

text \<open>The tables agree: the nodes are those of the ring, they are the members that are alive, and
  entries are filed under their own names.\<close>

definition membership_wf :: "Cluster \<Rightarrow> bool" where
  "membership_wf c \<longleftrightarrow>
     umap_wf (cu_members c) \<and> umap_wf (cu_nodes c) \<and> ring_wf (cu_ring c) \<and>
     map_of (cu_nodes c) = map_of (r_physical_nodes (cu_ring c)) \<and>
     (\<forall>id m. map_of (cu_members c) id = Some m \<longrightarrow> cn_id (mi_node m) = id) \<and>
     (\<forall>id. map_of (cu_nodes c) id \<noteq> None \<longleftrightarrow>
        (\<exists>m. map_of (cu_members c) id = Some m \<and> mi_status m = Alive)) \<and>
     map_of (cu_members c) (local_id c) \<noteq> None"

text \<open>What requests are routed by is the table of the current ring.\<close>

definition routing_fresh :: "Cluster \<Rightarrow> bool" where
  "routing_fresh c \<longleftrightarrow>
     routing_table c = new_routing_table (cu_ring c) (cfg_replication_factor (cu_config c)) (local_id c)"

lemma ring_remove_physical:
  assumes "ring_wf r"
  shows "map_of (r_physical_nodes (ring_remove_node x r)) = (map_of (r_physical_nodes r))(x := None)"
  using assms
  by (auto simp: ring_remove_node_def ring_wf_def map_of_map_erase fun_eq_iff split: option.split)

lemma member_status_cases: "mi_status m = Alive \<or> mi_status m = Left"
  by (cases "mi_status m") auto

lemma install_member_parts:
  assumes "install_member m c chg = (b, c', chg')"
  shows "map_of (cu_members c') = (map_of (cu_members c))(cn_id (mi_node m) \<mapsto> m)"
    and "local_id c' = local_id c" and "cu_config c' = cu_config c" and "cu_routing c' = cu_routing c"
    and "\<not> b \<Longrightarrow> cu_ring c' = cu_ring c"
  using assms by (auto simp: install_member_def Let_def map_of_umap_set split: if_splits)

lemma membership_wfD:
  assumes "membership_wf c"
  shows "umap_wf (cu_members c)" "umap_wf (cu_nodes c)" "ring_wf (cu_ring c)"
    "map_of (r_physical_nodes (cu_ring c)) = map_of (cu_nodes c)"
    "map_of (cu_members c) x = Some m \<Longrightarrow> cn_id (mi_node m) = x"
    "map_of (cu_nodes c) x \<noteq> None \<longleftrightarrow> (\<exists>m. map_of (cu_members c) x = Some m \<and> mi_status m = Alive)"
    "map_of (cu_members c) (local_id c) \<noteq> None"
  using assms unfolding membership_wf_def by metis+

lemma membership_wfI:
  assumes "umap_wf (cu_members c)" "umap_wf (cu_nodes c)" "ring_wf (cu_ring c)"
    "map_of (r_physical_nodes (cu_ring c)) = map_of (cu_nodes c)"
    "\<And>x m. map_of (cu_members c) x = Some m \<Longrightarrow> cn_id (mi_node m) = x"
    "\<And>x. map_of (cu_nodes c) x \<noteq> None \<longleftrightarrow> (\<exists>m. map_of (cu_members c) x = Some m \<and> mi_status m = Alive)"
    "map_of (cu_members c) (local_id c) \<noteq> None"
  shows "membership_wf c"
  unfolding membership_wf_def
  by (intro conjI allI impI) (rule assms(1-3) assms(4) [symmetric] assms(6,7) | erule assms(5))+

lemma install_member_wf:
  assumes wf: "membership_wf c" and inst: "install_member m c chg = (b, c', chg')"
  shows "membership_wf c'"
proof -
  define x where "x = cn_id (mi_node m)"
  note D = membership_wfD [OF wf]
  have mem: "map_of (cu_members c') = (map_of (cu_members c))(x \<mapsto> m)" and loc: "local_id c' = local_id c"
    using install_member_parts(1,2) [OF inst] by (simp_all add: x_def)
  have umem: "umap_wf (cu_members c')" "umap_wf (cu_nodes c')"
    using inst D(1,2) by (auto simp: install_member_def Let_def umap_wf_set umap_wf_erase split: if_splits)
  have keys: "cn_id (mi_node m') = y" if "map_of (cu_members c') y = Some m'" for y m'
    using that D(5) by (auto simp: mem x_def split: if_splits)
  have ring: "ring_wf (cu_ring c') \<and> map_of (r_physical_nodes (cu_ring c')) = map_of (cu_nodes c')"
    using inst D(3,4) ring_add_node_wf [OF D(3)] ring_remove_node_wf [OF D(3)] ring_remove_physical [OF D(3)]
    by (auto simp: install_member_def Let_def map_of_umap_set map_of_umap_erase map_of_map_insert split: if_splits)
  have nodes: "map_of (cu_nodes c') y \<noteq> None \<longleftrightarrow>
      (if y = x then mi_status m = Alive else map_of (cu_nodes c) y \<noteq> None)" for y
    using inst by (cases "mi_status m")
      (auto simp: install_member_def Let_def map_of_umap_set map_of_umap_erase x_def split: if_splits)
  show ?thesis
  proof (rule membership_wfI)
    show "map_of (cu_nodes c') y \<noteq> None \<longleftrightarrow> (\<exists>m. map_of (cu_members c') y = Some m \<and> mi_status m = Alive)" for y
      unfolding nodes mem by (cases "y = x") (use D(6) [of y] in simp_all)
    show "map_of (cu_members c') (local_id c') \<noteq> None" using D(7) by (simp add: mem loc)
  qed (use umem ring keys in blast)+
qed

lemma apply_member_wf:
  assumes wf: "membership_wf c" and app: "apply_member m c chg = (b, c', chg')"
  shows "membership_wf c'"
proof (cases "map_of (cu_members c) (cn_id (mi_node m))")
  case None
  with app install_member_wf [OF wf] show ?thesis by (auto simp: apply_member_def)
next
  case (Some known)
  note D = membership_wfD [OF wf]
  define d where "d = c\<lparr>cu_members := umap_set (cn_id (mi_node m)) (known\<lparr>mi_generation := mi_generation m + 1\<rparr>) (cu_members c)\<rparr>"
  have mem: "map_of (cu_members d) = (map_of (cu_members c))
      (cn_id (mi_node m) \<mapsto> known\<lparr>mi_generation := mi_generation m + 1\<rparr>)"
    and rest: "cu_nodes d = cu_nodes c" "cu_ring d = cu_ring c" "local_id d = local_id c" "umap_wf (cu_members d)"
    using D(1) by (simp_all add: d_def map_of_umap_set umap_wf_set)
  have "membership_wf d"
  proof (rule membership_wfI)
    show "cn_id (mi_node m') = y" if "map_of (cu_members d) y = Some m'" for y m'
      using that D(5) Some by (auto simp: mem split: if_splits)
    show "map_of (cu_nodes d) y \<noteq> None \<longleftrightarrow> (\<exists>m. map_of (cu_members d) y = Some m \<and> mi_status m = Alive)" for y
      unfolding rest D(6) mem using Some by simp
    show "map_of (cu_members d) (local_id d) \<noteq> None" using D(7) by (simp add: mem rest)
  qed (use D(2-4) rest in simp_all)
  with Some app wf install_member_wf [OF wf] show ?thesis
    by (auto simp: apply_member_def Let_def d_def split: if_splits)
qed

lemma apply_member_parts:
  assumes "apply_member m c chg = (b, c', chg')"
  shows "local_id c' = local_id c" and "cu_config c' = cu_config c" and "cu_routing c' = cu_routing c"
    and "\<not> b \<Longrightarrow> cu_ring c' = cu_ring c"
  using assms install_member_parts [of m c chg b c' chg']
  by (auto simp: apply_member_def Let_def split: option.splits if_splits)

text \<open>What an entry does to the table: a newer one replaces, and the own entry only outranks.\<close>

definition newer_member :: "MemberInfo option \<Rightarrow> MemberInfo \<Rightarrow> MemberInfo option" where
  "newer_member known m =
     (case known of
        Some k \<Rightarrow> if mi_generation m \<le> mi_generation k then Some k else Some m
      | None \<Rightarrow> Some m)"

lemma apply_member_lookup:
  assumes "apply_member m c chg = (b, c', chg')"
  shows "x \<noteq> local_id c \<Longrightarrow> map_of (cu_members c') x =
      (if x = cn_id (mi_node m) then newer_member (map_of (cu_members c) x) m else map_of (cu_members c) x)"
    and "map_of (cu_members c) (local_id c) = Some k \<Longrightarrow> map_of (cu_members c') (local_id c) =
      Some (if cn_id (mi_node m) = local_id c \<and> mi_generation k < mi_generation m
            then k\<lparr>mi_generation := mi_generation m + 1\<rparr> else k)"
  using assms install_member_parts(1) [of m c chg b c' chg']
  by (auto simp: apply_member_def Let_def newer_member_def map_of_umap_set split: option.splits if_splits)

lemma apply_members_keeps:
  "apply_members ms (b, c, chg) = (b', c', chg') \<Longrightarrow>
   local_id c' = local_id c \<and> cu_config c' = cu_config c \<and> cu_routing c' = cu_routing c \<and>
   (\<not> b' \<longrightarrow> \<not> b \<and> cu_ring c' = cu_ring c) \<and> (membership_wf c \<longrightarrow> membership_wf c')"
proof (induction ms arbitrary: b c chg)
  case (Cons m ms)
  obtain b1 c1 chg1 where one: "apply_member m c chg = (b1, c1, chg1)" by (cases "apply_member m c chg") auto
  then have rest: "apply_members ms (b1 \<or> b, c1, chg1) = (b', c', chg')" using Cons.prems by simp
  show ?case using Cons.IH [OF rest] apply_member_parts [OF one] apply_member_wf [OF _ one] by auto
qed simp

lemma apply_members_lookup:
  "apply_members ms (b, c, chg) = (b', c', chg') \<Longrightarrow> x \<noteq> local_id c \<Longrightarrow>
   map_of (cu_members c') x =
     fold (\<lambda>m k. newer_member k m) (filter (\<lambda>m. cn_id (mi_node m) = x) ms) (map_of (cu_members c) x)"
proof (induction ms arbitrary: b c chg)
  case (Cons m ms)
  obtain b1 c1 chg1 where one: "apply_member m c chg = (b1, c1, chg1)" by (cases "apply_member m c chg") auto
  then have rest: "apply_members ms (b1 \<or> b, c1, chg1) = (b', c', chg')" using Cons.prems by simp
  show ?case
    using Cons.IH [OF rest] Cons.prems(2) apply_member_parts(1) [OF one] apply_member_lookup(1) [OF one Cons.prems(2)]
    by auto
qed simp

lemma apply_members_local:
  "apply_members ms (b, c, chg) = (b', c', chg') \<Longrightarrow> map_of (cu_members c) (local_id c) = Some k \<Longrightarrow>
   (\<And>m. m \<in> set ms \<Longrightarrow> cn_id (mi_node m) = local_id c \<Longrightarrow> mi_generation m \<le> mi_generation k) \<Longrightarrow>
   map_of (cu_members c') (local_id c) = Some k"
proof (induction ms arbitrary: b c chg)
  case (Cons m ms)
  obtain b1 c1 chg1 where one: "apply_member m c chg = (b1, c1, chg1)" by (cases "apply_member m c chg") auto
  then have rest: "apply_members ms (b1 \<or> b, c1, chg1) = (b', c', chg')" using Cons.prems by simp
  have "map_of (cu_members c1) (local_id c) = Some k"
    using apply_member_lookup(2) [OF one Cons.prems(2)] Cons.prems(3) [of m] by (auto simp: not_less)
  then show ?case
    using Cons.IH [OF rest] Cons.prems(3) apply_member_parts(1) [OF one] by auto
qed simp

lemma after_change_parts [simp]:
  "cu_members (after_membership_change chg c) = cu_members c"
  "cu_nodes (after_membership_change chg c) = cu_nodes c"
  "cu_ring (after_membership_change chg c) = cu_ring c"
  "cu_local_node (after_membership_change chg c) = cu_local_node c"
  "cu_config (after_membership_change chg c) = cu_config c"
  "cu_routing (after_membership_change chg c) = cu_routing c"
  "membership_wf (after_membership_change chg c) = membership_wf c"
  "routing_fresh (after_membership_change chg c) = routing_fresh c"
  by (simp_all add: after_membership_change_def Let_def membership_wf_def routing_fresh_def)

lemma publish_parts [simp]:
  "cu_members (publish_routing c) = cu_members c" "cu_nodes (publish_routing c) = cu_nodes c"
  "cu_ring (publish_routing c) = cu_ring c" "cu_local_node (publish_routing c) = cu_local_node c"
  "cu_config (publish_routing c) = cu_config c"
  "membership_wf (publish_routing c) = membership_wf c" "routing_fresh (publish_routing c)"
  by (simp_all add: publish_routing_def Let_def membership_wf_def routing_fresh_def)

lemma merge_gossip_cases:
  obtains b c1 chg where "apply_members remote (False, c, ([], [])) = (b, c1, chg)"
    and "snd (merge_gossip remote c) = after_membership_change chg (if b then publish_routing c1 else c1)"
    and "fst (merge_gossip remote c) = members (snd (merge_gossip remote c))"
  by (cases "apply_members remote (False, c, ([], []))") (simp add: merge_gossip_def Let_def members_def)

lemma merge_gossip_keeps:
  shows "membership_wf c \<Longrightarrow> membership_wf (snd (merge_gossip remote c))"
    and "routing_fresh c \<Longrightarrow> routing_fresh (snd (merge_gossip remote c))"
    and "local_id (snd (merge_gossip remote c)) = local_id c"
    and "fst (merge_gossip remote c) = members (snd (merge_gossip remote c))"
proof -
  obtain b c1 chg where app: "apply_members remote (False, c, ([], [])) = (b, c1, chg)"
    and res: "snd (merge_gossip remote c) = after_membership_change chg (if b then publish_routing c1 else c1)"
    and view: "fst (merge_gossip remote c) = members (snd (merge_gossip remote c))"
    by (rule merge_gossip_cases)
  note keeps = apply_members_keeps [OF app]
  show "membership_wf c \<Longrightarrow> membership_wf (snd (merge_gossip remote c))"
    "local_id (snd (merge_gossip remote c)) = local_id c"
    using keeps by (simp_all add: res)
  show "routing_fresh (snd (merge_gossip remote c))" if "routing_fresh c"
    using keeps that by (cases b) (simp_all add: res, simp add: routing_fresh_def)
  show "fst (merge_gossip remote c) = members (snd (merge_gossip remote c))" by (rule view)
qed

section \<open>Convergence of views\<close>

lemma filter_keyed:
  assumes "umap_wf m" "\<And>x v. map_of m x = Some v \<Longrightarrow> key v = x"
  shows "filter (\<lambda>v. key v = x) (map snd m) = (case map_of m x of Some v \<Rightarrow> [v] | None \<Rightarrow> [])"
  using assms
proof (induction m)
  case (Cons p m)
  obtain k v where p: "p = (k, v)" by (cases p)
  have k: "key v = k" "umap_wf m" "k \<notin> fst ` set m" using Cons.prems p by (auto simp: umap_wf_def)
  have rest: "key v' = y" if "map_of m y = Some v'" for y v'
    using Cons.prems(2) [of y v'] that k(3) p by (cases "y = k") (auto simp flip: map_of_eq_None_iff)
  have "map_of m k = None" using k(3) by (simp add: map_of_eq_None_iff)
  with Cons.IH [OF k(2) rest] show ?case by (auto simp: p k(1))
qed simp

lemma merge_lookup:
  assumes wf: "membership_wf a" and x: "x \<noteq> local_id b"
  shows "map_of (cu_members (snd (merge_gossip (members a) b))) x =
    (case map_of (cu_members a) x of
       None \<Rightarrow> map_of (cu_members b) x
     | Some m \<Rightarrow> newer_member (map_of (cu_members b) x) m)"
proof -
  obtain ch c1 chg where app: "apply_members (members a) (False, b, ([], [])) = (ch, c1, chg)"
    and res: "snd (merge_gossip (members a) b) = after_membership_change chg (if ch then publish_routing c1 else c1)"
    by (rule merge_gossip_cases)
  have "filter (\<lambda>m. cn_id (mi_node m) = x) (members a) = (case map_of (cu_members a) x of Some v \<Rightarrow> [v] | None \<Rightarrow> [])"
    unfolding members_def using membership_wfD(1,5) [OF wf] by (rule filter_keyed)
  then show ?thesis
    using apply_members_lookup [OF app x] by (simp add: res split: option.split)
qed

lemma merge_own:
  assumes wf: "membership_wf a" and own: "map_of (cu_members b) (local_id b) = Some k"
    and old: "\<And>m. map_of (cu_members a) (local_id b) = Some m \<Longrightarrow> mi_generation m \<le> mi_generation k"
  shows "map_of (cu_members (snd (merge_gossip (members a) b))) (local_id b) = Some k"
proof -
  obtain ch c1 chg where app: "apply_members (members a) (False, b, ([], [])) = (ch, c1, chg)"
    and res: "snd (merge_gossip (members a) b) = after_membership_change chg (if ch then publish_routing c1 else c1)"
    by (rule merge_gossip_cases)
  have "mi_generation m \<le> mi_generation k" if "m \<in> set (members a)" "cn_id (mi_node m) = local_id b" for m
  proof -
    obtain y where "(y, m) \<in> set (cu_members a)" using \<open>m \<in> set (members a)\<close> by (auto simp: members_def)
    then have "map_of (cu_members a) y = Some m" using membership_wfD(1) [OF wf] by (simp add: umap_wf_def)
    with membership_wfD(5) [OF wf this] that(2) old show ?thesis by simp
  qed
  with apply_members_local [OF app own] show ?thesis by (simp add: res)
qed


lemma init_common_parts:
  "membership_wf (new_cluster boot local config)" "routing_fresh (new_cluster boot local config)"
  "cu_members (new_cluster boot local config) =
     [(cn_id local, \<lparr>mi_node = local, mi_generation = boot, mi_status = Alive\<rparr>)]"
  "cu_local_node (new_cluster boot local config) = local" "cu_config (new_cluster boot local config) = config"
proof -
  show mem: "cu_members (new_cluster boot local config) =
     [(cn_id local, \<lparr>mi_node = local, mi_generation = boot, mi_status = Alive\<rparr>)]"
    and loc: "cu_local_node (new_cluster boot local config) = local"
    and "cu_config (new_cluster boot local config) = config" "routing_fresh (new_cluster boot local config)"
    by (simp_all add: new_cluster_def init_common_def publish_routing_def Let_def umap_set_def routing_fresh_def)
  have ring: "cu_ring (new_cluster boot local config) = ring_add_node local (new_ring 256)"
    and nodes: "cu_nodes (new_cluster boot local config) = [(cn_id local, local)]"
    by (simp_all add: new_cluster_def init_common_def publish_routing_def Let_def umap_set_def)
  show "membership_wf (new_cluster boot local config)"
    by (rule membership_wfI)
       (auto simp: mem loc ring nodes umap_wf_def ring_add_node_wf new_ring_wf map_of_map_insert split: if_splits)
qed


section \<open>Encoding of views\<close>

lemma stoi_port: "stoi (nat_to_string (unat (p :: u16))) = Some (uint p)"
proof -
  have "unat p < 2 ^ 16" using unsigned_less [of p, where 'a = nat] by simp
  then show ?thesis using stoi_to_string [of "unat p"] by simp
qed

lemma parse_member_args: "parse_members (concat (map member_args ms)) = Some ms"
proof (induction ms)
  case (Cons m ms)
  obtain i h p g st where m: "m = \<lparr>mi_node = \<lparr>cn_id = i, cn_host = h, cn_port = p\<rparr>, mi_generation = g, mi_status = st\<rparr>"
    by (metis CacheNode.surjective MemberInfo.surjective old.unit.exhaust)
  with Cons show ?case by (cases st) (simp_all add: member_args_def stoi_port stoull_to_string)
qed simp

text \<open>A view survives its encoding: the fields a node puts into a gossip message or reply are
  parsed back to the same members, with every port, generation and status.\<close>

theorem gossip_codec: "parse_members (concat (map member_args ms)) = Some ms"
  by (rule parse_member_args)

section \<open>Reachable states\<close>

text \<open>The steps that change membership: a merge (a gossip request, a reply, a configured peer), a
  health callback, a new seed, and the node's own departure.\<close>

inductive membership_step :: "Cluster \<Rightarrow> Cluster \<Rightarrow> bool" where
  merge: "membership_step c (snd (merge_gossip remote c))"
| add_node: "membership_step c (cluster_add_node node c)"
| exchange: "membership_step c (snd (exchange_gossip response c))"
| health: "membership_step c (set_node_health node_id healthy c)"
| seed: "membership_step c (add_seed host port c)"
| leave: "membership_step c (snd (leave_ring c))"

inductive membership_reachable :: "Cluster \<Rightarrow> bool" where
  boot: "membership_reachable (new_cluster boot_ms local config)"
| step: "membership_reachable c \<Longrightarrow> membership_step c c' \<Longrightarrow> membership_reachable c'"

lemma leave_ring_wf:
  assumes wf: "membership_wf c"
  shows "membership_wf (snd (leave_ring c))"
proof -
  note D = membership_wfD [OF wf]
  obtain self where self: "map_of (cu_members c) (local_id c) = Some self" using D(7) by blast
  define c' where "c' = snd (leave_ring c)"
  have mem: "map_of (cu_members c') = (map_of (cu_members c))
      (local_id c \<mapsto> self\<lparr>mi_generation := mi_generation self + 1, mi_status := Left\<rparr>)"
    and nodes: "map_of (cu_nodes c') = (map_of (cu_nodes c))(local_id c := None)"
    and ring: "cu_ring c' = ring_remove_node (local_id c) (cu_ring c)"
    and loc: "local_id c' = local_id c"
    and umaps: "umap_wf (cu_members c')" "umap_wf (cu_nodes c')"
    using self D(1,2)
    by (simp_all add: c'_def leave_ring_def Let_def map_of_umap_set map_of_umap_erase umap_wf_set umap_wf_erase)
  have "membership_wf c'"
  proof (rule membership_wfI)
    show "map_of (cu_nodes c') y \<noteq> None \<longleftrightarrow> (\<exists>m. map_of (cu_members c') y = Some m \<and> mi_status m = Alive)" for y
      unfolding nodes mem by (cases "y = local_id c") (use D(6) [of y] in simp_all)
    show "cn_id (mi_node m) = y" if "map_of (cu_members c') y = Some m" for y m
      using that D(5) self by (auto simp: mem split: if_splits)
    show "map_of (r_physical_nodes (cu_ring c')) = map_of (cu_nodes c')"
      by (simp add: ring ring_remove_physical [OF D(3)] D(4) nodes)
  qed (simp_all add: umaps ring ring_remove_node_wf [OF D(3)] mem loc)
  then show ?thesis by (simp add: c'_def)
qed

lemma membership_step_keeps:
  assumes "membership_step c c'" and inv: "membership_wf c \<and> routing_fresh c"
  shows "membership_wf c' \<and> routing_fresh c'"
  using assms(1)
proof cases
  case leave
  then show ?thesis
    using leave_ring_wf inv by (auto simp: leave_ring_def Let_def)
next
  case (health x b)
  have "membership_wf c' = membership_wf c" "routing_fresh c' = routing_fresh c"
    unfolding health by (simp_all add: set_node_health_def membership_wf_def routing_fresh_def)
  with inv show ?thesis by simp
next
  case (seed h p)
  have "membership_wf c' = membership_wf c" "routing_fresh c' = routing_fresh c"
    unfolding seed by (simp_all add: add_seed_def membership_wf_def routing_fresh_def)
  with inv show ?thesis by simp
qed (use inv merge_gossip_keeps(1,2) in \<open>auto simp: cluster_add_node_def exchange_gossip_def
    split: option.splits RespValue.splits\<close>)



text \<open>Removing a node by hand takes it out of the ring but publishes no table, so requests are still
  routed to it.\<close>

lemma remove_node_not_published:
  "cu_routing (cluster_remove_node x c) = cu_routing c"
  by (auto simp: cluster_remove_node_def Let_def dest: apply_member_parts(3) split: option.split prod.split)

lemma remove_node_from_tables:
  assumes wf: "membership_wf c" and known: "map_of (cu_members c) x = Some k" and x: "x \<noteq> local_id c"
    and room: "mi_generation k < mi_generation k + 1"
  shows "map_of (cu_nodes (cluster_remove_node x c)) x = None"
proof -
  let ?gone = "k\<lparr>mi_generation := mi_generation k + 1, mi_status := Left\<rparr>"
  obtain b c' chg where app: "apply_member ?gone c ([], []) = (b, c', chg)"
    by (cases "apply_member ?gone c ([], [])") auto
  have key: "cn_id (mi_node k) = x" by (rule membership_wfD(5) [OF wf known])
  have "map_of (cu_members c') x = Some ?gone"
    using apply_member_lookup(1) [OF app x] known room by (simp add: key newer_member_def)
  then have "map_of (cu_nodes c') x = None"
    using membership_wfD(6) [OF apply_member_wf [OF wf app], of x] by simp
  then show ?thesis by (simp add: cluster_remove_node_def known app)
qed

text \<open>A node that comes back at another address keeps its old address in the ring: a newer entry of
  a node that is already there changes only the table of members.\<close>

lemma moved_node_keeps_address:
  assumes "map_of (cu_members c) x = Some k" and "mi_generation k < mi_generation m"
    and "cn_id (mi_node m) = x" and "x \<noteq> local_id c" and "mi_status m = Alive"
    and "map_of (cu_nodes c) x = Some old"
  shows "apply_member m c chg = (False, c\<lparr>cu_members := umap_set x m (cu_members c)\<rparr>, chg)"
  using assms by (simp add: apply_member_def install_member_def Let_def not_le)

end
