(* ===== verification/Hinted_Handoff.thy ===== *)
theory Hinted_Handoff
  imports Membership
begin

text \<open>
  Writes a replica missed, kept in a queue per node and replayed when it is back (src/cluster.cpp,
  the hinted handoff section). What a send meets on the network is an input: \<open>None\<close> when no
  connection is available, otherwise the decoded reply. The clock is read once per call.
\<close>

section \<open>Operations\<close>

text \<open>The outcome of a blocking replica write: \<open>None\<close> is a failure, otherwise whether the key
  was live before.\<close>

definition send_write :: "bool RequestResult option \<Rightarrow> bool option" where
  "send_write response =
     (case response of
        None \<Rightarrow> None
      | Some res \<Rightarrow>
          if \<not> rr_is_ok res then None
          else Some (case rr_value res of Some live \<Rightarrow> live | None \<Rightarrow> False))"

definition hint_queue :: "string \<Rightarrow> Cluster \<Rightarrow> Hint list" where
  "hint_queue node_id c = (case map_of (cu_hints c) node_id of Some q \<Rightarrow> q | None \<Rightarrow> [])"

text \<open>A full queue drops its oldest hint. (With a limit of zero the source would pop an empty
  deque, which C++ leaves undefined.)\<close>

definition add_hint :: "ticks \<Rightarrow> CacheNode \<Rightarrow> string \<Rightarrow> VersionedValue \<Rightarrow> Cluster \<Rightarrow> Cluster" where
  "add_hint now node key v c =
     (let deadline = map_option (\<lambda>t. now + ticks_of_millis t) (vv_ttl v);
          queue = hint_queue (cn_id node) c;
          full = (cfg_max_hints_per_node (cu_config c) \<le> length queue);
          c = (if full then c\<lparr>cu_hints_dropped := cu_hints_dropped c + 1\<rparr> else c);
          queue = (if full then tl queue else queue);
          queue = queue @ [\<lparr>hint_key = key, hint_value = v, hint_deadline = deadline\<rparr>]
      in c\<lparr>cu_hints := umap_set (cn_id node) queue (cu_hints c)\<rparr>)"

definition kBatch :: nat where
  "kBatch = 1024"

text \<open>A hint as it is sent: with what is left of its time to live.\<close>

definition refresh_hint :: "ticks \<Rightarrow> Hint \<Rightarrow> Hint" where
  "refresh_hint now hint =
     (case hint_deadline hint of
        Some d \<Rightarrow> hint\<lparr>hint_value := (hint_value hint)\<lparr>vv_ttl := Some (millis_of_ticks (d - now))\<rparr>\<rparr>
      | None \<Rightarrow> hint)"

definition hint_expired :: "ticks \<Rightarrow> Hint \<Rightarrow> bool" where
  "hint_expired now hint = (case hint_deadline hint of Some d \<Rightarrow> d \<le> now | None \<Rightarrow> False)"

text \<open>The delivery loop: the hints that stay in the batch, and the writes that were acknowledged.
  \<open>net i\<close> is what the \<open>i\<close>-th send meets.\<close>

fun deliver_batch ::
    "ticks \<Rightarrow> (nat \<Rightarrow> bool RequestResult option) \<Rightarrow> nat \<Rightarrow> Hint list \<Rightarrow> Hint list \<times> (string \<times> VersionedValue) list" where
  "deliver_batch now net i [] = ([], [])"
| "deliver_batch now net i (hint # batch) =
     (if hint_expired now hint then deliver_batch now net i batch
      else
        (let hint = refresh_hint now hint in
         case send_write (net i) of
           None \<Rightarrow> (hint # batch, [])
         | Some live \<Rightarrow>
             (case deliver_batch now net (i + 1) batch of
                (rest, sent) \<Rightarrow> (rest, (hint_key hint, hint_value hint) # sent))))"

text \<open>One node's turn; the writes delivered are part of the result.\<close>

definition replay_node ::
    "ticks \<Rightarrow> (nat \<Rightarrow> bool RequestResult option) \<Rightarrow> string \<Rightarrow> Cluster \<Rightarrow> (string \<times> VersionedValue) list \<times> Cluster" where
  "replay_node now net node_id c =
     (if \<not> is_node_healthy node_id c then ([], c)
      else
        case map_of (cu_nodes c) node_id of
          None \<Rightarrow> ([], c\<lparr>cu_hints := umap_set node_id [] (cu_hints c)\<rparr>)
        | Some node \<Rightarrow>
            (let batch = take kBatch (hint_queue node_id c);
                 queue = drop kBatch (hint_queue node_id c)
             in case deliver_batch now net 0 batch of
                  (rest, sent) \<Rightarrow>
                    (sent,
                     c\<lparr>cu_hints := umap_set node_id (rest @ queue) (cu_hints c),
                       cu_hints_delivered := cu_hints_delivered c + of_nat (length sent)\<rparr>)))"

fun replay_nodes ::
    "(string \<Rightarrow> ticks) \<Rightarrow> (string \<Rightarrow> nat \<Rightarrow> bool RequestResult option) \<Rightarrow> string list \<Rightarrow> Cluster
     \<Rightarrow> (string \<times> (string \<times> VersionedValue) list) list \<times> Cluster" where
  "replay_nodes now net [] c = ([], c)"
| "replay_nodes now net (node_id # ids) c =
     (case replay_node (now node_id) (net node_id) node_id c of
        (sent, c') \<Rightarrow>
          (case replay_nodes now net ids c' of (out, c'') \<Rightarrow> ((node_id, sent) # out, c'')))"

definition replay_hints ::
    "(string \<Rightarrow> ticks) \<Rightarrow> (string \<Rightarrow> nat \<Rightarrow> bool RequestResult option) \<Rightarrow> Cluster
     \<Rightarrow> (string \<times> (string \<times> VersionedValue) list) list \<times> Cluster" where
  "replay_hints now net c =
     replay_nodes now net (map fst (filter (\<lambda>(node_id, queue). queue \<noteq> []) (cu_hints c))) c"

section \<open>Queues\<close>

lemma hint_queue_set [simp]:
  "hint_queue x (c\<lparr>cu_hints := umap_set y q hs\<rparr>) = (if x = y then q else hint_queue x (c\<lparr>cu_hints := hs\<rparr>))"
  by (simp add: hint_queue_def map_of_umap_set)

lemma hint_queue_same [simp]: "hint_queue x (c\<lparr>cu_hints := cu_hints c\<rparr>) = hint_queue x c"
  by (simp add: hint_queue_def)

lemma add_hint_parts:
  "hint_queue x (add_hint now node key v c) =
     (if x = cn_id node
      then (if cfg_max_hints_per_node (cu_config c) \<le> length (hint_queue x c) then tl (hint_queue x c) else hint_queue x c)
           @ [\<lparr>hint_key = key, hint_value = v, hint_deadline = map_option (\<lambda>t. now + ticks_of_millis t) (vv_ttl v)\<rparr>]
      else hint_queue x c)"
  "cu_hints_dropped (add_hint now node key v c) =
     cu_hints_dropped c + (if cfg_max_hints_per_node (cu_config c) \<le> length (hint_queue (cn_id node) c) then 1 else 0)"
  "cu_config (add_hint now node key v c) = cu_config c"
  "cu_local_cache (add_hint now node key v c) = cu_local_cache c"
  "cu_local_node (add_hint now node key v c) = cu_local_node c"
  "cu_routing (add_hint now node key v c) = cu_routing c"
  "cu_node_health (add_hint now node key v c) = cu_node_health c"
  "cu_clock (add_hint now node key v c) = cu_clock c"
  "cu_write_quorum_failures (add_hint now node key v c) = cu_write_quorum_failures c"
  by (simp_all add: add_hint_def Let_def hint_queue_def map_of_umap_set)

text \<open>Every queue stays within the limit.\<close>

definition hints_bounded :: "Cluster \<Rightarrow> bool" where
  "hints_bounded c \<longleftrightarrow> (\<forall>x. length (hint_queue x c) \<le> cfg_max_hints_per_node (cu_config c))"


lemma node_a_id [simp]: "cn_id node_a = ''a''"
  by (rule node_ids)


section \<open>Replay\<close>

lemma deliver_batch_split:
  "deliver_batch now net i batch = (rest, sent) \<Longrightarrow>
   \<exists>gone left. batch = gone @ left \<and>
     sent = map (\<lambda>h. (hint_key h, hint_value (refresh_hint now h))) (filter (\<lambda>h. \<not> hint_expired now h) gone) \<and>
     (rest = [] \<and> left = [] \<or>
      (\<exists>h t. left = h # t \<and> rest = refresh_hint now h # t \<and> \<not> hint_expired now h \<and>
        send_write (net (i + length sent)) = None)) \<and>
     (\<forall>j < length sent. send_write (net (i + j)) \<noteq> None)"
proof (induction batch arbitrary: i rest sent)
  case (Cons h batch)
  show ?case
  proof (cases "hint_expired now h")
    case True
    with Cons.prems have "deliver_batch now net i batch = (rest, sent)" by simp
    from Cons.IH [OF this] obtain gone left where
      "batch = gone @ left"
      "sent = map (\<lambda>h. (hint_key h, hint_value (refresh_hint now h))) (filter (\<lambda>h. \<not> hint_expired now h) gone)"
      "rest = [] \<and> left = [] \<or> (\<exists>h t. left = h # t \<and> rest = refresh_hint now h # t \<and> \<not> hint_expired now h \<and>
        send_write (net (i + length sent)) = None)"
      "\<forall>j < length sent. send_write (net (i + j)) \<noteq> None" by blast
    with True show ?thesis by (intro exI [of _ "h # gone"] exI [of _ left]) auto
  next
    case False
    show ?thesis
    proof (cases "send_write (net i)")
      case None
      with False Cons.prems show ?thesis by (intro exI [of _ "[]"] exI [of _ "h # batch"]) (auto simp: Let_def)
    next
      case (Some live)
      have same: "hint_key (refresh_hint now h) = hint_key h" by (simp add: refresh_hint_def split: option.split)
      obtain sent' where d: "deliver_batch now net (i + 1) batch = (rest, sent')"
        and sent: "sent = (hint_key h, hint_value (refresh_hint now h)) # sent'"
        using False Some Cons.prems by (auto simp: Let_def same split: prod.splits)
      from Cons.IH [OF d] obtain gone left where
        "batch = gone @ left"
        "sent' = map (\<lambda>h. (hint_key h, hint_value (refresh_hint now h))) (filter (\<lambda>h. \<not> hint_expired now h) gone)"
        "rest = [] \<and> left = [] \<or> (\<exists>h t. left = h # t \<and> rest = refresh_hint now h # t \<and> \<not> hint_expired now h \<and>
          send_write (net (i + 1 + length sent')) = None)"
        and acked: "\<forall>j < length sent'. send_write (net (i + 1 + j)) \<noteq> None" by blast
      moreover have "send_write (net (i + j)) \<noteq> None" if "j < length sent" for j
        using that acked Some sent by (cases j) auto
      ultimately show ?thesis
        using False sent by (intro exI [of _ "h # gone"] exI [of _ left]) auto
    qed
  qed
qed auto

text \<open>C11: Replay delivers in order and loses nothing: for a healthy node of the ring, the hints that
  leave its queue are the oldest ones; those of them that have not expired were all acknowledged, in
  the order in which they were queued and with what is left of their time to live; the delivered
  counter counts them; and the rest stays in front of the queue for the next turn.\<close>

theorem replay_in_order:
  assumes "is_node_healthy x c" and "map_of (cu_nodes c) x = Some node"
    and "replay_node now net x c = (sent, c')"
  shows "\<exists>gone left. hint_queue x c = gone @ left
    \<and> sent = map (\<lambda>h. (hint_key h, hint_value (refresh_hint now h))) (filter (\<lambda>h. \<not> hint_expired now h) gone)
    \<and> (\<forall>i < length sent. send_write (net i) \<noteq> None)
    \<and> (hint_queue x c' = left \<or> hint_queue x c' = refresh_hint now (hd left) # tl left)
    \<and> cu_hints_delivered c' = cu_hints_delivered c + of_nat (length sent)"
proof -
  let ?q = "hint_queue x c"
  obtain rest where d: "deliver_batch now net 0 (take kBatch ?q) = (rest, sent)"
    and c': "c' = c\<lparr>cu_hints := umap_set x (rest @ drop kBatch ?q) (cu_hints c),
        cu_hints_delivered := cu_hints_delivered c + of_nat (length sent)\<rparr>"
    using assms by (auto simp: replay_node_def Let_def split: prod.splits)
  have q': "hint_queue x c' = rest @ drop kBatch ?q" by (simp add: c' hint_queue_def map_of_umap_set)
  from deliver_batch_split [OF d] obtain gone left where
    split: "take kBatch ?q = gone @ left"
      "sent = map (\<lambda>h. (hint_key h, hint_value (refresh_hint now h))) (filter (\<lambda>h. \<not> hint_expired now h) gone)"
      "rest = [] \<and> left = [] \<or> (\<exists>h t. left = h # t \<and> rest = refresh_hint now h # t \<and> \<not> hint_expired now h \<and>
        send_write (net (0 + length sent)) = None)"
      "\<forall>j < length sent. send_write (net (0 + j)) \<noteq> None" by blast
  have "?q = gone @ (left @ drop kBatch ?q)" using split(1) by (metis append_assoc append_take_drop_id)
  moreover have "hint_queue x c' = left @ drop kBatch ?q \<or>
      hint_queue x c' = refresh_hint now (hd (left @ drop kBatch ?q)) # tl (left @ drop kBatch ?q)"
    using split(3) q' by auto
  ultimately show ?thesis using split(2,4) by (intro exI [of _ gone] exI [of _ "left @ drop kBatch ?q"]) (simp add: c')
qed

theorem replay_in_order_witness:
  "let h = \<lparr>hint_key = ''k'', hint_value = \<lparr>vv_value = ''v'', vv_version = 3, vv_tombstone = False, vv_ttl = None\<rparr>,
             hint_deadline = None\<rparr>;
       c = (new_cluster 0 node_a default_config)\<lparr>cu_hints := [(''a'', [h, h])]\<rparr>;
       net = (\<lambda>i. if i = 0 then Some (rr_success True) else None)
   in \<exists>gone left. [h, h] = gone @ left \<and> fst (replay_node 0 net ''a'' c) = map (\<lambda>h. (''k'', hint_value h)) gone"
proof -
  define h where "h = \<lparr>hint_key = ''k'', hint_value = \<lparr>vv_value = ''v'', vv_version = 3, vv_tombstone = False, vv_ttl = None\<rparr>,
             hint_deadline = None\<rparr>"
  define c where "c = (new_cluster 0 node_a default_config)\<lparr>cu_hints := [(''a'', [h, h])]\<rparr>"
  let ?net = "\<lambda>i. if i = 0 then Some (rr_success True) else None"
  have h: "is_node_healthy ''a'' c" "map_of (cu_nodes c) ''a'' = Some node_a" "hint_queue ''a'' c = [h, h]"
    by (simp_all add: c_def new_cluster_def init_common_def publish_routing_def Let_def umap_set_def is_node_healthy_def hint_queue_def)
  obtain sent c' where r: "replay_node 0 ?net ''a'' c = (sent, c')" by fastforce
  have key: "hint_key h = ''k''" "hint_deadline h = None" by (simp_all add: h_def)
  from replay_in_order [OF h(1,2) r] obtain gone left where g: "[h, h] = gone @ left"
    "sent = map (\<lambda>h. (hint_key h, hint_value (refresh_hint 0 h))) (filter (\<lambda>h. \<not> hint_expired 0 h) gone)"
    by (auto simp: h(3))
  have "set gone \<subseteq> {h}" using g(1) by (auto simp: Cons_eq_append_conv)
  then have "filter (\<lambda>h. \<not> hint_expired 0 h) gone = gone"
    "map (\<lambda>h. (hint_key h, hint_value (refresh_hint 0 h))) gone = map (\<lambda>h. (''k'', hint_value h)) gone"
    by (auto simp: filter_id_conv hint_expired_def refresh_hint_def key)
  with g r show ?thesis unfolding Let_def h_def [symmetric] c_def [symmetric] by auto
qed

text \<open>Several replays of one node's queue, each with its own clock reading and network.\<close>

primrec replay_times :: "nat \<Rightarrow> (nat \<Rightarrow> ticks) \<Rightarrow> (nat \<Rightarrow> nat \<Rightarrow> bool RequestResult option) \<Rightarrow> string \<Rightarrow> Cluster \<Rightarrow> Cluster" where
  "replay_times 0 now net x c = c"
| "replay_times (Suc n) now net x c = snd (replay_node (now n) (net n) x (replay_times n now net x c))"

lemma replay_all_acked:
  assumes "is_node_healthy x c" and "map_of (cu_nodes c) x = Some node" and "\<And>i. send_write (net i) \<noteq> None"
  shows "hint_queue x (snd (replay_node now net x c)) = drop kBatch (hint_queue x c)"
    and "cu_nodes (snd (replay_node now net x c)) = cu_nodes c"
    and "is_node_healthy x (snd (replay_node now net x c))"
proof -
  obtain rest sent where d: "deliver_batch now net 0 (take kBatch (hint_queue x c)) = (rest, sent)" by fastforce
  have "rest = []" using deliver_batch_split [OF d] assms(3) by auto
  with d assms(1,2) show "hint_queue x (snd (replay_node now net x c)) = drop kBatch (hint_queue x c)"
    "cu_nodes (snd (replay_node now net x c)) = cu_nodes c" "is_node_healthy x (snd (replay_node now net x c))"
    by (simp_all add: replay_node_def Let_def hint_queue_def is_node_healthy_def map_of_umap_set)
qed

text \<open>C31: Hints drain: as long as a node of the ring is healthy and acknowledges every send, each
  replay takes a whole batch of 1024 off its queue, so a queue of \<open>m\<close> hints is empty after
  \<open>m div 1024 + 1\<close> replays.\<close>

theorem hints_drain:
  assumes "is_node_healthy x c" and "map_of (cu_nodes c) x = Some node" and "\<forall>n i. send_write (net n i) \<noteq> None"
  shows "hint_queue x (replay_times n now net x c) = drop (1024 * n) (hint_queue x c)
    \<and> hint_queue x (replay_times (length (hint_queue x c) div 1024 + 1) now net x c) = []"
proof -
  have all: "hint_queue x (replay_times n now net x c) = drop (1024 * n) (hint_queue x c)
      \<and> is_node_healthy x (replay_times n now net x c) \<and> cu_nodes (replay_times n now net x c) = cu_nodes c" for n
  proof (induction n)
    case (Suc n)
    let ?c = "replay_times n now net x c"
    have ok: "is_node_healthy x ?c" "map_of (cu_nodes ?c) x = Some node" using Suc assms(2) by simp_all
    show ?case
      using Suc replay_all_acked [OF ok, of "net n" "now n"] assms(3) by (simp add: kBatch_def add.commute)
  qed (use assms(1) in simp)
  have "length (hint_queue x c) \<le> 1024 * (length (hint_queue x c) div 1024 + 1)" by simp
  with all [of n] all [of "length (hint_queue x c) div 1024 + 1"] show ?thesis
    by (simp only: drop_all)
qed

theorem hints_drain_witness:
  "let h = \<lparr>hint_key = ''k'', hint_value = \<lparr>vv_value = ''v'', vv_version = 3, vv_tombstone = False, vv_ttl = None\<rparr>,
             hint_deadline = None\<rparr>;
       c = (new_cluster 0 node_a default_config)\<lparr>cu_hints := [(''a'', replicate 2000 h)]\<rparr>
   in hint_queue ''a'' (replay_times 2 (\<lambda>_. 0) (\<lambda>_ _. Some (rr_success True)) ''a'' c) = []"
proof -
  define h where "h = \<lparr>hint_key = ''k'', hint_value = \<lparr>vv_value = ''v'', vv_version = 3, vv_tombstone = False, vv_ttl = None\<rparr>,
             hint_deadline = None\<rparr>"
  define c where "c = (new_cluster 0 node_a default_config)\<lparr>cu_hints := [(''a'', replicate 2000 h)]\<rparr>"
  have ok: "is_node_healthy ''a'' c" "map_of (cu_nodes c) ''a'' = Some node_a" "hint_queue ''a'' c = replicate 2000 h"
    by (simp_all add: c_def new_cluster_def init_common_def publish_routing_def Let_def umap_set_def is_node_healthy_def hint_queue_def)
  show ?thesis
    using hints_drain [OF ok(1,2), of "\<lambda>_ _. Some (rr_success True)" 2 "\<lambda>_. 0"]
    unfolding Let_def h_def [symmetric] c_def [symmetric] by (simp add: ok(3) send_write_def)
qed

end
