(* ===== verification/Coordinator.thy ===== *)
theory Coordinator
  imports Hinted_Handoff
begin

text \<open>
  Coordinated reads and writes (src/cluster.cpp, the sections on writes, reads, the convenience
  wrappers and the replica side). The calls to the peers of one operation run concurrently; what
  matters of their interleaving is the list of callbacks that ran before the coordinator stopped
  waiting, in order, each with the position of the replica in the preference list. That list, the
  clock readings and the wall clock are inputs.
\<close>

record env =
  e_now :: ticks
  e_write_now :: ticks
  e_wall :: u64
  e_reads :: "(nat \<times> RespValue RequestResult) list"
  e_writes :: "(nat \<times> RespValue RequestResult) list"

section \<open>Comparing replies\<close>

definition newer :: "VersionedValue \<Rightarrow> VersionedValue \<Rightarrow> bool" where
  "newer a b =
     supersedes (vv_version a) (vv_tombstone a) (vv_value a)
       \<lparr>ce_value = vv_value b, ce_expires_at = None, ce_version = vv_version b, ce_tombstone = vv_tombstone b\<rparr>"

definition same_version :: "VersionedValue \<Rightarrow> VersionedValue \<Rightarrow> bool" where
  "same_version a b \<longleftrightarrow>
     vv_version a = vv_version b \<and> vv_tombstone a = vv_tombstone b \<and> vv_value a = vv_value b"

section \<open>Writes\<close>

record WriteState =
  ws_done :: nat
  ws_acks :: nat
  ws_existed :: bool

definition record_write :: "bool \<Rightarrow> bool \<Rightarrow> WriteState \<Rightarrow> WriteState" where
  "record_write ok live st =
     (let st = st\<lparr>ws_done := ws_done st + 1\<rparr>
      in if ok then st\<lparr>ws_acks := ws_acks st + 1, ws_existed := ws_existed st \<or> live\<rparr> else st)"

definition local_apply :: "ticks \<Rightarrow> string \<Rightarrow> VersionedValue \<Rightarrow> Cluster \<Rightarrow> bool \<times> Cluster" where
  "local_apply now key v c =
     (case sharded_apply now key v (cu_local_cache c) of
        ((applied, live), cache) \<Rightarrow> (live, c\<lparr>cu_local_cache := cache\<rparr>))"

text \<open>The loop over the targets: the own copy at once, a hint for a node that is down, and a call
  for the others.\<close>

fun start_writes ::
    "env \<Rightarrow> string \<Rightarrow> VersionedValue \<Rightarrow> CacheNode list \<Rightarrow> WriteState \<Rightarrow> Cluster \<Rightarrow> WriteState \<times> Cluster" where
  "start_writes e key v [] st c = (st, c)"
| "start_writes e key v (node # targets) st c =
     (if cn_id node = local_id c
      then (case local_apply (e_write_now e) key v c of
              (live, c') \<Rightarrow> start_writes e key v targets (record_write True live st) c')
      else if \<not> is_node_healthy (cn_id node) c
      then start_writes e key v targets (record_write False False st) (add_hint (e_write_now e) node key v c)
      else start_writes e key v targets st c)"

text \<open>Whether a peer acknowledged, and whether the key was live there.\<close>

definition write_outcome :: "RespValue RequestResult \<Rightarrow> bool \<times> bool" where
  "write_outcome res =
     (if \<not> rr_is_ok res then (False, False)
      else
        case rr_value res of
          None \<Rightarrow> (False, False)
        | Some reply \<Rightarrow>
            (let decoded = decode_replica_write reply
             in (rr_is_ok decoded, case rr_value decoded of Some live \<Rightarrow> live | None \<Rightarrow> False)))"

definition write_reply ::
    "env \<Rightarrow> string \<Rightarrow> VersionedValue \<Rightarrow> CacheNode \<Rightarrow> RespValue RequestResult \<Rightarrow> WriteState \<Rightarrow> Cluster
     \<Rightarrow> WriteState \<times> Cluster" where
  "write_reply e key v node res st c =
     (case write_outcome res of
        (ok, live) \<Rightarrow>
          (record_write ok live st, if ok then c else add_hint (e_write_now e) node key v c))"

fun finish_writes ::
    "env \<Rightarrow> string \<Rightarrow> VersionedValue \<Rightarrow> CacheNode list \<Rightarrow> (nat \<times> RespValue RequestResult) list
     \<Rightarrow> WriteState \<Rightarrow> Cluster \<Rightarrow> WriteState \<times> Cluster" where
  "finish_writes e key v targets [] st c = (st, c)"
| "finish_writes e key v targets ((i, res) # replies) st c =
     (case write_reply e key v (targets ! i) res st c of
        (st', c') \<Rightarrow> finish_writes e key v targets replies st' c')"

definition no_write :: WriteResult where
  "no_write = \<lparr>wr_ok = False, wr_existed = False, wr_acks = 0\<rparr>"

definition cluster_replicate :: "env \<Rightarrow> string \<Rightarrow> VersionedValue \<Rightarrow> Cluster \<Rightarrow> WriteResult \<times> Cluster" where
  "cluster_replicate e key v c =
     (if can_serve_locally key True c
      then (case local_apply (e_write_now e) key v c of
              (live, c') \<Rightarrow> (\<lparr>wr_ok = True, wr_existed = live, wr_acks = 1\<rparr>, c'))
      else
        (let targets = cluster_preference_list key c in
         if targets = [] then (no_write, c)
         else
           (let needed = effective_quorum (cfg_write_quorum (cu_config c)) (length targets) c in
            case start_writes e key v targets \<lparr>ws_done = 0, ws_acks = 0, ws_existed = False\<rparr> c of
              (st, c) \<Rightarrow>
                (case finish_writes e key v targets (e_writes e) st c of
                   (st, c) \<Rightarrow>
                     (let ok = (needed \<le> ws_acks st)
                      in (\<lparr>wr_ok = ok, wr_existed = ws_existed st, wr_acks = ws_acks st\<rparr>,
                          if ok then c
                          else c\<lparr>cu_write_quorum_failures := cu_write_quorum_failures c + 1\<rparr>))))))"

section \<open>Collecting replies\<close>

record QuorumReplies =
  q_ok :: bool
  q_targets :: "CacheNode list"
  q_values :: "VersionedValue option list"
  q_replied :: "bool list"

record ReadState =
  rs_done :: nat
  rs_replies :: nat
  rs_values :: "VersionedValue option list"
  rs_replied :: "bool list"

definition record_read :: "nat \<Rightarrow> bool \<Rightarrow> VersionedValue option \<Rightarrow> ReadState \<Rightarrow> ReadState" where
  "record_read i ok v st =
     (let st = st\<lparr>rs_done := rs_done st + 1\<rparr>
      in if ok
         then st\<lparr>rs_replies := rs_replies st + 1, rs_replied := (rs_replied st)[i := True],
                 rs_values := (rs_values st)[i := v]\<rparr>
         else st)"

definition local_get :: "ticks \<Rightarrow> string \<Rightarrow> Cluster \<Rightarrow> VersionedValue option \<times> Cluster" where
  "local_get now key c =
     (case sharded_get_versioned now key (cu_local_cache c) of
        (v, cache) \<Rightarrow> (v, c\<lparr>cu_local_cache := cache\<rparr>))"

fun start_reads :: "env \<Rightarrow> string \<Rightarrow> CacheNode list \<Rightarrow> nat \<Rightarrow> ReadState \<Rightarrow> Cluster \<Rightarrow> ReadState \<times> Cluster" where
  "start_reads e key [] i st c = (st, c)"
| "start_reads e key (node # targets) i st c =
     (if cn_id node = local_id c
      then (case local_get (e_now e) key c of
              (v, c') \<Rightarrow> start_reads e key targets (i + 1) (record_read i True v st) c')
      else if \<not> is_node_healthy (cn_id node) c
      then start_reads e key targets (i + 1) (record_read i False None st) c
      else start_reads e key targets (i + 1) st c)"

text \<open>Whether a peer answered, and what it holds.\<close>

definition read_outcome :: "RespValue RequestResult \<Rightarrow> bool \<times> VersionedValue option" where
  "read_outcome res =
     (if \<not> rr_is_ok res then (False, None)
      else
        case rr_value res of
          None \<Rightarrow> (False, None)
        | Some reply \<Rightarrow>
            (let decoded = decode_replica_get reply
             in if rr_is_ok decoded then (True, rr_value decoded)
                else (rr_is_not_found decoded, None)))"

fun finish_reads :: "(nat \<times> RespValue RequestResult) list \<Rightarrow> ReadState \<Rightarrow> ReadState" where
  "finish_reads [] st = st"
| "finish_reads ((i, res) # replies) st =
     (case read_outcome res of (ok, v) \<Rightarrow> finish_reads replies (record_read i ok v st))"

definition collect :: "env \<Rightarrow> string \<Rightarrow> Cluster \<Rightarrow> QuorumReplies \<times> Cluster" where
  "collect e key c =
     (let targets = cluster_preference_list key c in
      if targets = [] then (\<lparr>q_ok = False, q_targets = [], q_values = [], q_replied = []\<rparr>, c)
      else
        (let needed = effective_quorum (cfg_read_quorum (cu_config c)) (length targets) c;
             st = \<lparr>rs_done = 0, rs_replies = 0, rs_values = replicate (length targets) None,
                   rs_replied = replicate (length targets) False\<rparr>
         in case start_reads e key targets 0 st c of
              (st, c) \<Rightarrow>
                (let st = finish_reads (e_reads e) st
                 in (\<lparr>q_ok = (needed \<le> rs_replies st), q_targets = targets,
                      q_values = rs_values st, q_replied = rs_replied st\<rparr>, c))))"

text \<open>The values of the replicas that answered and hold something, with their positions.\<close>

definition held :: "QuorumReplies \<Rightarrow> nat \<Rightarrow> VersionedValue option" where
  "held r i = (if q_replied r ! i then q_values r ! i else None)"

section \<open>Versions\<close>

definition next_version :: "env \<Rightarrow> string \<Rightarrow> Cluster \<Rightarrow> u64 option \<times> Cluster" where
  "next_version e key c =
     (let query = (cfg_consistency (cu_config c) = Linearizable \<and> \<not> can_serve_locally key True c) in
      case (if query then collect e key c else (\<lparr>q_ok = True, q_targets = [], q_values = [], q_replied = []\<rparr>, c)) of
        (replies, c) \<Rightarrow>
          if query \<and> \<not> q_ok replies
          then (None, c\<lparr>cu_write_quorum_failures := cu_write_quorum_failures c + 1\<rparr>)
          else
            (let clock = fold (\<lambda>i t. case held replies i of
                                       Some v \<Rightarrow> hlc_observe (vv_version v) t
                                     | None \<Rightarrow> t) [0..<length (q_values replies)] (cu_clock c)
             in case hlc_now (e_wall e) clock of
                  (version, clock) \<Rightarrow> (Some version, c\<lparr>cu_clock := clock\<rparr>)))"

definition put :: "env \<Rightarrow> string \<Rightarrow> string \<Rightarrow> millis option \<Rightarrow> Cluster \<Rightarrow> WriteResult \<times> Cluster" where
  "put e key value ttl c =
     (case next_version e key c of
        (None, c) \<Rightarrow> (no_write, c)
      | (Some version, c) \<Rightarrow>
          cluster_replicate e key
            \<lparr>vv_value = value, vv_version = version, vv_tombstone = False, vv_ttl = ttl\<rparr> c)"

definition cluster_del :: "env \<Rightarrow> string \<Rightarrow> Cluster \<Rightarrow> WriteResult \<times> Cluster" where
  "cluster_del e key c =
     (case next_version e key c of
        (None, c) \<Rightarrow> (no_write, c)
      | (Some version, c) \<Rightarrow>
          cluster_replicate e key
            \<lparr>vv_value = [], vv_version = version, vv_tombstone = True, vv_ttl = None\<rparr> c)"

section \<open>Reads\<close>

definition no_value :: VersionedValue where
  "no_value = \<lparr>vv_value = [], vv_version = 0, vv_tombstone = False, vv_ttl = None\<rparr>"

definition unavailable :: ReadResult where
  "unavailable = \<lparr>rd_status = Unavailable, rd_value = no_value\<rparr>"

definition to_result :: "VersionedValue option \<Rightarrow> ReadResult" where
  "to_result v =
     (case v of
        None \<Rightarrow> \<lparr>rd_status = NotFound, rd_value = no_value\<rparr>
      | Some v \<Rightarrow>
          if vv_tombstone v then \<lparr>rd_status = NotFound, rd_value = no_value\<rparr>
          else \<lparr>rd_status = Found, rd_value = v\<rparr>)"

definition pick_winner :: "QuorumReplies \<Rightarrow> VersionedValue option" where
  "pick_winner r =
     fold (\<lambda>i winner. case held r i of
             Some v \<Rightarrow> (case winner of
                          None \<Rightarrow> Some v
                        | Some w \<Rightarrow> if newer v w then Some v else Some w)
           | None \<Rightarrow> winner) [0..<length (q_targets r)] None"

text \<open>The positions that answered with the winner, and those that answered with something else.\<close>

definition agrees :: "QuorumReplies \<Rightarrow> VersionedValue \<Rightarrow> nat \<Rightarrow> bool" where
  "agrees r winner i = (case held r i of Some v \<Rightarrow> same_version v winner | None \<Rightarrow> False)"

definition up_to_date :: "QuorumReplies \<Rightarrow> VersionedValue \<Rightarrow> nat list" where
  "up_to_date r winner = filter (\<lambda>i. q_replied r ! i \<and> agrees r winner i) [0..<length (q_targets r)]"

definition stale_targets :: "QuorumReplies \<Rightarrow> VersionedValue \<Rightarrow> CacheNode list" where
  "stale_targets r winner =
     map (\<lambda>i. q_targets r ! i)
       (filter (\<lambda>i. q_replied r ! i \<and> \<not> agrees r winner i) [0..<length (q_targets r)])"

text \<open>Repair writes to peers are not waited for; here only the own copy changes.\<close>

fun read_repair :: "env \<Rightarrow> string \<Rightarrow> VersionedValue \<Rightarrow> CacheNode list \<Rightarrow> Cluster \<Rightarrow> Cluster" where
  "read_repair e key winner [] c = c"
| "read_repair e key winner (node # stale) c =
     (if cn_id node = local_id c
      then read_repair e key winner stale (snd (local_apply (e_write_now e) key winner c))
      else read_repair e key winner stale c)"

definition cluster_read :: "env \<Rightarrow> string \<Rightarrow> Cluster \<Rightarrow> ReadResult \<times> Cluster" where
  "cluster_read e key c =
     (if can_serve_locally key False c
      then (case local_get (e_now e) key c of (v, c) \<Rightarrow> (to_result v, c))
      else
        case collect e key c of
          (replies, c) \<Rightarrow>
            if \<not> q_ok replies
            then (unavailable, c\<lparr>cu_read_quorum_failures := cu_read_quorum_failures c + 1\<rparr>)
            else
              (case pick_winner replies of
                 None \<Rightarrow> (to_result None, c)
               | Some winner \<Rightarrow>
                   (let c = c\<lparr>cu_clock := hlc_observe (vv_version winner) (cu_clock c)\<rparr>;
                        stale = stale_targets replies winner;
                        fresh = length (up_to_date replies winner);
                        write_quorum = effective_quorum (cfg_write_quorum (cu_config c)) (length (q_targets replies)) c;
                        c = c\<lparr>cu_read_repairs := cu_read_repairs c + of_nat (length stale)\<rparr>
                    in if cfg_consistency (cu_config c) = Linearizable \<and> fresh < write_quorum
                       then (case cluster_replicate e key winner c of
                               (result, c) \<Rightarrow>
                                 (if wr_ok result then to_result (Some winner) else unavailable, c))
                       else (to_result (Some winner), if stale \<noteq> [] then read_repair e key winner stale c else c))))"

text \<open>A read and then a write, each with its own replies.\<close>

definition expire_key :: "env \<Rightarrow> env \<Rightarrow> string \<Rightarrow> millis \<Rightarrow> Cluster \<Rightarrow> WriteResult \<times> Cluster" where
  "expire_key e e' key ttl c =
     (case cluster_read e key c of
        (current, c) \<Rightarrow>
          (case rd_status current of
             Unavailable \<Rightarrow> (no_write, c)
           | NotFound \<Rightarrow> (\<lparr>wr_ok = True, wr_existed = False, wr_acks = 0\<rparr>, c)
           | Found \<Rightarrow>
               (case hlc_now (e_wall e') (cu_clock c) of
                  (version, clock) \<Rightarrow>
                    (case cluster_replicate e' key
                            \<lparr>vv_value = vv_value (rd_value current), vv_version = version,
                             vv_tombstone = False, vv_ttl = Some ttl\<rparr> (c\<lparr>cu_clock := clock\<rparr>) of
                       (result, c) \<Rightarrow> (result\<lparr>wr_existed := True\<rparr>, c)))))"

section \<open>Convenience wrappers\<close>

definition cluster_set :: "env \<Rightarrow> string \<Rightarrow> string \<Rightarrow> millis option \<Rightarrow> Cluster \<Rightarrow> bool \<times> Cluster" where
  "cluster_set e key value ttl c = (case put e key value ttl c of (r, c) \<Rightarrow> (wr_ok r, c))"

definition cluster_get :: "env \<Rightarrow> string \<Rightarrow> Cluster \<Rightarrow> string option \<times> Cluster" where
  "cluster_get e key c =
     (case cluster_read e key c of
        (r, c) \<Rightarrow> (if rd_status r \<noteq> Found then None else Some (vv_value (rd_value r)), c))"

definition cluster_exists :: "env \<Rightarrow> string \<Rightarrow> Cluster \<Rightarrow> bool \<times> Cluster" where
  "cluster_exists e key c = (case cluster_read e key c of (r, c) \<Rightarrow> (rd_status r = Found, c))"

definition cluster_remove :: "env \<Rightarrow> string \<Rightarrow> Cluster \<Rightarrow> bool \<times> Cluster" where
  "cluster_remove e key c = (case cluster_del e key c of (r, c) \<Rightarrow> (wr_ok r \<and> wr_existed r, c))"

definition cluster_expire :: "env \<Rightarrow> env \<Rightarrow> string \<Rightarrow> millis \<Rightarrow> Cluster \<Rightarrow> bool \<times> Cluster" where
  "cluster_expire e e' key ttl c = (case expire_key e e' key ttl c of (r, c) \<Rightarrow> (wr_ok r \<and> wr_existed r, c))"

definition cluster_pttl :: "env \<Rightarrow> string \<Rightarrow> Cluster \<Rightarrow> int \<times> Cluster" where
  "cluster_pttl e key c =
     (case cluster_read e key c of
        (r, c) \<Rightarrow>
          (if rd_status r \<noteq> Found then -2
           else case vv_ttl (rd_value r) of Some t \<Rightarrow> t | None \<Rightarrow> -1, c))"

definition cluster_get_or_load ::
    "ticks \<Rightarrow> ticks \<Rightarrow> ticks \<Rightarrow> string \<Rightarrow> string option \<Rightarrow> millis option \<Rightarrow> Cluster \<Rightarrow> string option \<times> Cluster" where
  "cluster_get_or_load t1 t2 t3 key loader ttl c =
     (case get_or_load t1 t2 t3 key loader ttl (cu_local_cache c) of
        (r, cache) \<Rightarrow> (r, c\<lparr>cu_local_cache := cache\<rparr>))"

section \<open>The replica side\<close>

definition apply_replica_write :: "ticks \<Rightarrow> string \<Rightarrow> VersionedValue \<Rightarrow> Cluster \<Rightarrow> bool \<times> Cluster" where
  "apply_replica_write now key v c =
     local_apply now key v (c\<lparr>cu_clock := hlc_observe (vv_version v) (cu_clock c)\<rparr>)"

definition replica_read :: "ticks \<Rightarrow> string \<Rightarrow> Cluster \<Rightarrow> VersionedValue option \<times> Cluster" where
  "replica_read now key c = local_get now key c"

end
