(* ===== verification/Replication.thy ===== *)
theory Replication
  imports Coordinator
begin

text \<open>
  What the quorums guarantee: the coordinator counts acknowledgements and replies correctly, keeps a
  hint for every write that was refused, and, when the configured quorums overlap, a read that
  succeeds returns an acknowledged write or something newer.
\<close>

section \<open>Acknowledgements\<close>

text \<open>Every answer belongs to a call that was made, and a call is answered at most once.\<close>

definition calls_made :: "(nat \<times> RespValue RequestResult) list \<Rightarrow> CacheNode list \<Rightarrow> Cluster \<Rightarrow> bool" where
  "calls_made replies targets c \<longleftrightarrow>
     distinct (map fst replies) \<and>
     (\<forall>(i, res) \<in> set replies. i < length targets \<and> cn_id (targets ! i) \<noteq> local_id c \<and>
        is_node_healthy (cn_id (targets ! i)) c)"

definition acked :: "env \<Rightarrow> CacheNode list \<Rightarrow> Cluster \<Rightarrow> nat set" where
  "acked e targets c =
     {i. i < length targets \<and> cn_id (targets ! i) = local_id c} \<union>
     {i. \<exists>res. (i, res) \<in> set (e_writes e) \<and> fst (write_outcome res)}"

definition missed :: "env \<Rightarrow> CacheNode list \<Rightarrow> Cluster \<Rightarrow> nat \<Rightarrow> bool" where
  "missed e targets c i \<longleftrightarrow>
     cn_id (targets ! i) \<noteq> local_id c \<and>
     (\<not> is_node_healthy (cn_id (targets ! i)) c \<or> (\<exists>res. (i, res) \<in> set (e_writes e) \<and> \<not> fst (write_outcome res)))"

lemma local_apply_parts [simp]:
  "cu_local_node (snd (local_apply now key v c)) = cu_local_node c"
  "cu_node_health (snd (local_apply now key v c)) = cu_node_health c"
  "cu_config (snd (local_apply now key v c)) = cu_config c"
  "cu_hints (snd (local_apply now key v c)) = cu_hints c"
  "hint_queue x (snd (local_apply now key v c)) = hint_queue x c"
  "is_node_healthy x (snd (local_apply now key v c)) = is_node_healthy x c"
  by (simp_all add: local_apply_def hint_queue_def is_node_healthy_def case_prod_beta)

lemma add_hint_health [simp]: "is_node_healthy x (add_hint now node key v c) = is_node_healthy x c"
  by (simp add: is_node_healthy_def add_hint_parts)

definition the_hint :: "env \<Rightarrow> string \<Rightarrow> VersionedValue \<Rightarrow> Hint" where
  "the_hint e key v = \<lparr>hint_key = key, hint_value = v,
     hint_deadline = map_option (\<lambda>t. e_write_now e + ticks_of_millis t) (vv_ttl v)\<rparr>"

lemma start_writes_parts:
  "start_writes e key v ts st c = (st', c') \<Longrightarrow>
   ws_acks st' = ws_acks st + length (filter (\<lambda>n. cn_id n = local_id c) ts) \<and>
   cu_local_node c' = cu_local_node c \<and> cu_config c' = cu_config c \<and> cu_node_health c' = cu_node_health c \<and>
   (\<forall>x. hint_queue x c' = hint_queue x c \<or> last (hint_queue x c') = the_hint e key v) \<and>
   (\<forall>n \<in> set ts. cn_id n \<noteq> local_id c \<longrightarrow> \<not> is_node_healthy (cn_id n) c \<longrightarrow>
      last (hint_queue (cn_id n) c') = the_hint e key v)"
proof (induction ts arbitrary: st c)
  case (Cons n ts)
  consider (loc) "cn_id n = local_id c" | (sick) "cn_id n \<noteq> local_id c" "\<not> is_node_healthy (cn_id n) c"
    | (called) "cn_id n \<noteq> local_id c" "is_node_healthy (cn_id n) c" by blast
  then show ?case
  proof cases
    case loc
    let ?c = "snd (local_apply (e_write_now e) key v c)"
    obtain b where "start_writes e key v ts (record_write True b st) ?c = (st', c')"
      using Cons.prems loc by (auto split: prod.splits)
    from Cons.IH [OF this] loc show ?thesis by (auto simp: record_write_def)
  next
    case sick
    let ?c = "add_hint (e_write_now e) n key v c"
    have "start_writes e key v ts (record_write False False st) ?c = (st', c')"
      using Cons.prems sick by simp
    note ih = Cons.IH [OF this]
    have hint: "last (hint_queue (cn_id n) ?c) = the_hint e key v" by (simp add: add_hint_parts the_hint_def)
    have "hint_queue x c' = hint_queue x c \<or> last (hint_queue x c') = the_hint e key v" for x
      using ih hint by (cases "x = cn_id n") (metis add_hint_parts(1))+
    moreover have "last (hint_queue (cn_id n) c') = the_hint e key v" using ih hint by metis
    ultimately show ?thesis using ih sick by (auto simp: record_write_def add_hint_parts)
  next
    case called
    with Cons.prems Cons.IH show ?thesis by auto
  qed
qed simp

lemma finish_writes_parts:
  "finish_writes e key v ts replies st c = (st', c') \<Longrightarrow>
   ws_acks st' = ws_acks st + length (filter (\<lambda>p. fst (write_outcome (snd p))) replies) \<and>
   (\<forall>x. last (hint_queue x c) = the_hint e key v \<longrightarrow> last (hint_queue x c') = the_hint e key v) \<and>
   (\<forall>(i, res) \<in> set replies. \<not> fst (write_outcome res) \<longrightarrow>
      last (hint_queue (cn_id (ts ! i)) c') = the_hint e key v)"
proof (induction replies arbitrary: st c)
  case (Cons p replies)
  obtain i res where p: "p = (i, res)" by (cases p)
  obtain ok live where o: "write_outcome res = (ok, live)" by fastforce
  let ?c = "if ok then c else add_hint (e_write_now e) (ts ! i) key v c"
  have "finish_writes e key v ts replies (record_write ok live st) ?c = (st', c')"
    using Cons.prems by (simp add: p o write_reply_def)
  note ih = Cons.IH [OF this]
  have hint: "last (hint_queue (cn_id (ts ! i)) (add_hint (e_write_now e) (ts ! i) key v c)) = the_hint e key v"
    "last (hint_queue x c) = the_hint e key v \<Longrightarrow> last (hint_queue x ?c) = the_hint e key v" for x
    by (simp_all add: add_hint_parts the_hint_def)
  show ?case
    using ih hint o by (cases ok) (auto simp: p record_write_def)
qed simp

lemma card_acked:
  assumes "calls_made (e_writes e) ts c"
  shows "card (acked e ts c) =
    length (filter (\<lambda>n. cn_id n = local_id c) ts) + length (filter (\<lambda>p. fst (write_outcome (snd p))) (e_writes e))"
    and "acked e ts c \<subseteq> {..<length ts}"
proof -
  let ?good = "filter (\<lambda>p. fst (write_outcome (snd p))) (e_writes e)"
  have d: "distinct (map fst (e_writes e))"
    and r: "\<And>i res. (i, res) \<in> set (e_writes e) \<Longrightarrow> i < length ts \<and> cn_id (ts ! i) \<noteq> local_id c"
    using assms by (auto simp: calls_made_def)
  have calls: "{i. \<exists>res. (i, res) \<in> set (e_writes e) \<and> fst (write_outcome res)} = set (map fst ?good)"
    by force
  have own: "card {i. i < length ts \<and> cn_id (ts ! i) = local_id c} = length (filter (\<lambda>n. cn_id n = local_id c) ts)"
    by (simp add: length_filter_conv_card)
  have "card (set (map fst ?good)) = length ?good"
    using d by (metis distinct_card distinct_map_filter length_map)
  moreover have "{i. i < length ts \<and> cn_id (ts ! i) = local_id c} \<inter> set (map fst ?good) = {}"
    using r by fastforce
  ultimately show "card (acked e ts c) =
      length (filter (\<lambda>n. cn_id n = local_id c) ts) + length (filter (\<lambda>p. fst (write_outcome (snd p))) (e_writes e))"
    unfolding acked_def calls by (subst card_Un_disjoint) (simp_all add: own)
  show "acked e ts c \<subseteq> {..<length ts}" using r by (auto simp: acked_def)
qed

lemma effective_quorum_pos: "1 \<le> effective_quorum q n c"
  by (simp add: effective_quorum_def Let_def)

lemma replicate_outcome:
  assumes "\<not> can_serve_locally key True c" and "targets = cluster_preference_list key c"
    and "calls_made (e_writes e) targets c" and "cluster_replicate e key v c = (r, c')"
  shows "wr_acks r = card (acked e targets c)
    \<and> (wr_ok r \<longleftrightarrow> effective_quorum (cfg_write_quorum (cu_config c)) (length targets) c \<le> card (acked e targets c))
    \<and> (\<forall>i < length targets. missed e targets c i \<longrightarrow>
        last (hint_queue (cn_id (targets ! i)) c') = \<lparr>hint_key = key, hint_value = v,
          hint_deadline = map_option (\<lambda>t. e_write_now e + ticks_of_millis t) (vv_ttl v)\<rparr>)"
proof (cases "targets = []")
  case True
  have none: "acked e [] c = {}" using card_acked(2) [of e "[]" c] assms(3) True by auto
  have pos: "0 < effective_quorum q 0 c" for q using effective_quorum_pos [of q 0 c] by simp
  have "r = no_write" using True assms by (simp add: cluster_replicate_def Let_def)
  then show ?thesis by (simp add: True none pos no_write_def)
next
  case False
  obtain st1 c1 st2 c2 where
    s: "start_writes e key v targets \<lparr>ws_done = 0, ws_acks = 0, ws_existed = False\<rparr> c = (st1, c1)"
      "finish_writes e key v targets (e_writes e) st1 c1 = (st2, c2)"
    by fastforce
  let ?needed = "effective_quorum (cfg_write_quorum (cu_config c)) (length targets) c"
  have r: "wr_acks r = ws_acks st2" "wr_ok r \<longleftrightarrow> ?needed \<le> ws_acks st2" "\<And>x. hint_queue x c' = hint_queue x c2"
    using assms(4) False assms(1) s by (auto simp: cluster_replicate_def Let_def assms(2) hint_queue_def split: if_splits)
  note p1 = start_writes_parts [OF s(1)] and p2 = finish_writes_parts [OF s(2)]
  have "ws_acks st2 = card (acked e targets c)"
    using p1 p2 card_acked(1) [OF assms(3)] by simp
  moreover have "last (hint_queue (cn_id (targets ! i)) c2) = the_hint e key v"
    if i: "i < length targets" "missed e targets c i" for i
  proof (cases "is_node_healthy (cn_id (targets ! i)) c")
    case True
    with i(2) obtain res where "(i, res) \<in> set (e_writes e)" "\<not> fst (write_outcome res)" by (auto simp: missed_def)
    with p2 show ?thesis by auto
  next
    case False
    with i p1 have "last (hint_queue (cn_id (targets ! i)) c1) = the_hint e key v"
      by (auto simp: missed_def)
    with p2 show ?thesis by blast
  qed
  ultimately show ?thesis by (simp add: r the_hint_def)
qed

text \<open>C9: A write that needs the peers succeeds exactly when as many replicas as the write quorum
  asks for have acknowledged it, and it reports how many did. Whatever the outcome, every replica
  that was down or refused has the write as the newest hint in its queue.\<close>

theorem write_counts_acks:
  assumes "\<not> can_serve_locally key True c" and "targets = cluster_preference_list key c"
    and "calls_made (e_writes e) targets c" and "cluster_replicate e key v c = (r, c')"
  shows "wr_acks r = card (acked e targets c)
    \<and> (wr_ok r \<longleftrightarrow> effective_quorum (cfg_write_quorum (cu_config c)) (length targets) c \<le> card (acked e targets c))
    \<and> (\<forall>i < length targets. missed e targets c i \<longrightarrow>
        last (hint_queue (cn_id (targets ! i)) c') = \<lparr>hint_key = key, hint_value = v,
          hint_deadline = map_option (\<lambda>t. e_write_now e + ticks_of_millis t) (vv_ttl v)\<rparr>)"
  using replicate_outcome [OF assms] .

section \<open>Who holds a copy\<close>

lemma rt_walk_length: "length (rt_walk owner n p steps lst) \<le> max n (length lst)"
proof (induction steps arbitrary: lst)
  case (Cons st steps)
  show ?case
  proof (cases "length lst < n")
    case True
    let ?c = "owner ! ((p + st) mod length owner)"
    have "length (rt_walk owner n p steps (if ?c \<in> set lst then lst else lst @ [?c])) \<le>
        max n (length (if ?c \<in> set lst then lst else lst @ [?c]))" by (rule Cons.IH)
    with True show ?thesis by (auto simp: Let_def split: if_splits)
  qed simp
qed simp

lemma point_for_less: "rt_points t \<noteq> [] \<Longrightarrow> point_for key t < length (rt_points t)"
  using lower_bound_le [of "hash_fn key" "rt_points t"]
  by (cases "lower_bound (hash_fn key) (rt_points t) = length (rt_points t)") (auto simp: point_for_def Let_def le_less)

text \<open>The preference list of a fresh table has at most as many nodes as copies are wanted, and a node
  that may serve a key alone is in it.\<close>

lemma preference_list_length:
  assumes "routing_fresh c"
  shows "length (cluster_preference_list key c) \<le> cfg_replication_factor (cu_config c)"
proof (cases "rt_empty (routing_table c)")
  case True
  then show ?thesis by (simp add: cluster_preference_list_def preference_list_def)
next
  case False
  let ?t = "routing_table c"
  have p: "point_for key ?t < length (rt_points ?t)" using False by (intro point_for_less) (simp add: rt_empty_def)
  have t: "?t = new_routing_table (cu_ring c) (cfg_replication_factor (cu_config c)) (local_id c)"
    using assms by (simp add: routing_fresh_def)
  have "length (rt_replicas ?t ! point_for key ?t) \<le> cfg_replication_factor (cu_config c)"
    using p rt_walk_length
    unfolding t new_routing_table_def Let_def by (fastforce intro: order_trans [OF rt_walk_length])
  with False show ?thesis by (simp add: cluster_preference_list_def preference_list_def preference_list_at_def)
qed

lemma local_in_preference_list:
  assumes "routing_fresh c" and "can_serve_locally key w c"
  shows "local_id c \<in> cn_id ` set (cluster_preference_list key c)"
    and "length (rt_replicas (routing_table c) ! point_for key (routing_table c)) = length (cluster_preference_list key c)"
proof -
  let ?t = "routing_table c"
  have ne: "\<not> rt_empty ?t" and l: "local_is_replica (point_for key ?t) ?t"
    using assms(2) by (auto simp: can_serve_locally_def Let_def split: if_splits)
  have p: "point_for key ?t < length (rt_points ?t)" using ne by (intro point_for_less) (simp add: rt_empty_def)
  have t: "?t = new_routing_table (cu_ring c) (cfg_replication_factor (cu_config c)) (local_id c)"
    using assms by (simp add: routing_fresh_def)
  have "\<exists>idx \<in> set (rt_replicas ?t ! point_for key ?t). cn_id (rt_node idx ?t) = local_id c"
    using l p unfolding t local_is_replica_def new_routing_table_def Let_def rt_node_def by simp
  then show "local_id c \<in> cn_id ` set (cluster_preference_list key c)"
    using ne by (simp add: cluster_preference_list_def preference_list_def preference_list_at_def image_iff) metis
  show "length (rt_replicas ?t ! point_for key ?t) = length (cluster_preference_list key c)"
    using ne by (simp add: cluster_preference_list_def preference_list_def preference_list_at_def)
qed

text \<open>A successful write, on either path, was acknowledged by a write quorum.\<close>

lemma replicate_ok_quorum:
  assumes fresh: "routing_fresh c" and calls: "calls_made (e_writes e) (cluster_preference_list key c) c"
    and ok: "wr_ok (fst (cluster_replicate e key v c))"
  shows "effective_quorum (cfg_write_quorum (cu_config c)) (length (cluster_preference_list key c)) c
    \<le> card (acked e (cluster_preference_list key c) c)"
proof (cases "can_serve_locally key True c")
  case True
  let ?ts = "cluster_preference_list key c"
  have "length ?ts = 1"
    using True local_in_preference_list(2) [OF fresh True] by (auto simp: can_serve_locally_def Let_def split: if_splits)
  moreover have "local_id c \<in> cn_id ` set ?ts" by (rule local_in_preference_list(1) [OF fresh True])
  ultimately have "0 \<in> acked e ?ts c" by (auto simp: acked_def length_Suc_conv)
  then have "0 < card (acked e ?ts c)"
    using finite_subset [OF card_acked(2) [OF calls]] by (auto simp: card_gt_0_iff)
  with \<open>length ?ts = 1\<close> show ?thesis by (simp add: effective_quorum_def Let_def)
next
  case False
  obtain r c' where rep: "cluster_replicate e key v c = (r, c')" by fastforce
  with replicate_outcome [OF False refl calls rep] ok show ?thesis by simp
qed

section \<open>Replies\<close>

lemma newer_stamp: "newer a b \<longleftrightarrow> stamp_less (stamp_of_value b) (stamp_of_value a)"
  by (simp add: newer_def supersedes_stamp stamp_of_entry_def stamp_of_value_def)

lemma same_version_stamp: "same_version a b \<longleftrightarrow> stamp_of_value a = stamp_of_value b"
  by (auto simp: same_version_def stamp_of_value_def)

text \<open>The winner is the newest of the values held by the replicas that answered.\<close>

lemma fold_winner:
  assumes "fold (\<lambda>i w. case held r i of
             Some v \<Rightarrow> (case w of None \<Rightarrow> Some v | Some w \<Rightarrow> if newer v w then Some v else Some w)
           | None \<Rightarrow> w) is w0 = w"
  shows "(\<forall>i \<in> set is. \<forall>v. held r i = Some v \<longrightarrow> (\<exists>u. w = Some u \<and> stamp_le (stamp_of_value v) (stamp_of_value u)))
    \<and> (\<forall>v. w0 = Some v \<longrightarrow> (\<exists>u. w = Some u \<and> stamp_le (stamp_of_value v) (stamp_of_value u)))
    \<and> (w = w0 \<or> (\<exists>i \<in> set is. held r i = w))"
  using assms
proof (induction "is" arbitrary: w0)
  case (Cons i "is")
  define w1 where "w1 = (case held r i of
      Some v \<Rightarrow> (case w0 of None \<Rightarrow> Some v | Some w \<Rightarrow> if newer v w then Some v else Some w) | None \<Rightarrow> w0)"
  have rest: "fold (\<lambda>i w. case held r i of
             Some v \<Rightarrow> (case w of None \<Rightarrow> Some v | Some w \<Rightarrow> if newer v w then Some v else Some w)
           | None \<Rightarrow> w) is w1 = w"
    using Cons.prems by (simp add: w1_def)
  note ih = Cons.IH [OF rest]
  have w1: "\<exists>u. w1 = Some u \<and> stamp_le (stamp_of_value v) (stamp_of_value u)" if "held r i = Some v \<or> w0 = Some v" for v
    using that by (auto simp: w1_def newer_stamp stamp.less_imp_le stamp.not_less split: option.splits)
  have up: "\<exists>u. w = Some u \<and> stamp_le (stamp_of_value v) (stamp_of_value u)" if "held r i = Some v \<or> w0 = Some v" for v
    using w1 [OF that] ih stamp.order_trans by blast
  have "w1 = w0 \<or> held r i = w1" by (auto simp: w1_def split: option.splits if_splits)
  with ih up show ?case by auto
qed simp

lemma pick_winner_newest:
  shows "i < length (q_targets r) \<Longrightarrow> held r i = Some v \<Longrightarrow>
      \<exists>u. pick_winner r = Some u \<and> stamp_le (stamp_of_value v) (stamp_of_value u)"
    and "pick_winner r = Some u \<Longrightarrow> \<exists>i < length (q_targets r). held r i = Some u"
  using fold_winner [OF pick_winner_def [symmetric], of r] by auto

section \<open>What a collected reply says\<close>

definition replied :: "QuorumReplies \<Rightarrow> nat set" where
  "replied r = {i. i < length (q_targets r) \<and> q_replied r ! i}"

definition read_state_ok :: "nat \<Rightarrow> ReadState \<Rightarrow> bool" where
  "read_state_ok n st \<longleftrightarrow>
     length (rs_values st) = n \<and> length (rs_replied st) = n \<and>
     rs_replies st = card {i. i < n \<and> rs_replied st ! i}"

lemma record_read_ok:
  assumes "read_state_ok n st" "i < n" "\<not> rs_replied st ! i"
  shows "read_state_ok n (record_read i ok v st)"
proof (cases ok)
  case True
  have "{j. j < n \<and> (rs_replied st)[i := True] ! j} = insert i {j. j < n \<and> rs_replied st ! j}"
    using assms by (auto simp: read_state_ok_def nth_list_update)
  with assms True show ?thesis by (simp add: read_state_ok_def record_read_def Let_def)
qed (use assms in \<open>simp add: read_state_ok_def record_read_def Let_def\<close>)

lemma record_read_nth:
  assumes "read_state_ok n st" "i < n" "j < n"
  shows "rs_replied (record_read i ok v st) ! j = (if i = j \<and> ok then True else rs_replied st ! j)"
    and "rs_values (record_read i ok v st) ! j = (if i = j \<and> ok then v else rs_values st ! j)"
  using assms by (auto simp: read_state_ok_def record_read_def Let_def nth_list_update)

lemma local_get_parts [simp]:
  "cu_local_node (snd (local_get now key c)) = cu_local_node c"
  "cu_node_health (snd (local_get now key c)) = cu_node_health c"
  "cu_config (snd (local_get now key c)) = cu_config c"
  "cu_routing (snd (local_get now key c)) = cu_routing c"
  "cu_ring (snd (local_get now key c)) = cu_ring c"
  "cu_clock (snd (local_get now key c)) = cu_clock c"
  "is_node_healthy x (snd (local_get now key c)) = is_node_healthy x c"
  by (simp_all add: local_get_def is_node_healthy_def case_prod_beta)

text \<open>A well-formed local store, and what it shows of a key.\<close>

definition store_wf :: "Cluster \<Rightarrow> bool" where
  "store_wf c \<longleftrightarrow> sharded_wf (cu_local_cache c) \<and> uniform (cu_local_cache c)"

definition exhibits :: "ticks \<Rightarrow> string \<Rightarrow> Cluster \<Rightarrow> VersionedValue option" where
  "exhibits now key c = visible now (sharded_look (cu_local_cache c) key)"

lemma local_get_exhibits:
  assumes "store_wf c"
  shows "fst (local_get now key c) = exhibits now key c" "store_wf (snd (local_get now key c))"
    "exhibits now' key' (snd (local_get now key c)) = exhibits now' key' c"
  using assms sharded.getv_reply [of "cu_local_cache c" now key] sharded.getv_inv [of "cu_local_cache c" now key]
    sharded.getv_look [of "cu_local_cache c" now key]
  by (simp_all add: local_get_def exhibits_def store_wf_def case_prod_beta)

lemma start_reads_parts:
  "start_reads e key ts i st c = (st', c') \<Longrightarrow> store_wf c \<Longrightarrow> read_state_ok n st \<Longrightarrow> i + length ts = n \<Longrightarrow>
   (\<And>j. i \<le> j \<Longrightarrow> j < n \<Longrightarrow> \<not> rs_replied st ! j) \<Longrightarrow>
   read_state_ok n st' \<and> store_wf c' \<and> (\<forall>t k. exhibits t k c' = exhibits t k c) \<and>
   cu_local_node c' = cu_local_node c \<and> cu_config c' = cu_config c \<and> cu_routing c' = cu_routing c \<and>
   cu_ring c' = cu_ring c \<and> cu_clock c' = cu_clock c \<and> cu_node_health c' = cu_node_health c \<and>
   (\<forall>j < n. (rs_replied st' ! j \<longleftrightarrow> rs_replied st ! j \<or> i \<le> j \<and> cn_id (ts ! (j - i)) = local_id c) \<and>
      rs_values st' ! j =
        (if i \<le> j \<and> cn_id (ts ! (j - i)) = local_id c then exhibits (e_now e) key c else rs_values st ! j))"
proof (induction ts arbitrary: i st c)
  case (Cons node ts)
  have i: "i < n" "Suc i + length ts = n" using Cons.prems(4) by auto
  have fresh: "\<not> rs_replied st ! i" using Cons.prems(5) i by simp
  have nth: "(node # ts) ! (j - i) = ts ! (j - Suc i)" if "Suc i \<le> j" for j
    using that by (simp add: nth_Cons')
  have le: "i \<le> j \<longleftrightarrow> j = i \<or> Suc i \<le> j" for j by auto
  consider (own) "cn_id node = local_id c" | (sick) "cn_id node \<noteq> local_id c" "\<not> is_node_healthy (cn_id node) c"
    | (called) "cn_id node \<noteq> local_id c" "is_node_healthy (cn_id node) c" by blast
  then show ?case
  proof cases
    case own
    let ?c = "snd (local_get (e_now e) key c)" and ?st = "record_read i True (fst (local_get (e_now e) key c)) st"
    have run: "start_reads e key ts (Suc i) ?st ?c = (st', c')"
      using Cons.prems(1) own by (simp add: case_prod_beta)
    have ok: "read_state_ok n ?st" by (rule record_read_ok [OF Cons.prems(3) i(1) fresh])
    have un: "\<not> rs_replied ?st ! j" if "Suc i \<le> j" "j < n" for j
      using that Cons.prems(5) [of j] record_read_nth(1) [OF Cons.prems(3) i(1), of j] by auto
    note ih = Cons.IH [OF run local_get_exhibits(2) [OF Cons.prems(2)] ok i(2) un]
    show ?thesis
      using ih own local_get_exhibits [OF Cons.prems(2)] record_read_nth [OF Cons.prems(3) i(1)] fresh
      by (auto simp: le nth)
  next
    case sick
    let ?st = "record_read i False None st"
    have run: "start_reads e key ts (Suc i) ?st c = (st', c')" using Cons.prems(1) sick by simp
    have ok: "read_state_ok n ?st" by (rule record_read_ok [OF Cons.prems(3) i(1) fresh])
    have un: "\<not> rs_replied ?st ! j" if "Suc i \<le> j" "j < n" for j
      using that Cons.prems(5) [of j] record_read_nth(1) [OF Cons.prems(3) i(1), of j] by auto
    note ih = Cons.IH [OF run Cons.prems(2) ok i(2) un]
    show ?thesis
      using ih sick record_read_nth [OF Cons.prems(3) i(1)] by (auto simp: le nth)
  next
    case called
    have run: "start_reads e key ts (Suc i) st c = (st', c')" using Cons.prems(1) called by simp
    have un: "\<not> rs_replied st ! j" if "Suc i \<le> j" "j < n" for j using that Cons.prems(5) [of j] by auto
    note ih = Cons.IH [OF run Cons.prems(2,3) i(2) un]
    show ?thesis using ih called by (auto simp: le nth)
  qed
qed auto

lemma finish_reads_parts:
  "read_state_ok n st \<Longrightarrow> distinct (map fst replies) \<Longrightarrow>
   (\<forall>p \<in> set replies. fst p < n \<and> \<not> rs_replied st ! fst p) \<Longrightarrow>
   read_state_ok n (finish_reads replies st) \<and>
   (\<forall>j < n. (rs_replied (finish_reads replies st) ! j \<longleftrightarrow>
        rs_replied st ! j \<or> (\<exists>res. (j, res) \<in> set replies \<and> fst (read_outcome res)))) \<and>
   (\<forall>(j, res) \<in> set replies. fst (read_outcome res) \<longrightarrow> rs_values (finish_reads replies st) ! j = snd (read_outcome res)) \<and>
   (\<forall>j < n. j \<notin> fst ` set replies \<longrightarrow> rs_values (finish_reads replies st) ! j = rs_values st ! j)"
proof (induction replies arbitrary: st)
  case (Cons p replies)
  obtain i res where p: "p = (i, res)" by (cases p)
  obtain ok v where o: "read_outcome res = (ok, v)" by fastforce
  let ?st = "record_read i ok v st"
  have i: "i < n" "\<not> rs_replied st ! i" "i \<notin> fst ` set replies" using Cons.prems(2,3) by (auto simp: p)
  have st: "read_state_ok n ?st" by (rule record_read_ok [OF Cons.prems(1) i(1,2)])
  note nth = record_read_nth [OF Cons.prems(1) i(1)]
  have others: "\<forall>q \<in> set replies. fst q < n \<and> \<not> rs_replied ?st ! fst q"
  proof
    fix q assume q: "q \<in> set replies"
    then have "fst q < n" "\<not> rs_replied st ! fst q" "fst q \<noteq> i" using Cons.prems(3) i(3) by (auto simp: p)
    then show "fst q < n \<and> \<not> rs_replied ?st ! fst q" by (simp add: nth)
  qed
  have d: "distinct (map fst replies)" using Cons.prems(2) by simp
  note ih = Cons.IH [OF st d others]
  have fin: "finish_reads (p # replies) st = finish_reads replies ?st" by (simp add: p o)
  have "rs_values (finish_reads replies ?st) ! i = v" if ok using ih i that by (simp add: nth)
  moreover have "rs_values (finish_reads replies ?st) ! j = rs_values st ! j" if "j < n" "j \<notin> fst ` set (p # replies)" for j
    using ih that by (simp add: nth p)
  ultimately show ?case unfolding fin using ih i o by (auto simp: p nth)
qed simp

lemma collect_parts:
  assumes c: "collect e key c = (r, c')" and wf: "store_wf c"
    and calls: "calls_made (e_reads e) (cluster_preference_list key c) c"
  shows "q_targets r = cluster_preference_list key c"
    and "q_ok r \<Longrightarrow> effective_quorum (cfg_read_quorum (cu_config c)) (length (cluster_preference_list key c)) c \<le> card (replied r)"
    and "replied r = {i. i < length (cluster_preference_list key c) \<and> cn_id (cluster_preference_list key c ! i) = local_id c}
      \<union> {i. \<exists>res. (i, res) \<in> set (e_reads e) \<and> fst (read_outcome res)}"
    and "i < length (cluster_preference_list key c) \<Longrightarrow> cn_id (cluster_preference_list key c ! i) = local_id c \<Longrightarrow>
      held r i = exhibits (e_now e) key c"
    and "(i, res) \<in> set (e_reads e) \<Longrightarrow> fst (read_outcome res) \<Longrightarrow> held r i = snd (read_outcome res)"
    and "store_wf c' \<and> (\<forall>t k. exhibits t k c' = exhibits t k c) \<and> cu_local_node c' = cu_local_node c \<and>
      cu_config c' = cu_config c \<and> cu_routing c' = cu_routing c \<and> cu_ring c' = cu_ring c \<and>
      cu_clock c' = cu_clock c \<and> cu_node_health c' = cu_node_health c"
    and "length (q_values r) = length (cluster_preference_list key c)"
proof -
  define ts where "ts = cluster_preference_list key c"
  define st0 where "st0 = \<lparr>rs_done = 0, rs_replies = 0, rs_values = replicate (length ts) None,
                   rs_replied = replicate (length ts) False\<rparr>"
  have "q_targets r = ts \<and> (q_ok r \<longrightarrow> effective_quorum (cfg_read_quorum (cu_config c)) (length ts) c \<le> card (replied r))
    \<and> replied r = {i. i < length ts \<and> cn_id (ts ! i) = local_id c}
      \<union> {i. \<exists>res. (i, res) \<in> set (e_reads e) \<and> fst (read_outcome res)}
    \<and> (\<forall>i < length ts. cn_id (ts ! i) = local_id c \<longrightarrow> held r i = exhibits (e_now e) key c)
    \<and> (\<forall>(i, res) \<in> set (e_reads e). fst (read_outcome res) \<longrightarrow> held r i = snd (read_outcome res))
    \<and> store_wf c' \<and> (\<forall>t k. exhibits t k c' = exhibits t k c) \<and> cu_local_node c' = cu_local_node c \<and>
      cu_config c' = cu_config c \<and> cu_routing c' = cu_routing c \<and> cu_ring c' = cu_ring c \<and>
      cu_clock c' = cu_clock c \<and> cu_node_health c' = cu_node_health c \<and> length (q_values r) = length ts"
  proof (cases "ts = []")
    case True
    have none: "e_reads e = []" using calls True by (cases "e_reads e") (auto simp: calls_made_def ts_def)
    with True c wf show ?thesis by (auto simp: collect_def ts_def replied_def)
  next
    case False
    obtain st1 where run: "start_reads e key ts 0 st0 c = (st1, c')"
      and r: "r = \<lparr>q_ok = (effective_quorum (cfg_read_quorum (cu_config c)) (length ts) c \<le> rs_replies (finish_reads (e_reads e) st1)),
          q_targets = ts, q_values = rs_values (finish_reads (e_reads e) st1),
          q_replied = rs_replied (finish_reads (e_reads e) st1)\<rparr>"
      using c False by (auto simp: collect_def ts_def st0_def Let_def split: prod.splits)
    have ok0: "read_state_ok (length ts) st0" and un0: "\<And>j. 0 \<le> j \<Longrightarrow> j < length ts \<Longrightarrow> \<not> rs_replied st0 ! j"
      by (simp_all add: st0_def read_state_ok_def)
    note p1 = start_reads_parts [OF run wf ok0 _ un0, simplified]
    have d: "distinct (map fst (e_reads e))"
      and m: "\<And>i res. (i, res) \<in> set (e_reads e) \<Longrightarrow> i < length ts \<and> cn_id (ts ! i) \<noteq> local_id c"
      using calls by (auto simp: calls_made_def ts_def)
    have un: "\<forall>p \<in> set (e_reads e). fst p < length ts \<and> \<not> rs_replied st1 ! fst p"
      using p1 m un0 by auto
    have ok1: "read_state_ok (length ts) st1" using p1 by blast
    note p2 = finish_reads_parts [OF ok1 d un]
    have rep: "rs_replied (finish_reads (e_reads e) st1) ! j \<longleftrightarrow> cn_id (ts ! j) = local_id c \<or>
        (\<exists>res. (j, res) \<in> set (e_reads e) \<and> fst (read_outcome res))" if "j < length ts" for j
      using p1 p2 un0 [of j] that by auto
    have rep_set: "replied r = {i. i < length ts \<and> cn_id (ts ! i) = local_id c}
        \<union> {i. \<exists>res. (i, res) \<in> set (e_reads e) \<and> fst (read_outcome res)}"
      using rep m by (auto simp: replied_def r)
    have counted: "rs_replies (finish_reads (e_reads e) st1) = card (replied r)"
      using p2 by (simp add: read_state_ok_def replied_def r)
    have own: "held r i = exhibits (e_now e) key c" if i: "i < length ts" "cn_id (ts ! i) = local_id c" for i
    proof -
      have "i \<notin> fst ` set (e_reads e)" using m i(2) by force
      with p1 p2 i rep show ?thesis by (simp add: held_def r)
    qed
    have rem: "\<forall>(i, res) \<in> set (e_reads e). fst (read_outcome res) \<longrightarrow> held r i = snd (read_outcome res)"
    proof (clarify)
      fix i res assume a: "(i, res) \<in> set (e_reads e)" "fst (read_outcome res)"
      then have "i < length ts" "rs_values (finish_reads (e_reads e) st1) ! i = snd (read_outcome res)"
        using m p2 by auto
      then show "held r i = snd (read_outcome res)" using rep [of i] a by (auto simp: held_def r)
    qed
    have ok2: "read_state_ok (length ts) (finish_reads (e_reads e) st1)" using p2 by blast
    have len: "length (q_values r) = length ts" and tgt: "q_targets r = ts" using ok2 by (simp_all add: r read_state_ok_def)
    have enough: "q_ok r \<longrightarrow> effective_quorum (cfg_read_quorum (cu_config c)) (length ts) c \<le> card (replied r)"
      unfolding counted [symmetric] by (simp add: r)
    have keep: "store_wf c' \<and> (\<forall>t k. exhibits t k c' = exhibits t k c) \<and> cu_local_node c' = cu_local_node c \<and>
      cu_config c' = cu_config c \<and> cu_routing c' = cu_routing c \<and> cu_ring c' = cu_ring c \<and>
      cu_clock c' = cu_clock c \<and> cu_node_health c' = cu_node_health c"
      using p1 by blast
    show ?thesis by (intro conjI allI impI) (use len tgt enough rep_set own rem keep in blast)+
  qed
  note all = this [unfolded ts_def]
  show "q_targets r = cluster_preference_list key c" using all by blast
  show "q_ok r \<Longrightarrow> effective_quorum (cfg_read_quorum (cu_config c)) (length (cluster_preference_list key c)) c \<le> card (replied r)"
    using all by blast
  show "replied r = {i. i < length (cluster_preference_list key c) \<and> cn_id (cluster_preference_list key c ! i) = local_id c}
      \<union> {i. \<exists>res. (i, res) \<in> set (e_reads e) \<and> fst (read_outcome res)}" using all by blast
  show "i < length (cluster_preference_list key c) \<Longrightarrow> cn_id (cluster_preference_list key c ! i) = local_id c \<Longrightarrow>
      held r i = exhibits (e_now e) key c" using all by blast
  show "(i, res) \<in> set (e_reads e) \<Longrightarrow> fst (read_outcome res) \<Longrightarrow> held r i = snd (read_outcome res)" using all by blast
  show "store_wf c' \<and> (\<forall>t k. exhibits t k c' = exhibits t k c) \<and> cu_local_node c' = cu_local_node c \<and>
      cu_config c' = cu_config c \<and> cu_routing c' = cu_routing c \<and> cu_ring c' = cu_ring c \<and>
      cu_clock c' = cu_clock c \<and> cu_node_health c' = cu_node_health c" using all by blast
  show "length (q_values r) = length (cluster_preference_list key c)" using all by blast
qed

section \<open>Overlapping quorums\<close>

definition configured_quorum :: "nat \<Rightarrow> ClusterConfig \<Rightarrow> nat" where
  "configured_quorum q cfg = (if q \<noteq> 0 then q else cfg_replication_factor cfg div 2 + 1)"

definition quorums_overlap :: "ClusterConfig \<Rightarrow> bool" where
  "quorums_overlap cfg \<longleftrightarrow>
     cfg_replication_factor cfg < configured_quorum (cfg_read_quorum cfg) cfg + configured_quorum (cfg_write_quorum cfg) cfg"

lemma majorities_overlap: "cfg_read_quorum cfg = 0 \<Longrightarrow> cfg_write_quorum cfg = 0 \<Longrightarrow> quorums_overlap cfg"
  by (simp add: quorums_overlap_def configured_quorum_def)

lemma effective_overlap:
  assumes "quorums_overlap (cu_config c)" "n \<le> cfg_replication_factor (cu_config c)" "0 < n" "cu_config d = cu_config c"
  shows "n < effective_quorum (cfg_read_quorum (cu_config c)) n d + effective_quorum (cfg_write_quorum (cu_config c)) n c"
  using assms by (auto simp: quorums_overlap_def configured_quorum_def effective_quorum_def Let_def min_def max_def)

lemma sets_meet:
  assumes "A \<subseteq> {..<n}" "B \<subseteq> {..<n}" "n < card A + card B"
  shows "A \<inter> B \<noteq> {}"
proof
  assume "A \<inter> B = {}"
  then have "card (A \<union> B) = card A + card B" using assms(1,2) finite_subset by (blast intro: card_Un_disjoint)
  moreover have "card (A \<union> B) \<le> n" using card_mono [of "{..<n}" "A \<union> B"] assms(1,2) by simp
  ultimately show False using assms(3) by simp
qed

text \<open>What a replica answers to a request for its copy.\<close>

definition repl_get_reply :: "VersionedValue option \<Rightarrow> RespValue" where
  "repl_get_reply v =
     (case v of
        None \<Rightarrow> RespNull
      | Some v \<Rightarrow>
          RespArray [BulkString (vv_value v), RespInteger (sint (vv_version v)),
            RespInteger (if vv_tombstone v then 1 else 0),
            RespInteger (case vv_ttl v of Some t \<Rightarrow> max 1 t | None \<Rightarrow> -1)])"

text \<open>The value that arrives: the same stamp, and a time to live of at least a millisecond.\<close>

definition clamp_ttl :: "VersionedValue \<Rightarrow> VersionedValue" where
  "clamp_ttl v = v\<lparr>vv_ttl := map_option (max 1) (vv_ttl v)\<rparr>"

lemma decode_repl_get_reply:
  "decode_replica_get (repl_get_reply v) =
     (case v of None \<Rightarrow> rr_not_found | Some v \<Rightarrow> rr_success (clamp_ttl v))"
proof (cases v)
  case (Some u)
  obtain val ver tomb ttl where "u = \<lparr>vv_value = val, vv_version = ver, vv_tombstone = tomb, vv_ttl = ttl\<rparr>"
    by (cases u) auto
  with Some show ?thesis
    by (cases tomb; cases ttl) (auto simp: repl_get_reply_def decode_replica_get_def clamp_ttl_def)
qed (simp add: repl_get_reply_def decode_replica_get_def)

lemma stamp_clamp_ttl [simp]: "stamp_of_value (clamp_ttl v) = stamp_of_value v"
  by (simp add: clamp_ttl_def stamp_of_value_def)

lemma read_outcome_reply [simp]: "read_outcome (rr_success (repl_get_reply v)) = (True, map_option clamp_ttl v)"
  by (simp add: read_outcome_def decode_repl_get_reply split: option.split)

lemma local_read_quorum:
  assumes "routing_fresh c" "can_serve_locally key False c"
  shows "effective_quorum (cfg_read_quorum (cu_config c)) (length (cluster_preference_list key c)) c = 1"
  using assms(2) unfolding local_in_preference_list(2) [OF assms, symmetric]
  by (auto simp: can_serve_locally_def Let_def effective_quorum_def split: if_splits)

text \<open>A read either fails, or it returns a value that is at least as new as every copy that a
  replica of any write quorum shows.\<close>

lemma read_covers_quorum:
  assumes fresh: "routing_fresh c" and wf: "store_wf c" and over: "quorums_overlap (cu_config c)"
    and ts: "cluster_preference_list key c = ts" "ts \<noteq> []"
    and calls: "calls_made (e_reads e) ts c"
    and quorum: "A \<subseteq> {..<length ts}" "effective_quorum (cfg_write_quorum (cu_config c)) (length ts) c \<le> card A"
    and kept: "\<And>i. i \<in> A \<Longrightarrow> \<exists>u. stores (cn_id (ts ! i)) = Some u \<and> stamp_le s (stamp_of_value u)"
    and honest: "\<forall>(i, res) \<in> set (e_reads e). rr_is_ok res \<longrightarrow> res = rr_success (repl_get_reply (stores (cn_id (ts ! i))))"
    and own: "exhibits (e_now e) key c = stores (local_id c)"
  shows "fst (cluster_read e key c) = unavailable \<or>
    (\<exists>u. stamp_le s (stamp_of_value u) \<and> fst (cluster_read e key c) = to_result (Some u))"
proof -
  have n: "length ts \<le> cfg_replication_factor (cu_config c)" "0 < length ts"
    using preference_list_length [OF fresh, of key] ts by auto
  note over' = effective_overlap [OF over n refl]
  show ?thesis
  proof (cases "can_serve_locally key False c")
    case True
    have "length ts \<le> card A" using over' quorum(2) local_read_quorum [OF fresh True] ts(1) by simp
    then have "A = {..<length ts}" using quorum(1) by (simp add: card_seteq)
    moreover obtain i where "i < length ts" "cn_id (ts ! i) = local_id c"
      using local_in_preference_list(1) [OF fresh True] ts(1) by (auto simp: in_set_conv_nth)
    ultimately obtain u where "stores (local_id c) = Some u" "stamp_le s (stamp_of_value u)"
      using kept [of i] by auto
    then show ?thesis
      using True own local_get_exhibits(1) [OF wf, of "e_now e" key]
      by (auto simp: cluster_read_def case_prod_beta)
  next
    case False
    obtain r c' where col: "collect e key c = (r, c')" by fastforce
    note P = collect_parts [OF col wf, unfolded ts(1), OF calls]
    show ?thesis
    proof (cases "q_ok r")
      case ok: True
      have "replied r \<subseteq> {..<length ts}" using P(1) by (auto simp: replied_def)
      then obtain i where i: "i \<in> A" "i \<in> replied r"
        using sets_meet [OF quorum(1), of "replied r"] P(2) [OF ok] over' quorum(2) by fastforce
      obtain u where u: "stores (cn_id (ts ! i)) = Some u" "stamp_le s (stamp_of_value u)" using kept [OF i(1)] by blast
      have "\<exists>w. held r i = Some w \<and> stamp_of_value w = stamp_of_value u"
      proof (cases "cn_id (ts ! i) = local_id c")
        case True
        with i quorum(1) P(4) [of i] own u show ?thesis by (auto simp: subset_iff)
      next
        case False
        then obtain res where res: "(i, res) \<in> set (e_reads e)" "fst (read_outcome res)" using i(2) P(3) by auto
        then have "rr_is_ok res" by (auto simp: read_outcome_def split: if_splits)
        with honest res(1) have "res = rr_success (repl_get_reply (Some u))" using u(1) by auto
        with P(5) [OF res] show ?thesis by auto
      qed
      then obtain w where w: "held r i = Some w" "stamp_of_value w = stamp_of_value u" by blast
      have "i < length (q_targets r)" using i(2) by (simp add: replied_def)
      from pick_winner_newest(1) [OF this w(1)] obtain x where x: "pick_winner r = Some x"
        "stamp_le s (stamp_of_value x)"
        using u(2) w(2) stamp.order_trans by metis
      then show ?thesis
        using False ok col by (auto simp: cluster_read_def Let_def split: prod.splits)
    qed (use False col in \<open>simp add: cluster_read_def\<close>)
  qed
qed


section \<open>Linearizable mode\<close>

text \<open>The replicas a linearizable read has made sure of: those that already answered with the
  winner, or, when these are too few, those that acknowledged it when it was written back.\<close>

definition confirmed :: "env \<Rightarrow> CacheNode list \<Rightarrow> Cluster \<Rightarrow> QuorumReplies \<Rightarrow> VersionedValue \<Rightarrow> nat set" where
  "confirmed e ts c r winner =
     (if length (up_to_date r winner) < effective_quorum (cfg_write_quorum (cu_config c)) (length ts) c
      then acked e ts c else set (up_to_date r winner))"

lemma confirmed_quorum:
  assumes fresh: "routing_fresh c" and wf: "store_wf c" and lin: "cfg_consistency (cu_config c) = Linearizable"
    and remote: "\<not> can_serve_locally key False c" and ts: "cluster_preference_list key c = ts"
    and calls: "calls_made (e_reads e) ts c" "calls_made (e_writes e) ts c"
    and col: "collect e key c = (r, c1)" and win: "pick_winner r = Some u"
    and ok: "fst (cluster_read e key c) \<noteq> unavailable"
  shows "confirmed e ts c r u \<subseteq> {..<length ts}"
    and "effective_quorum (cfg_write_quorum (cu_config c)) (length ts) c \<le> card (confirmed e ts c r u)"
proof -
  note P = collect_parts [OF col wf, unfolded ts, OF calls(1)]
  let ?wq = "effective_quorum (cfg_write_quorum (cu_config c)) (length ts) c"
  have sub: "set (up_to_date r u) \<subseteq> {..<length ts}" using P(1) by (auto simp: up_to_date_def)
  have "distinct (up_to_date r u)" by (simp add: up_to_date_def)
  then have card: "card (set (up_to_date r u)) = length (up_to_date r u)" by (rule distinct_card)
  show "confirmed e ts c r u \<subseteq> {..<length ts}"
    using sub card_acked(2) [OF calls(2)] by (simp add: confirmed_def)
  show "?wq \<le> card (confirmed e ts c r u)"
  proof (cases "length (up_to_date r u) < ?wq")
    case True
    define c2 where "c2 = c1\<lparr>cu_clock := hlc_observe (vv_version u) (cu_clock c1),
      cu_read_repairs := cu_read_repairs c1 + of_nat (length (stale_targets r u))\<rparr>"
    have same: "cu_config c2 = cu_config c" "cu_local_node c2 = cu_local_node c" "cu_routing c2 = cu_routing c"
      "cu_ring c2 = cu_ring c" "cu_node_health c2 = cu_node_health c"
      using P(6) by (simp_all add: c2_def)
    have eff: "effective_quorum q n c2 = effective_quorum q n c" "effective_quorum q n c1 = effective_quorum q n c" for q n
      using same(1) P(6) by (simp_all add: effective_quorum_def)
    have fresh2: "routing_fresh c2" using fresh by (simp add: routing_fresh_def same)
    have ts2: "cluster_preference_list key c2 = ts" using ts by (simp add: cluster_preference_list_def same)
    have calls2: "calls_made (e_writes e) ts c2"
      using calls(2) by (simp add: calls_made_def same is_node_healthy_def)
    have q: "q_ok r" using ok remote col by (auto simp: cluster_read_def split: if_splits)
    have "wr_ok (fst (cluster_replicate e key u c2))"
      using ok remote col q win lin True P(1,6)
      by (auto simp: cluster_read_def Let_def eff c2_def effective_quorum_def split: if_splits prod.splits)
    with replicate_ok_quorum [OF fresh2, of e key u] ts2 calls2
    have "?wq \<le> card (acked e ts c2)" by (simp add: same eff)
    with True show ?thesis by (simp add: confirmed_def acked_def same)
  qed (simp add: confirmed_def card)
qed


text \<open>The clock after looking at the replies is at least every version in them.\<close>

lemma fold_observe:
  fixes t :: u64
  shows "t \<le> fold (\<lambda>i t. case held r i of Some v \<Rightarrow> hlc_observe (vv_version v) t | None \<Rightarrow> t) is t
    \<and> (\<forall>i \<in> set is. \<forall>v. held r i = Some v \<longrightarrow>
        vv_version v \<le> fold (\<lambda>i t. case held r i of Some v \<Rightarrow> hlc_observe (vv_version v) t | None \<Rightarrow> t) is t)
    \<and> (fold (\<lambda>i t. case held r i of Some v \<Rightarrow> hlc_observe (vv_version v) t | None \<Rightarrow> t) is t = t
       \<or> (\<exists>i \<in> set is. \<exists>v. held r i = Some v \<and>
            fold (\<lambda>i t. case held r i of Some v \<Rightarrow> hlc_observe (vv_version v) t | None \<Rightarrow> t) is t = vv_version v))"
proof (induction "is" arbitrary: t)
  case (Cons i "is")
  define t1 where "t1 = (case held r i of Some v \<Rightarrow> hlc_observe (vv_version v) t | None \<Rightarrow> t)"
  have "t \<le> t1" "\<And>v. held r i = Some v \<Longrightarrow> vv_version v \<le> t1" "t1 = t \<or> (\<exists>v. held r i = Some v \<and> t1 = vv_version v)"
    by (auto simp: t1_def hlc_observe_def split: option.split)
  with Cons.IH [of t1] show ?case by (auto simp: t1_def [symmetric] intro: order_trans)
qed simp


section \<open>A concrete cluster\<close>

text \<open>A coordinator \<open>a\<close> that is not itself in the ring, and one replica \<open>b\<close>.\<close>

definition outsider :: "Consistency \<Rightarrow> Cluster" where
  "outsider mode =
     (let ring = ring_add_node node_b (new_ring 1)
      in (new_cluster 0 node_a (default_config\<lparr>cfg_replication_factor := 1, cfg_consistency := mode\<rparr>))
           \<lparr>cu_ring := ring, cu_routing := (2, new_routing_table ring 1 ''a'')\<rparr>)"

lemma one_point_ring: "r_ring (ring_add_node node_b (new_ring 1)) = [(vnode_hash ''b'' 0, node_b)]"
  by (simp add: ring_add_node_def node_ids)

lemma one_point_table:
  "new_routing_table (ring_add_node node_b (new_ring 1)) 1 ''a'' =
     \<lparr>rt_nodes = [node_b], rt_points = [vnode_hash ''b'' 0], rt_replicas = [[0]], rt_local_member = [False]\<rparr>"
  unfolding new_routing_table_def one_point_ring rt_scan_def Let_def
  by (simp add: rt_point_def umap_emplace_def Let_def node_ids)

lemma outsider_parts:
  "routing_fresh (outsider mode)" "cluster_preference_list key (outsider mode) = [node_b]"
  "\<not> can_serve_locally key w (outsider mode)" "store_wf (outsider mode)" "local_id (outsider mode) = ''a''"
  "cu_config (outsider mode) = default_config\<lparr>cfg_replication_factor := 1, cfg_consistency := mode\<rparr>"
  "is_node_healthy ''b'' (outsider mode)" "exhibits t key (outsider mode) = None" "cu_clock (outsider mode) = 0"
proof -
  have cache: "cu_local_cache (outsider mode) = new_sharded_cache 100000 16 60000"
    by (simp add: outsider_def Let_def new_cluster_def init_common_def publish_routing_def default_config_def)
  have table: "routing_table (outsider mode) =
     \<lparr>rt_nodes = [node_b], rt_points = [vnode_hash ''b'' 0], rt_replicas = [[0]], rt_local_member = [False]\<rparr>"
    using one_point_table by (simp add: outsider_def Let_def)
  have p: "point_for key (routing_table (outsider mode)) = 0"
    using lower_bound_le [of "hash_fn key" "[vnode_hash ''b'' 0]"]
    by (auto simp: point_for_def Let_def table le_Suc_eq)
  show "cluster_preference_list key (outsider mode) = [node_b]" "\<not> can_serve_locally key w (outsider mode)"
    using p
    by (simp_all add: cluster_preference_list_def preference_list_def preference_list_at_def rt_empty_def rt_node_def
        can_serve_locally_def local_is_replica_def Let_def table)
  show "local_id (outsider mode) = ''a''" "routing_fresh (outsider mode)"
    "cu_config (outsider mode) = default_config\<lparr>cfg_replication_factor := 1, cfg_consistency := mode\<rparr>"
    by (simp_all add: outsider_def Let_def init_common_parts routing_fresh_def default_config_def)
  show "is_node_healthy ''b'' (outsider mode)" "cu_clock (outsider mode) = 0"
    by (simp_all add: outsider_def Let_def new_cluster_def init_common_def publish_routing_def is_node_healthy_def umap_set_def)
  show "store_wf (outsider mode)" "exhibits t key (outsider mode) = None"
    by (simp_all add: store_wf_def exhibits_def cache new_sharded_wf new_sharded_parts visible_def)
qed

definition one_value :: VersionedValue where
  "one_value = \<lparr>vv_value = ''v'', vv_version = 3, vv_tombstone = False, vv_ttl = None\<rparr>"

definition one_reply :: env where
  "one_reply = \<lparr>e_now = 0, e_write_now = 0, e_wall = 1,
     e_reads = [(0, rr_success (repl_get_reply (Some one_value)))], e_writes = [(0, rr_success (RespInteger 0))]\<rparr>"

lemma one_reply_parts:
  "calls_made (e_writes one_reply) [node_b] (outsider mode)" "calls_made (e_reads one_reply) [node_b] (outsider mode)"
  "acked one_reply [node_b] (outsider mode) = {0}" "wr_ok (fst (cluster_replicate one_reply key v (outsider mode)))"
proof -
  have o: "write_outcome (rr_success (RespInteger 0)) = (True, False)"
    by (simp add: write_outcome_def decode_replica_write_def Let_def)
  show calls: "calls_made (e_writes one_reply) [node_b] (outsider mode)"
    and "calls_made (e_reads one_reply) [node_b] (outsider mode)"
    and ack: "acked one_reply [node_b] (outsider mode) = {0}"
    using outsider_parts(5) [of mode] outsider_parts(7) [of mode] by (auto simp: calls_made_def acked_def one_reply_def node_ids o)
  obtain r c' where rep: "cluster_replicate one_reply key v (outsider mode) = (r, c')" by fastforce
  show "wr_ok (fst (cluster_replicate one_reply key v (outsider mode)))"
    using replicate_outcome [OF outsider_parts(3) refl _ rep] calls ack outsider_parts(2) [of key mode] rep
    by (simp add: effective_quorum_def Let_def)
qed

lemma set_node_health_serves:
  "can_serve_locally k w (set_node_health x h c) = can_serve_locally k w c"
  by (simp add: can_serve_locally_def set_node_health_def effective_quorum_def)

theorem write_counts_acks_witness:
  "let c = set_node_health ''b'' False (outsider Quorum);
       e = one_reply\<lparr>e_writes := []\<rparr>;
       (r, c') = cluster_replicate e ''k'' one_value c
   in \<not> wr_ok r \<and> last (hint_queue ''b'' c') = \<lparr>hint_key = ''k'', hint_value = one_value, hint_deadline = None\<rparr>"
proof -
  let ?c = "set_node_health ''b'' False (outsider Quorum)" and ?e = "one_reply\<lparr>e_writes := []\<rparr>"
  have parts: "cluster_preference_list ''k'' ?c = [node_b]" "\<not> can_serve_locally ''k'' True ?c" "local_id ?c = ''a''"
    "\<not> is_node_healthy ''b'' ?c" "calls_made (e_writes ?e) [node_b] ?c"
    using outsider_parts(2) [of "''k''" Quorum] outsider_parts(5) [of Quorum] outsider_parts(3) [of "''k''" True Quorum]
    by (simp_all add: set_node_health_serves, simp_all add: set_node_health_def cluster_preference_list_def
        is_node_healthy_def map_of_umap_set calls_made_def)
  obtain r c' where rep: "cluster_replicate ?e ''k'' one_value ?c = (r, c')" by fastforce
  have "acked ?e [node_b] ?c = {}" "missed ?e [node_b] ?c 0"
    using parts(3,4) by (auto simp: acked_def missed_def node_ids)
  with write_counts_acks [OF parts(2) parts(1) [symmetric] parts(5) rep] rep show ?thesis
    by (simp add: node_ids effective_quorum_def Let_def one_value_def)
qed




end
