(* ===== verification/Rebalance.thy ===== *)
theory Rebalance
  imports Replication
begin

text \<open>
  Moving data after a membership change (src/cluster.cpp, the rebalancing section) and the whole of
  a graceful departure. What a send of a key to a node meets is an input, as are the clock readings
  of the shard snapshots.
\<close>

record rebalance_env =
  rb_clock :: "nat \<Rightarrow> ticks"
  rb_now :: ticks
  rb_net :: "string \<Rightarrow> string \<Rightarrow> bool RequestResult option"

definition old_owners :: "string \<Rightarrow> RoutingTable \<Rightarrow> string list" where
  "old_owners key previous =
     (if rt_empty previous then []
      else map (\<lambda>idx. cn_id (rt_node idx previous)) (rt_replicas previous ! point_for key previous))"

text \<open>The loop over a key's new owners: whether this node is one of them, whether all others have
  the key now, and how many copies were pushed.\<close>

fun hand_off ::
    "rebalance_env \<Rightarrow> string list \<Rightarrow> string \<Rightarrow> VersionedValue \<Rightarrow> CacheNode list \<Rightarrow> bool \<Rightarrow> bool \<Rightarrow> u64 \<Rightarrow> Cluster
     \<Rightarrow> bool \<times> bool \<times> u64 \<times> Cluster" where
  "hand_off env old key value [] still_owner handed_off pushed c = (still_owner, handed_off, pushed, c)"
| "hand_off env old key value (node # nodes) still_owner handed_off pushed c =
     (if cn_id node = local_id c then hand_off env old key value nodes True handed_off pushed c
      else if cn_id node \<in> set old then hand_off env old key value nodes still_owner handed_off pushed c
      else
        case send_write (rb_net env (cn_id node) key) of
          Some live \<Rightarrow> hand_off env old key value nodes still_owner handed_off (pushed + 1) c
        | None \<Rightarrow> hand_off env old key value nodes still_owner False pushed (add_hint (rb_now env) node key value c))"

definition move_key ::
    "rebalance_env \<Rightarrow> RoutingTable \<Rightarrow> RoutingTable \<Rightarrow> string \<times> VersionedValue \<Rightarrow> u64 \<times> u64 \<times> Cluster \<Rightarrow> u64 \<times> u64 \<times> Cluster" where
  "move_key env previous target entry st =
     (case (entry, st) of
        ((key, value), (pushed, dropped, c)) \<Rightarrow>
          (case hand_off env (old_owners key previous) key value (preference_list key target) False True pushed c of
             (still_owner, handed_off, pushed, c) \<Rightarrow>
               if \<not> still_owner \<and> handed_off
               then (pushed, dropped + 1,
                     c\<lparr>cu_local_cache := snd (sharded_remove (rb_now env) key (cu_local_cache c))\<rparr>)
               else (pushed, dropped, c)))"

text \<open>One shard's snapshot is processed before the next one is taken.\<close>

definition move_shard ::
    "rebalance_env \<Rightarrow> RoutingTable \<Rightarrow> RoutingTable \<Rightarrow> nat \<Rightarrow> u64 \<times> u64 \<times> Cluster \<Rightarrow> u64 \<times> u64 \<times> Cluster" where
  "move_shard env previous target i st =
     fold (move_key env previous target)
       (cache_snapshot (rb_clock env i) (s_shards (cu_local_cache (snd (snd st))) ! i) []) st"

definition rebalance_now :: "rebalance_env \<Rightarrow> Cluster \<Rightarrow> Cluster" where
  "rebalance_now env c =
     (let target = cu_routing c;
          previous = cu_placed_for c
      in if fst previous = fst target then c
         else
           case fold (move_shard env (snd previous) (snd target)) [0..<length (s_shards (cu_local_cache c))] (0, 0, c) of
             (pushed, dropped, c) \<Rightarrow>
               c\<lparr>cu_placed_for := target, cu_keys_moved := cu_keys_moved c + pushed\<rparr>)"

text \<open>A graceful departure: out of the ring, tell the peers, and hand the data over.\<close>

definition leave :: "(string \<Rightarrow> u16 \<Rightarrow> RespValue RequestResult option) \<Rightarrow> rebalance_env \<Rightarrow> Cluster \<Rightarrow> Cluster" where
  "leave net env c =
     (case leave_ring c of (peers, c) \<Rightarrow> rebalance_now env (announce_leave net peers c))"

section \<open>Which keys are dropped\<close>

text \<open>A key may go when this node is not one of its new owners and each of those either had a copy
  under the old layout or has acknowledged one now.\<close>

definition taken_over :: "rebalance_env \<Rightarrow> RoutingTable \<Rightarrow> RoutingTable \<Rightarrow> string \<Rightarrow> string \<Rightarrow> bool" where
  "taken_over env previous target self key \<longleftrightarrow>
     (\<forall>node \<in> set (preference_list key target). cn_id node \<noteq> self \<and>
        (cn_id node \<in> set (old_owners key previous) \<or> send_write (rb_net env (cn_id node) key) \<noteq> None))"

lemma hand_off_parts:
  "hand_off env old key value nodes so ho p c = (so', ho', p', c') \<Longrightarrow>
   cu_local_cache c' = cu_local_cache c \<and> cu_local_node c' = cu_local_node c \<and>
   (so' \<longleftrightarrow> so \<or> (\<exists>n \<in> set nodes. cn_id n = local_id c)) \<and>
   (ho' \<longleftrightarrow> ho \<and> (\<forall>n \<in> set nodes. cn_id n = local_id c \<or> cn_id n \<in> set old \<or>
      send_write (rb_net env (cn_id n) key) \<noteq> None))"
proof (induction nodes arbitrary: so ho p c)
  case (Cons a nodes)
  consider (own) "cn_id a = local_id c" | (old) "cn_id a \<noteq> local_id c" "cn_id a \<in> set old"
    | (sent) live where "cn_id a \<noteq> local_id c" "cn_id a \<notin> set old" "send_write (rb_net env (cn_id a) key) = Some live"
    | (failed) "cn_id a \<noteq> local_id c" "cn_id a \<notin> set old" "send_write (rb_net env (cn_id a) key) = None"
    by fastforce
  then show ?case
  proof cases
    case own
    then have "hand_off env old key value nodes True ho p c = (so', ho', p', c')" using Cons.prems by simp
    from Cons.IH [OF this] own show ?thesis by auto
  next
    case old
    then have "hand_off env old key value nodes so ho p c = (so', ho', p', c')" using Cons.prems by simp
    from Cons.IH [OF this] old show ?thesis by auto
  next
    case sent
    then have "hand_off env old key value nodes so ho (p + 1) c = (so', ho', p', c')" using Cons.prems by simp
    from Cons.IH [OF this] sent show ?thesis by auto
  next
    case failed
    then have "hand_off env old key value nodes so False p (add_hint (rb_now env) a key value c) = (so', ho', p', c')"
      using Cons.prems by simp
    from Cons.IH [OF this] failed show ?thesis by (auto simp: add_hint_parts)
  qed
qed simp

lemma sharded_remove_look:
  assumes "sharded_wf s"
  shows "sharded_look (snd (sharded_remove now k s)) k' = (if k' = k then None else sharded_look s k')"
    and "sharded_wf (snd (sharded_remove now k s))"
    and "length (s_shards (snd (sharded_remove now k s))) = length (s_shards s)"
proof -
  show "sharded_look (snd (sharded_remove now k s)) k' = (if k' = k then None else sharded_look s k')"
    using contents_cache_remove(1) [OF sharded_wf_shard [OF assms], of now k k]
    by (auto simp: sharded_remove_def look_on_shard [OF assms] lru_drop_def map_of_filter_neq)
       (simp add: sharded_look_def)
  show "sharded_wf (snd (sharded_remove now k s))"
    unfolding sharded_as_step(2) [of now k s 0] by (rule sharded_step_wf [OF assms])
  show "length (s_shards (snd (sharded_remove now k s))) = length (s_shards s)"
    by (simp add: sharded_remove_def on_shard_def case_prod_beta)
qed

lemma move_key_look:
  assumes "move_key env previous target (key, val) (p, d, c) = (p', d', c')" and "sharded_wf (cu_local_cache c)"
  shows "sharded_look (cu_local_cache c') k =
      (if k = key \<and> taken_over env previous target (local_id c) key then None else sharded_look (cu_local_cache c) k)
    \<and> sharded_wf (cu_local_cache c') \<and> cu_local_node c' = cu_local_node c
    \<and> length (s_shards (cu_local_cache c')) = length (s_shards (cu_local_cache c))"
proof -
  obtain so ho p1 c1 where h: "hand_off env (old_owners key previous) key val (preference_list key target) False True p c = (so, ho, p1, c1)"
    by (cases "hand_off env (old_owners key previous) key val (preference_list key target) False True p c") auto
  note parts = hand_off_parts [OF h]
  have go: "\<not> so \<and> ho \<longleftrightarrow> taken_over env previous target (local_id c) key"
    using parts by (auto simp: taken_over_def)
  have "c' = (if \<not> so \<and> ho then c1\<lparr>cu_local_cache := snd (sharded_remove (rb_now env) key (cu_local_cache c1))\<rparr> else c1)"
    using assms(1) h by (auto simp: move_key_def split: if_splits)
  with parts go sharded_remove_look [OF assms(2)] assms(2) show ?thesis by auto
qed

lemma move_keys_look:
  "fold (move_key env previous target) batch (p, d, c) = (p', d', c') \<Longrightarrow> sharded_wf (cu_local_cache c) \<Longrightarrow>
   (\<forall>k. sharded_look (cu_local_cache c') k =
      (if k \<in> fst ` set batch \<and> taken_over env previous target (local_id c) k then None else sharded_look (cu_local_cache c) k))
   \<and> sharded_wf (cu_local_cache c') \<and> cu_local_node c' = cu_local_node c
   \<and> length (s_shards (cu_local_cache c')) = length (s_shards (cu_local_cache c))"
proof (induction batch arbitrary: p d c)
  case (Cons e batch)
  obtain key val where e: "e = (key, val)" by (cases e)
  obtain p1 d1 c1 where m: "move_key env previous target (key, val) (p, d, c) = (p1, d1, c1)"
    by (cases "move_key env previous target (key, val) (p, d, c)") auto
  note one = move_key_look [OF m Cons.prems(2)]
  have "fold (move_key env previous target) batch (p1, d1, c1) = (p', d', c')" using Cons.prems(1) m e by simp
  with Cons.IH [OF this] one show ?case by (auto simp: e)
qed simp

lemma snapshot_member:
  assumes "sharded_wf s" "j < length (s_shards s)"
  shows "k \<in> fst ` set (cache_snapshot now (s_shards s ! j) []) \<longleftrightarrow>
    get_shard_index k s = j \<and> visible now (sharded_look s k) \<noteq> None"
proof -
  have "(k, v) \<in> set (cache_snapshot now (s_shards s ! j) []) \<longleftrightarrow>
      get_shard_index k s = j \<and> visible now (sharded_look s k) = Some v" for v
  proof -
    have "set (cache_snapshot now (s_shards s ! j) []) =
        set (filter (\<lambda>p. get_shard_index (fst p) s = j) (concat (for_each_shard_snapshot (\<lambda>_. now) s)))"
      using shard_snapshots(3) [OF assms(1), of j "\<lambda>_. now"] assms(2) by simp
    then show ?thesis
      using shard_snapshots(2) [OF assms(1), of k v "\<lambda>_. now"] by (simp del: set_concat) blast
  qed
  then show ?thesis by (force simp: image_iff)
qed

lemma move_shards_look:
  assumes wf: "sharded_wf (cu_local_cache c)" and n: "m \<le> length (s_shards (cu_local_cache c))"
    and run: "fold (move_shard env previous target) [0..<m] (0, 0, c) = (p', d', c')"
  shows "(\<forall>k. sharded_look (cu_local_cache c') k =
      (if get_shard_index k (cu_local_cache c) < m \<and> taken_over env previous target (local_id c) k \<and>
          visible (rb_clock env (get_shard_index k (cu_local_cache c))) (sharded_look (cu_local_cache c) k) \<noteq> None
       then None else sharded_look (cu_local_cache c) k))
   \<and> sharded_wf (cu_local_cache c') \<and> cu_local_node c' = cu_local_node c
   \<and> length (s_shards (cu_local_cache c')) = length (s_shards (cu_local_cache c))"
  using n run
proof (induction m arbitrary: p' d' c')
  case (Suc m)
  obtain p1 d1 c1 where before: "fold (move_shard env previous target) [0..<m] (0, 0, c) = (p1, d1, c1)"
    by (cases "fold (move_shard env previous target) [0..<m] (0, 0, c)") auto
  note ih = Suc.IH [OF _ before]
  define s and s1 where "s = cu_local_cache c" and "s1 = cu_local_cache c1"
  let ?batch = "cache_snapshot (rb_clock env m) (s_shards s1 ! m) []"
  have m: "m < length (s_shards s)" and wf1: "sharded_wf s1" and len: "length (s_shards s1) = length (s_shards s)"
    and loc: "cu_local_node c1 = cu_local_node c"
    using ih Suc.prems(1) by (auto simp: s_def s1_def)
  have idx: "get_shard_index k s1 = get_shard_index k s" for k by (simp add: get_shard_index_def len)
  have now: "fold (move_key env previous target) ?batch (p1, d1, c1) = (p', d', c')"
  proof -
    have "move_shard env previous target m (p1, d1, c1) = (p', d', c')" using Suc.prems(2) before by simp
    then show ?thesis by (simp add: move_shard_def s1_def)
  qed
  note step = move_keys_look [OF now]
  have look1: "sharded_look s1 k = sharded_look s k" if "get_shard_index k s = m" for k
    using ih Suc.prems(1) that by (auto simp: s_def s1_def)
  have mem: "k \<in> fst ` set ?batch \<longleftrightarrow> get_shard_index k s = m \<and> visible (rb_clock env m) (sharded_look s k) \<noteq> None" for k
    using snapshot_member [OF wf1, of m k "rb_clock env m"] m look1 [of k] by (auto simp: len idx)
  show ?case
    using step ih Suc.prems(1) wf1 loc len mem
    unfolding s_def [symmetric] s1_def [symmetric] by (auto simp: less_Suc_eq)
qed (use wf in simp)



text \<open>A pass for a layout without nodes, as the last node to leave runs it, drops everything.\<close>

lemma empty_layout_takes_all: "rt_empty target \<Longrightarrow> taken_over env previous target self key"
  by (simp add: taken_over_def preference_list_def)

end
