(* ===== verification/Metrics.thy ===== *)
theory Metrics
  imports Prelude
begin

text \<open>
  Counters and latency histograms (include/shardcache/metrics.hpp). A striped counter is a list of
  64-bit words; which stripe a thread uses is an input. The floating-point views of the histogram
  (\<open>bound\<close>, \<open>sum_seconds\<close>) are left out.
\<close>

section \<open>Striped counters\<close>

definition kStripes :: nat where
  "kStripes = 16"

type_synonym StripedCounter = "u64 list"

definition new_striped :: StripedCounter where
  "new_striped = replicate kStripes 0"

text \<open>The stripe of the \<open>n\<close>-th thread that asks for one.\<close>

definition stripe :: "nat \<Rightarrow> nat" where
  "stripe n = n mod kStripes"

definition striped_add :: "nat \<Rightarrow> u64 \<Rightarrow> StripedCounter \<Rightarrow> StripedCounter" where
  "striped_add mine n s = s[mine := s ! mine + n]"

definition striped_value :: "StripedCounter \<Rightarrow> u64" where
  "striped_value s = foldl (+) 0 s"

section \<open>Latency histograms\<close>

definition kBuckets :: nat where
  "kBuckets = 19"

record LatencyHistogram =
  lh_buckets :: "StripedCounter list"
  lh_sum_ns :: StripedCounter

definition new_histogram :: LatencyHistogram where
  "new_histogram = \<lparr>lh_buckets = replicate (kBuckets + 1) new_striped, lh_sum_ns = new_striped\<rparr>"

text \<open>The search for the bucket: its bounds in microseconds are ten times the powers of two.\<close>

function bucket_search :: "u64 \<Rightarrow> nat \<Rightarrow> nat" where
  "bucket_search us i =
     (if i < kBuckets \<and> of_nat (10 * 2 ^ i) < us then bucket_search us (i + 1) else i)"
  by auto
termination
  by (relation "measure (\<lambda>(us, i). kBuckets - i)") auto

declare bucket_search.simps [simp del]

definition latency_observe :: "nat \<Rightarrow> ticks \<Rightarrow> LatencyHistogram \<Rightarrow> LatencyHistogram" where
  "latency_observe mine d h =
     (let us = word_of_int (trunc_div d 1000) :: u64;
          i = bucket_search us 0
      in h\<lparr>lh_buckets := (lh_buckets h)[i := striped_add mine 1 (lh_buckets h ! i)],
           lh_sum_ns := striped_add mine (word_of_int d) (lh_sum_ns h)\<rparr>)"

definition bucket :: "nat \<Rightarrow> LatencyHistogram \<Rightarrow> u64" where
  "bucket i h = striped_value (lh_buckets h ! i)"

definition histogram_count :: "LatencyHistogram \<Rightarrow> u64" where
  "histogram_count h = foldl (+) 0 (map striped_value (lh_buckets h))"

section \<open>Facts\<close>

lemma foldl_plus: "foldl (+) (a :: u64) xs = a + sum_list xs"
  by (induction xs arbitrary: a) (auto simp: add.assoc)

lemma sum_list_update_u64:
  "i < length xs \<Longrightarrow> sum_list (xs[i := x]) = sum_list xs - xs ! i + (x :: u64)"
  using sum_list_update_word [of i xs id x] by simp

lemma striped_value_add:
  "mine < length s \<Longrightarrow> striped_value (striped_add mine n s) = striped_value s + n"
  by (simp add: striped_value_def striped_add_def foldl_plus sum_list_update_u64)

lemma length_striped_add [simp]: "length (striped_add mine n s) = length s"
  by (simp add: striped_add_def)

lemma striped_new [simp]: "length new_striped = kStripes" "striped_value new_striped = 0"
  by (simp_all add: new_striped_def striped_value_def foldl_plus sum_list_replicate)

lemma stripe_lt: "stripe n < kStripes"
  by (simp add: stripe_def kStripes_def)

lemma bucket_search_bounds:
  "i \<le> kBuckets \<Longrightarrow> i \<le> bucket_search us i \<and> bucket_search us i \<le> kBuckets
   \<and> (bucket_search us i < kBuckets \<longrightarrow> us \<le> of_nat (10 * 2 ^ bucket_search us i))
   \<and> (\<forall>j. i \<le> j \<and> j < bucket_search us i \<longrightarrow> of_nat (10 * 2 ^ j) < us)"
proof (induction us i rule: bucket_search.induct)
  case (1 us i)
  show ?case
  proof (cases "i < kBuckets \<and> of_nat (10 * 2 ^ i) < us")
    case True
    have s: "bucket_search us i = bucket_search us (i + 1)"
      using True by (subst bucket_search.simps) simp
    show ?thesis
      using "1.IH" [OF True] True unfolding s
      by (metis Suc_eq_plus1 Suc_leI le_less le_neq_implies_less less_Suc_eq_le less_imp_le_nat not_less_eq_eq)
  next
    case False
    have "bucket_search us i = i" using False by (subst bucket_search.simps) auto
    with False "1.prems" show ?thesis by (auto simp: not_less)
  qed
qed

text \<open>A histogram keeps the shape of its arrays.\<close>

definition histogram_wf :: "LatencyHistogram \<Rightarrow> bool" where
  "histogram_wf h \<longleftrightarrow> length (lh_buckets h) = kBuckets + 1
     \<and> (\<forall>b\<in>set (lh_buckets h). length b = kStripes) \<and> length (lh_sum_ns h) = kStripes"

lemma histogram_wf_new [simp]: "histogram_wf new_histogram"
  by (simp add: histogram_wf_def new_histogram_def)

lemma histogram_count_new [simp]: "histogram_count new_histogram = 0"
  by (simp add: histogram_count_def new_histogram_def foldl_plus sum_list_replicate)

lemma histogram_wf_observe:
  assumes "histogram_wf h"
  shows "histogram_wf (latency_observe mine d h)"
proof -
  have "\<forall>b\<in>set ((lh_buckets h)[i := striped_add mine n (lh_buckets h ! i)]). length b = kStripes"
    if "i \<le> kBuckets" for i n
    using assms that by (auto simp: histogram_wf_def dest!: set_update_subset_insert [THEN subsetD])
  with assms show ?thesis
    using bucket_search_bounds [of 0 "word_of_int (trunc_div d 1000)"]
    by (auto simp: histogram_wf_def latency_observe_def Let_def)
qed

lemma histogram_count_observe:
  assumes wf: "histogram_wf h" and m: "mine < kStripes"
  shows "histogram_count (latency_observe mine d h) = histogram_count h + 1"
proof -
  define i where "i = bucket_search (word_of_int (trunc_div d 1000)) 0"
  have i: "i < length (lh_buckets h)"
    using bucket_search_bounds [of 0] wf by (simp add: i_def histogram_wf_def less_Suc_eq_le)
  have "length (lh_buckets h ! i) = kStripes" using wf i by (simp add: histogram_wf_def)
  then have v: "striped_value (striped_add mine 1 (lh_buckets h ! i)) = striped_value (lh_buckets h ! i) + 1"
    using m by (simp add: striped_value_add)
  show ?thesis
    using i by (simp add: latency_observe_def Let_def i_def [symmetric] histogram_count_def foldl_plus map_update
        sum_list_update_u64 v)
qed

lemma bucket_observe:
  assumes wf: "histogram_wf h" and m: "mine < kStripes" and k: "k \<le> kBuckets"
  shows "bucket k (latency_observe mine d h)
       = bucket k h + (if k = bucket_search (word_of_int (trunc_div d 1000)) 0 then 1 else 0)"
proof -
  have "length (lh_buckets h ! k) = kStripes" using wf k by (simp add: histogram_wf_def)
  then show ?thesis
    using wf k m by (auto simp: bucket_def latency_observe_def Let_def histogram_wf_def nth_list_update striped_value_add)
qed

text \<open>The bucket of a latency is the first whose bound it does not exceed.\<close>

lemma bucket_search_least:
  "bucket_search us 0 = (LEAST k. k = kBuckets \<or> us \<le> of_nat (10 * 2 ^ k))"
proof (rule Least_equality [symmetric])
  show "bucket_search us 0 = kBuckets \<or> us \<le> of_nat (10 * 2 ^ bucket_search us 0)"
    using bucket_search_bounds [of 0 us] by auto
next
  fix k assume "k = kBuckets \<or> us \<le> of_nat (10 * 2 ^ k)"
  then show "bucket_search us 0 \<le> k"
    using bucket_search_bounds [of 0 us] by (metis leI le0 not_less)
qed

section \<open>Properties\<close>

text \<open>A latency histogram counts each observation exactly once, whichever stripe the observing
  thread uses: the total goes up by one, only the bucket the latency falls into goes up, and that
  bucket is the first whose bound (ten microseconds times a power of two) is not exceeded, or the
  last one (plus infinity) when all are.\<close>

theorem histogram_counts_once:
  assumes "histogram_wf h"
  shows "let h' = latency_observe (stripe n) d h;
             us = word_of_int (trunc_div d 1000) :: u64;
             hit = (LEAST k. k = kBuckets \<or> us \<le> of_nat (10 * 2 ^ k))
         in histogram_wf h' \<and> histogram_count h' = histogram_count h + 1
            \<and> (\<forall>k. k \<le> kBuckets \<longrightarrow> bucket k h' = bucket k h + (if k = hit then 1 else 0))"
  unfolding Let_def bucket_search_least [symmetric]
  using assms stripe_lt [of n] by (simp add: histogram_wf_observe histogram_count_observe bucket_observe)

theorem histogram_counts_once_witness:
  "histogram_wf new_histogram \<and> histogram_count (latency_observe (stripe 17) 25000 new_histogram) = 1"
  using histogram_counts_once [OF histogram_wf_new, of 17 25000]
  by (simp add: Let_def)

end
