(* ===== verification/Command_Handler.thy ===== *)
theory Command_Handler
  imports Rebalance Metrics
begin

text \<open>
  Execution of parsed commands (src/network/command_handler.cpp and command_handler.hpp): the
  decision whether a command needs peers, the dispatcher with every command, and the counters. The
  replies of peers and the clock readings of the cluster calls are inputs, one \<open>env\<close> for each
  call in order; so are the hit rate, which the source prints from a floating-point number, the
  stripe of the executing thread and the time the command took.
\<close>

record handler_env =
  he_calls :: "nat \<Rightarrow> env"
  he_hit_rate :: string
  he_stripe :: nat
  he_elapsed :: ticks

section \<open>Replies\<close>

definition kWriteUnavailable :: string where
  "kWriteUnavailable = ''ERR write quorum not reached''"

definition kReadUnavailable :: string where
  "kReadUnavailable = ''ERR read quorum not reached''"

definition to_ttl :: "u64 option \<Rightarrow> millis option" where
  "to_ttl ttl_ms = map_option sint ttl_ms"

definition u64_to_string :: "u64 \<Rightarrow> string" where
  "u64_to_string n = nat_to_string (unat n)"

definition stats_body :: "string \<Rightarrow> Cluster \<Rightarrow> string" where
  "stats_body hit_rate c =
     (let cache = cu_local_cache c in
      ''# Stats'' @ crlf @
      ''node_id:'' @ local_id c @ crlf @
      ''cluster_nodes:'' @ nat_to_string (node_count c) @ crlf @
      ''entries:'' @ u64_to_string (sharded_size cache) @ crlf @
      ''capacity:'' @ nat_to_string (sharded_capacity cache) @ crlf @
      ''hits:'' @ u64_to_string (total_hits cache) @ crlf @
      ''misses:'' @ u64_to_string (total_misses cache) @ crlf @
      ''hit_rate:'' @ hit_rate @ ''%'' @ crlf)"

section \<open>Where a command runs\<close>

definition runs_locally :: "Command \<Rightarrow> Cluster \<Rightarrow> bool" where
  "runs_locally cmd c =
     (case cmd_type cmd of
        CmdGet \<Rightarrow> can_serve_locally (cmd_key cmd) False c
      | CmdTtl \<Rightarrow> can_serve_locally (cmd_key cmd) False c
      | CmdPttl \<Rightarrow> can_serve_locally (cmd_key cmd) False c
      | CmdExists \<Rightarrow> length (cmd_keys cmd) = 1 \<and> can_serve_locally (cmd_key cmd) False c
      | CmdSet \<Rightarrow> can_serve_locally (cmd_key cmd) True c
      | CmdDelete \<Rightarrow> length (cmd_keys cmd) = 1 \<and> can_serve_locally (cmd_key cmd) True c
      | CmdExpire \<Rightarrow> can_serve_locally (cmd_key cmd) True c \<and> can_serve_locally (cmd_key cmd) False c
      | _ \<Rightarrow> True)"

section \<open>The dispatcher\<close>

text \<open>The loops over the keys of DEL and EXISTS; the \<open>i\<close>-th key uses the \<open>i\<close>-th environment.\<close>

fun delete_keys :: "(nat \<Rightarrow> env) \<Rightarrow> string list \<Rightarrow> nat \<Rightarrow> int \<Rightarrow> string \<Rightarrow> Cluster \<Rightarrow> string \<times> Cluster" where
  "delete_keys es [] i removed out c = (append_integer out removed, c)"
| "delete_keys es (key # keys) i removed out c =
     (case cluster_del (es i) key c of
        (result, c) \<Rightarrow>
          if \<not> wr_ok result then (append_error out kWriteUnavailable, c)
          else delete_keys es keys (i + 1) (removed + (if wr_existed result then 1 else 0)) out c)"

fun exists_keys :: "(nat \<Rightarrow> env) \<Rightarrow> string list \<Rightarrow> nat \<Rightarrow> int \<Rightarrow> string \<Rightarrow> Cluster \<Rightarrow> string \<times> Cluster" where
  "exists_keys es [] i found out c = (append_integer out found, c)"
| "exists_keys es (key # keys) i found out c =
     (case cluster_read (es i) key c of
        (r, c) \<Rightarrow>
          if rd_status r = Unavailable then (append_error out kReadUnavailable, c)
          else exists_keys es keys (i + 1) (found + (if rd_status r = Found then 1 else 0)) out c)"

definition append_repl_get :: "string \<Rightarrow> VersionedValue option \<Rightarrow> string" where
  "append_repl_get out v =
     (case v of
        None \<Rightarrow> append_null out
      | Some v \<Rightarrow>
          (let out = append_array_header out 4;
               out = append_bulk out (vv_value v);
               out = append_integer out (sint (vv_version v));
               out = append_integer out (if vv_tombstone v then 1 else 0)
           in append_integer out (case vv_ttl v of Some t \<Rightarrow> max 1 t | None \<Rightarrow> -1)))"

definition append_view :: "string \<Rightarrow> MemberInfo list \<Rightarrow> string" where
  "append_view out view =
     foldl (\<lambda>out m.
       let out = append_bulk out (cn_id (mi_node m));
           out = append_bulk out (cn_host (mi_node m));
           out = append_bulk out (nat_to_string (unat (cn_port (mi_node m))));
           out = append_bulk out (u64_to_string (mi_generation m))
       in append_bulk out (if mi_status m = Alive then ''alive'' else ''left''))
       (append_array_header out (length view * 5)) view"

definition node_line :: "Cluster \<Rightarrow> MemberInfo \<Rightarrow> string" where
  "node_line c m =
     (let alive = (mi_status m = Alive);
          health = (if \<not> alive then ''-''
                    else if is_node_healthy (cn_id (mi_node m)) c then ''healthy'' else ''unhealthy'')
      in cn_id (mi_node m) @ '' '' @ cn_host (mi_node m) @ '':'' @ nat_to_string (unat (cn_port (mi_node m))) @
         '' gen='' @ u64_to_string (mi_generation m) @ '' '' @ (if alive then ''alive'' else ''left'') @ '' '' @
         health @ (if cn_id (mi_node m) = local_id c then '' myself'' else []) @ [LF])"

definition ttl_reply :: "CommandType \<Rightarrow> ReadResult \<Rightarrow> int" where
  "ttl_reply t r =
     (let ms = (if rd_status r = Found
                then (case vv_ttl (rd_value r) of Some t \<Rightarrow> t | None \<Rightarrow> -1) else -2)
      in if t = CmdTtl \<and> 0 < ms then trunc_div (ms + 999) 1000 else ms)"

definition dispatch :: "handler_env \<Rightarrow> Command \<Rightarrow> string \<Rightarrow> Cluster \<Rightarrow> string \<times> Cluster" where
  "dispatch he cmd out c =
     (let es = he_calls he in
      case cmd_type cmd of
        CmdPing \<Rightarrow>
          (if cmd_value cmd = [] then append_simple out ''PONG'' else append_bulk out (cmd_value cmd), c)
      | CmdEcho \<Rightarrow> (append_bulk out (cmd_value cmd), c)
      | CmdStats \<Rightarrow> (append_bulk out (stats_body (he_hit_rate he) c), c)
      | CmdDbSize \<Rightarrow> (append_integer out (sint (sharded_size (cu_local_cache c))), c)
      | CmdFlushAll \<Rightarrow>
          (append_simple out ''OK'', c\<lparr>cu_local_cache := sharded_clear (cu_local_cache c)\<rparr>)
      | CmdCommandDocs \<Rightarrow> (append_array_header out 0, c)
      | CmdConfig \<Rightarrow>
          (foldl (\<lambda>out name. append_bulk (append_bulk out name) [])
             (append_array_header out (length (cmd_keys cmd) * 2)) (cmd_keys cmd), c)
      | CmdSelect \<Rightarrow>
          (if cmd_value cmd = ''0'' then append_simple out ''OK''
           else append_error out ''ERR DB index is out of range'', c)
      | CmdClient \<Rightarrow> (append_simple out ''OK'', c)
      | CmdQuit \<Rightarrow> (append_simple out ''OK'', c)
      | CmdSet \<Rightarrow>
          (case put (es 0) (cmd_key cmd) (cmd_value cmd) (to_ttl (cmd_ttl_ms cmd)) c of
             (result, c) \<Rightarrow>
               (if wr_ok result then append_simple out ''OK'' else append_error out kWriteUnavailable, c))
      | CmdGet \<Rightarrow>
          (case cluster_read (es 0) (cmd_key cmd) c of
             (r, c) \<Rightarrow>
               (case rd_status r of
                  Found \<Rightarrow> append_bulk out (vv_value (rd_value r))
                | NotFound \<Rightarrow> append_null out
                | Unavailable \<Rightarrow> append_error out kReadUnavailable, c))
      | CmdDelete \<Rightarrow> delete_keys es (cmd_keys cmd) 0 0 out c
      | CmdExists \<Rightarrow> exists_keys es (cmd_keys cmd) 0 0 out c
      | CmdExpire \<Rightarrow>
          (case expire_key (es 0) (es 1) (cmd_key cmd)
                  (case cmd_ttl_ms cmd of Some t \<Rightarrow> sint t | None \<Rightarrow> 0) c of
             (result, c) \<Rightarrow>
               (if \<not> wr_ok result then append_error out kWriteUnavailable
                else append_integer out (if wr_existed result then 1 else 0), c))
      | CmdTtl \<Rightarrow>
          (case cluster_read (es 0) (cmd_key cmd) c of
             (r, c) \<Rightarrow>
               (if rd_status r = Unavailable then append_error out kReadUnavailable
                else append_integer out (ttl_reply CmdTtl r), c))
      | CmdPttl \<Rightarrow>
          (case cluster_read (es 0) (cmd_key cmd) c of
             (r, c) \<Rightarrow>
               (if rd_status r = Unavailable then append_error out kReadUnavailable
                else append_integer out (ttl_reply CmdPttl r), c))
      | CmdReplSet \<Rightarrow>
          (case apply_replica_write (e_write_now (es 0)) (cmd_key cmd)
                  \<lparr>vv_value = cmd_value cmd, vv_version = cmd_version cmd, vv_tombstone = False,
                   vv_ttl = to_ttl (cmd_ttl_ms cmd)\<rparr> c of
             (live, c) \<Rightarrow> (append_integer out (if live then 1 else 0), c))
      | CmdReplDelete \<Rightarrow>
          (case apply_replica_write (e_write_now (es 0)) (cmd_key cmd)
                  \<lparr>vv_value = [], vv_version = cmd_version cmd, vv_tombstone = True, vv_ttl = None\<rparr> c of
             (live, c) \<Rightarrow> (append_integer out (if live then 1 else 0), c))
      | CmdReplGet \<Rightarrow>
          (case replica_read (e_now (es 0)) (cmd_key cmd) c of
             (v, c) \<Rightarrow> (append_repl_get out v, c))
      | CmdClusterGossip \<Rightarrow>
          (case parse_members (cmd_keys cmd) of
             None \<Rightarrow> (append_error out ''ERR malformed gossip entry'', c)
           | Some remote \<Rightarrow>
               (case merge_gossip remote c of (view, c) \<Rightarrow> (append_view out view, c)))
      | CmdClusterNodes \<Rightarrow> (append_bulk out (concat (map (node_line c) (members c))), c)
      | CmdUnknown \<Rightarrow>
          (append_error out (if cmd_error cmd = [] then ''ERR unknown command'' else cmd_error cmd), c))"

section \<open>Counters\<close>

record CommandMetrics =
  cm_calls :: StripedCounter
  cm_errors :: StripedCounter
  cm_latency :: LatencyHistogram

record CommandHandler =
  h_metrics :: "CommandType \<Rightarrow> CommandMetrics"
  h_connections_total :: StripedCounter
  h_connections_active :: u64
  h_cluster :: Cluster

definition new_command_handler :: "Cluster \<Rightarrow> CommandHandler" where
  "new_command_handler c =
     \<lparr>h_metrics = (\<lambda>_. \<lparr>cm_calls = new_striped, cm_errors = new_striped, cm_latency = new_histogram\<rparr>),
      h_connections_total = new_striped, h_connections_active = 0, h_cluster = c\<rparr>"

definition connection_opened :: "nat \<Rightarrow> CommandHandler \<Rightarrow> CommandHandler" where
  "connection_opened mine h =
     h\<lparr>h_connections_total := striped_add mine 1 (h_connections_total h),
       h_connections_active := h_connections_active h + 1\<rparr>"

definition connection_closed :: "CommandHandler \<Rightarrow> CommandHandler" where
  "connection_closed h = h\<lparr>h_connections_active := h_connections_active h - 1\<rparr>"

definition execute :: "handler_env \<Rightarrow> Command \<Rightarrow> string \<Rightarrow> CommandHandler \<Rightarrow> string \<times> CommandHandler" where
  "execute he cmd out h =
     (let before = length out in
      case dispatch he cmd out (h_cluster h) of
        (out, c) \<Rightarrow>
          (let mine = stripe (he_stripe he);
               m = h_metrics h (cmd_type cmd);
               m = m\<lparr>cm_calls := striped_add mine 1 (cm_calls m)\<rparr>;
               m = (if before < length out \<and> out ! before = CHR ''-''
                    then m\<lparr>cm_errors := striped_add mine 1 (cm_errors m)\<rparr> else m);
               m = m\<lparr>cm_latency := latency_observe mine (he_elapsed he) (cm_latency m)\<rparr>
           in (out, h\<lparr>h_cluster := c, h_metrics := (h_metrics h)(cmd_type cmd := m)\<rparr>)))"

section \<open>One reply per command\<close>

definition answered :: "string \<Rightarrow> string \<Rightarrow> bool" where
  "answered out out' \<longleftrightarrow> (\<exists>v. out' = out @ reply_bytes v)"

lemma answered_intros [intro]:
  "answered out (append_simple out s)" "answered out (append_error out s)"
  "answered out (append_integer out n)" "answered out (append_bulk out s)" "answered out (append_null out)"
  unfolding answered_def
  by (rule exI [of _ "SimpleString s"] exI [of _ "RespError s"] exI [of _ "RespInteger n"]
        exI [of _ "BulkString s"] exI [of _ RespNull],
      simp add: append_simple_def append_error_def append_integer_def append_bulk_def append_null_def)+

lemma answered_array:
  "out' = append_array_header out (length vs) @ concat (map reply_bytes vs) \<Longrightarrow> answered out out'"
  unfolding answered_def by (rule exI [of _ "RespArray vs"]) (simp add: append_array_header_def)

lemma append_bulk_reply: "append_bulk out s = out @ reply_bytes (BulkString s)"
  by (simp add: append_bulk_def)

lemma append_integer_reply: "append_integer out n = out @ reply_bytes (RespInteger n)"
  by (simp add: append_integer_def)

text \<open>The replies that are arrays.\<close>

definition view_reply :: "MemberInfo list \<Rightarrow> RespValue" where
  "view_reply view = RespArray (map BulkString (concat (map member_args view)))"

lemma append_config:
  "foldl (\<lambda>out name. append_bulk (append_bulk out name) []) out names =
     out @ concat (map reply_bytes (concat (map (\<lambda>n. [BulkString n, BulkString []]) names)))"
  by (induction names arbitrary: out) (simp_all add: append_bulk_reply del: reply_bytes.simps)

lemma length_pairs: "length (concat (map (\<lambda>n. [f n, g n]) xs)) = length xs * 2"
  by (induction xs) simp_all

lemma length_member_args: "length (concat (map member_args ms)) = length ms * 5"
  by (induction ms) (simp_all add: member_args_def)

lemma append_view_reply: "append_view out view = out @ reply_bytes (view_reply view)"
proof -
  have "foldl (\<lambda>out m.
       let out = append_bulk out (cn_id (mi_node m));
           out = append_bulk out (cn_host (mi_node m));
           out = append_bulk out (nat_to_string (unat (cn_port (mi_node m))));
           out = append_bulk out (u64_to_string (mi_generation m))
       in append_bulk out (if mi_status m = Alive then ''alive'' else ''left'')) out view
    = out @ concat (map reply_bytes (map BulkString (concat (map member_args view))))" for out
    by (induction view arbitrary: out)
      (simp_all add: Let_def append_bulk_reply member_args_def u64_to_string_def del: reply_bytes.simps)
  then show ?thesis
    by (simp add: append_view_def view_reply_def append_array_header_def length_member_args)
qed

lemma append_repl_get_reply: "append_repl_get out v = out @ reply_bytes (repl_get_reply v)"
proof (cases v)
  case None
  then show ?thesis by (simp add: append_repl_get_def repl_get_reply_def append_null_def)
next
  case (Some u)
  have four: "reply_bytes (RespArray [p, q, r, s]) =
      append_array_header [] 4 @ reply_bytes p @ reply_bytes q @ reply_bytes r @ reply_bytes s" for p q r s
    by (simp add: numeral_eq_Suc)
  have head: "append_array_header out n = out @ append_array_header [] n" for n
    by (simp add: append_array_header_def)
  show ?thesis
    unfolding append_repl_get_def repl_get_reply_def Some option.case Let_def append_bulk_reply
      append_integer_reply four head [of 4] by (simp del: reply_bytes.simps)
qed

lemma answered_keys:
  "answered out (fst (delete_keys es keys i n out c))" "answered out (fst (exists_keys es keys i n out c))"
  by (induction keys arbitrary: i n c) (auto simp: case_prod_beta)

lemma dispatch_answers: "answered out (fst (dispatch he cmd out c))"
proof (cases "cmd_type cmd")
  case CmdConfig
  then show ?thesis
    by (auto simp: dispatch_def Let_def append_config length_pairs intro!: answered_array)
next
  case CmdCommandDocs
  then show ?thesis
    using answered_array [of "append_array_header out 0" out "[]"] by (simp add: dispatch_def Let_def)
next
  case CmdReplGet
  then show ?thesis
    unfolding answered_def by (auto simp: dispatch_def Let_def append_repl_get_reply split: prod.split)
next
  case CmdClusterGossip
  then show ?thesis
    by (auto simp: dispatch_def Let_def append_view_reply answered_def append_error_def
        intro: exI [of _ "RespError ''ERR malformed gossip entry''"] split: prod.split option.split)
qed (auto simp: dispatch_def Let_def answered_keys split: prod.split ReadStatus.split)

text \<open>The first byte of a reply tells an error from everything else.\<close>

lemma reply_first: "reply_bytes v \<noteq> []" "hd (reply_bytes v) = CHR ''-'' \<longleftrightarrow> (\<exists>s. v = RespError s)"
  by (cases v; simp add: append_simple_def append_error_def append_integer_def append_bulk_def
      append_null_def append_array_header_def)+

definition metrics_wf :: "CommandMetrics \<Rightarrow> bool" where
  "metrics_wf m \<longleftrightarrow> length (cm_calls m) = kStripes \<and> length (cm_errors m) = kStripes \<and> histogram_wf (cm_latency m)"

lemma execute_parts:
  assumes "dispatch he cmd out (h_cluster h) = (out @ reply_bytes v, c)"
  shows "execute he cmd out h = (out @ reply_bytes v,
    let mine = stripe (he_stripe he); t = cmd_type cmd; m = h_metrics h t
    in h\<lparr>h_cluster := c, h_metrics := (h_metrics h)(t :=
         \<lparr>cm_calls = striped_add mine 1 (cm_calls m),
          cm_errors = (if \<exists>s. v = RespError s then striped_add mine 1 (cm_errors m) else cm_errors m),
          cm_latency = latency_observe mine (he_elapsed he) (cm_latency m)\<rparr>)\<rparr>)"
proof -
  have "length out < length (out @ reply_bytes v) \<and> (out @ reply_bytes v) ! length out = CHR ''-''
      \<longleftrightarrow> (\<exists>s. v = RespError s)"
    using reply_first [of v] by (cases "reply_bytes v") auto
  then show ?thesis
    using assms by (cases "h_metrics h (cmd_type cmd)") (simp add: execute_def Let_def)
qed

section \<open>Properties\<close>


definition plain_env :: handler_env where
  "plain_env = \<lparr>he_calls = (\<lambda>_. one_reply), he_hit_rate = ''0.000000'', he_stripe = 3, he_elapsed = 25000\<rparr>"


section \<open>Replies do not depend on earlier output\<close>

lemma append_shift:
  "append_simple out s = out @ append_simple [] s" "append_error out s = out @ append_error [] s"
  "append_integer out n = out @ append_integer [] n" "append_bulk out s = out @ append_bulk [] s"
  "append_null out = out @ append_null []" "append_array_header out k = out @ append_array_header [] k"
  by (simp_all add: append_simple_def append_error_def append_integer_def append_bulk_def append_null_def
      append_array_header_def)

lemma keys_shift:
  "delete_keys es keys i n out c = (out @ fst (delete_keys es keys i n [] c), snd (delete_keys es keys i n [] c))"
  "exists_keys es keys i n out c = (out @ fst (exists_keys es keys i n [] c), snd (exists_keys es keys i n [] c))"
proof (induction keys arbitrary: i n c)
  case Nil
  { case 1 show ?case by (simp add: append_shift(3) [of out]) }
  { case 2 show ?case by (simp add: append_shift(3) [of out]) }
next
  case (Cons key keys)
  { case 1
    show ?case
    proof (cases "wr_ok (fst (cluster_del (es i) key c))")
      case True
      then show ?thesis by (simp add: case_prod_beta Cons.IH(1))
    next
      case False
      then show ?thesis by (simp add: case_prod_beta append_shift(2) [of out])
    qed }
  { case 2
    show ?case
    proof (cases "rd_status (fst (cluster_read (es i) key c)) = Unavailable")
      case False
      then show ?thesis by (simp add: case_prod_beta Cons.IH(2))
    next
      case True
      then show ?thesis by (simp add: case_prod_beta append_shift(2) [of out])
    qed }
qed

lemma dispatch_shift: "dispatch he cmd out c = (out @ fst (dispatch he cmd [] c), snd (dispatch he cmd [] c))"
proof (cases "cmd_type cmd")
  case CmdConfig
  then show ?thesis by (simp add: dispatch_def Let_def append_config append_shift(6) [of out])
next
  case CmdDelete
  then show ?thesis by (simp add: dispatch_def Let_def keys_shift(1) [of _ _ _ _ out])
next
  case CmdExists
  then show ?thesis by (simp add: dispatch_def Let_def keys_shift(2) [of _ _ _ _ out])
qed (simp_all add: dispatch_def Let_def case_prod_beta append_repl_get_reply append_view_reply
      append_shift(1) [of out] append_shift(2) [of out] append_shift(3) [of out] append_shift(4) [of out]
      append_shift(5) [of out] append_shift(6) [of out] split: ReadStatus.split option.split)

lemma execute_shift: "execute he cmd out h = (out @ fst (execute he cmd [] h), snd (execute he cmd [] h))"
proof -
  obtain v c where d: "dispatch he cmd [] (h_cluster h) = ([] @ reply_bytes v, c)"
    using dispatch_answers [of "[]" he cmd "h_cluster h"] by (auto simp: answered_def) (metis prod.collapse)
  then have "dispatch he cmd out (h_cluster h) = (out @ reply_bytes v, c)"
    by (subst dispatch_shift) simp
  from execute_parts [OF this] execute_parts [OF d] show ?thesis by simp
qed

section \<open>Commands that need no peer\<close>

text \<open>The same clock readings without any answer from a peer.\<close>

definition offline :: "env \<Rightarrow> env" where
  "offline e = e\<lparr>e_reads := [], e_writes := []\<rparr>"

definition unplugged :: "handler_env \<Rightarrow> handler_env" where
  "unplugged he = he\<lparr>he_calls := offline \<circ> he_calls he\<rparr>"

lemma unplugged_parts [simp]:
  "he_calls (unplugged he) i = offline (he_calls he i)" "he_hit_rate (unplugged he) = he_hit_rate he"
  "e_now (offline e) = e_now e" "e_write_now (offline e) = e_write_now e" "e_wall (offline e) = e_wall e"
  by (simp_all add: unplugged_def offline_def)

lemma serve_same:
  "cu_routing c' = cu_routing c \<Longrightarrow> cu_config c' = cu_config c \<Longrightarrow>
   can_serve_locally key w c' = can_serve_locally key w c"
  by (simp add: can_serve_locally_def effective_quorum_def)

lemma next_version_local:
  assumes "can_serve_locally key True c"
  shows "next_version e key c =
    (Some (fst (hlc_now (e_wall e) (cu_clock c))), c\<lparr>cu_clock := snd (hlc_now (e_wall e) (cu_clock c))\<rparr>)"
  using assms by (simp add: next_version_def case_prod_beta Let_def)

lemma replicate_local:
  assumes "can_serve_locally key True c"
  shows "cluster_replicate (offline e) key v c = cluster_replicate e key v c"
  using assms by (simp add: cluster_replicate_def)

lemma write_local:
  assumes "can_serve_locally key True c"
  shows "put (offline e) key value ttl c = put e key value ttl c"
    and "cluster_del (offline e) key c = cluster_del e key c"
proof -
  have "can_serve_locally key True (c\<lparr>cu_clock := t\<rparr>)" for t
    using assms serve_same [of "c\<lparr>cu_clock := t\<rparr>" c] by simp
  then show "put (offline e) key value ttl c = put e key value ttl c"
    and "cluster_del (offline e) key c = cluster_del e key c"
    by (simp_all add: put_def cluster_del_def next_version_local [OF assms] replicate_local)
qed

lemma read_local:
  assumes "can_serve_locally key False c"
  shows "cluster_read e key c = (to_result (fst (local_get (e_now e) key c)), snd (local_get (e_now e) key c))"
  using assms by (simp add: cluster_read_def case_prod_beta)

lemma expire_local:
  assumes "can_serve_locally key False c" and "can_serve_locally key True c"
  shows "expire_key (offline e) (offline e') key ttl c = expire_key e e' key ttl c"
proof -
  have "can_serve_locally key True ((snd (local_get now key c))\<lparr>cu_clock := t\<rparr>)" for now t
    using assms(2) serve_same [of "(snd (local_get now key c))\<lparr>cu_clock := t\<rparr>" c] by simp
  then show ?thesis
    by (simp add: expire_key_def read_local [OF assms(1)] case_prod_beta replicate_local split: ReadStatus.split)
qed

text \<open>The parser puts the first of several keys into the field that decides where a command runs.\<close>

definition keyed :: "Command \<Rightarrow> bool" where
  "keyed c \<longleftrightarrow> (cmd_type c \<in> {CmdExists, CmdDelete} \<longrightarrow> cmd_keys c \<noteq> [] \<and> cmd_key c = hd (cmd_keys c))"

lemma keyed_options:
  "parse_set_options args cmd = Some c \<Longrightarrow> cmd_type cmd \<notin> {CmdExists, CmdDelete} \<Longrightarrow> keyed c"
  by (auto simp: keyed_def dest!: parse_set_options_Some)

lemma keyed_other: "cmd_type c \<notin> {CmdExists, CmdDelete} \<Longrightarrow> keyed c"
  by (simp add: keyed_def)

lemma if_cond_pred: "(b \<Longrightarrow> P c) \<Longrightarrow> (\<not> b \<Longrightarrow> P d) \<Longrightarrow> P (if b then c else d)"
  by simp

lemma parse_keyed: "keyed (parse args)"
  unfolding parse_def Let_def
  by (intro if_cond_pred [of _ keyed] option_pred [of keyed])
     (auto simp: invalid_def wrong_arity_def new_command_def elim!: keyed_options, auto simp: keyed_def hd_drop_conv_nth)

text \<open>C22: A command that \<open>runs_locally\<close> accepts for an I/O thread never depends on a peer: its
  reply and its effect are the same when no peer answers at all. So no I/O thread waits for another
  node, and nodes that forward to each other cannot block each other's I/O threads.\<close>

theorem local_commands_need_no_peer:
  assumes "runs_locally (parse args) c"
  shows "dispatch he (parse args) out c = dispatch (unplugged he) (parse args) out c"
proof -
  define cmd where "cmd = parse args"
  have k: "cmd_type cmd \<in> {CmdExists, CmdDelete} \<Longrightarrow> length (cmd_keys cmd) = 1 \<Longrightarrow> cmd_keys cmd = [cmd_key cmd]"
    using parse_keyed [of args] by (auto simp: keyed_def cmd_def length_Suc_conv)
  have r: "runs_locally cmd c" using assms by (simp add: cmd_def)
  have "dispatch he cmd out c = dispatch (unplugged he) cmd out c"
  proof (cases "cmd_type cmd")
    case CmdDelete
    with r k show ?thesis by (simp add: runs_locally_def dispatch_def Let_def case_prod_beta write_local)
  next
    case CmdExists
    with r k show ?thesis by (simp add: runs_locally_def dispatch_def Let_def case_prod_beta read_local)
  qed (use r in \<open>simp_all add: runs_locally_def dispatch_def Let_def write_local read_local expire_local
      split: ReadStatus.split\<close>)
  then show ?thesis by (simp add: cmd_def)
qed

text \<open>A node alone in its ring.\<close>

definition loner :: Cluster where
  "loner =
     (let ring = ring_add_node node_b (new_ring 1)
      in (new_cluster 0 node_b (default_config\<lparr>cfg_replication_factor := 1\<rparr>))
           \<lparr>cu_ring := ring, cu_routing := (2, new_routing_table ring 1 ''b'')\<rparr>)"

lemma own_point_table:
  "new_routing_table (ring_add_node node_b (new_ring 1)) 1 ''b'' =
     \<lparr>rt_nodes = [node_b], rt_points = [vnode_hash ''b'' 0], rt_replicas = [[0]], rt_local_member = [True]\<rparr>"
  unfolding new_routing_table_def one_point_ring rt_scan_def Let_def
  by (simp add: rt_point_def umap_emplace_def Let_def node_ids)

lemma loner_serves: "can_serve_locally key w loner"
proof -
  have table: "routing_table loner =
     \<lparr>rt_nodes = [node_b], rt_points = [vnode_hash ''b'' 0], rt_replicas = [[0]], rt_local_member = [True]\<rparr>"
    using own_point_table by (simp add: loner_def Let_def)
  have "point_for key (routing_table loner) = 0"
    using lower_bound_le [of "hash_fn key" "[vnode_hash ''b'' 0]"]
    by (auto simp: point_for_def Let_def table le_Suc_eq)
  then show ?thesis
    by (simp add: can_serve_locally_def rt_empty_def local_is_replica_def effective_quorum_def Let_def table)
qed

theorem local_commands_need_no_peer_witness:
  "dispatch plain_env (parse [''GET'', ''k'']) [] loner = dispatch (unplugged plain_env) (parse [''GET'', ''k'']) [] loner"
proof -
  have "cmd_type (parse [''GET'', ''k'']) = CmdGet" by code_simp
  then have "runs_locally (parse [''GET'', ''k'']) loner" by (simp add: runs_locally_def loner_serves)
  then show ?thesis by (rule local_commands_need_no_peer)
qed

text \<open>An error text is sent as it is: a client that puts a line end into a verb gets a reply that
  reads as several.\<close>

lemma unknown_command_splits_reply:
  "fst (dispatch he (parse [''X'' @ crlf @ ''+OK'' @ crlf @ ''-'']) [] c) =
     reply_bytes (RespError (''ERR unknown command '' @ [CHR 0x27] @ ''X'')) @
     reply_bytes (SimpleString ''OK'') @ reply_bytes (RespError [CHR 0x27])"
proof -
  have "parse [''X'' @ crlf @ ''+OK'' @ crlf @ ''-''] =
      invalid (''ERR unknown command '' @ [CHR 0x27] @ ''X'' @ crlf @ ''+OK'' @ crlf @ ''-'' @ [CHR 0x27])"
    by code_simp
  then show ?thesis
    by (simp add: dispatch_def invalid_def append_error_def append_simple_def)
qed

end
