(* ===== verification/Session.thy ===== *)
theory Session
  imports Command_Handler
begin

text \<open>
  A client connection (src/network/session.cpp and session.hpp): buffering of what arrives, the loop
  over pipelined requests, commands handed to the RPC pool, and writing replies. A session has one
  asynchronous operation under way at a time; which one is part of the state, and its completion is
  a step. Other connections work on the same handler: what they do to it between two commands of this
  one is an arbitrary function.
\<close>

section \<open>State\<close>

definition kMaxPendingOutput :: nat where
  "kMaxPendingOutput = 1024 * 1024"

datatype pending = Reading | Writing | Running Command | Replied string | Closed | Destroyed

record ClientSession =
  sn_input :: string
  sn_output :: string
  sn_writing :: string
  sn_closing :: bool
  sn_awaiting_rpc :: bool
  sn_pending :: pending

text \<open>One turn of the command loop: the environment of the command, and what the other connections
  did since the last one.\<close>

record turn =
  t_env :: handler_env
  t_others :: "CommandHandler \<Rightarrow> CommandHandler"

definition new_session :: ClientSession where
  "new_session = \<lparr>sn_input = [], sn_output = [], sn_writing = [], sn_closing = False,
     sn_awaiting_rpc = False, sn_pending = Reading\<rparr>"

section \<open>Operations\<close>

definition close_session :: "ClientSession \<Rightarrow> ClientSession" where
  "close_session s = s\<lparr>sn_pending := Closed\<rparr>"

definition flush :: "ClientSession \<Rightarrow> ClientSession" where
  "flush s =
     (if sn_output s = []
      then (if sn_closing s then close_session s else s\<lparr>sn_pending := Reading\<rparr>)
      else s\<lparr>sn_writing := sn_output s, sn_output := [], sn_pending := Writing\<rparr>)"

text \<open>The loop of \<open>process_input\<close>: it returns the command to hand to the RPC pool, if any, how
  far it got in the input, and the new states.\<close>

function process_loop ::
    "(nat \<Rightarrow> turn) \<Rightarrow> nat \<Rightarrow> nat \<Rightarrow> ClientSession \<Rightarrow> CommandHandler
     \<Rightarrow> Command option \<times> nat \<times> ClientSession \<times> CommandHandler" where
  "process_loop turns i offset s h =
     (if \<not> sn_closing s \<and> offset < length (sn_input s) \<and> length (sn_output s) < kMaxPendingOutput
      then
        (case parse_request (drop offset (sn_input s)) of
           Incomplete \<Rightarrow> (None, offset, s, h)
         | Error error \<Rightarrow>
             (None, offset, s\<lparr>sn_output := append_error (sn_output s) error, sn_closing := True\<rparr>, h)
         | Ok args consumed \<Rightarrow>
             if args = [] then process_loop turns i (offset + consumed) s h
             else
               (let cmd = parse args;
                    h = t_others (turns i) h
                in if \<not> runs_locally cmd (h_cluster h) then (Some cmd, offset + consumed, s, h)
                   else
                     (case execute (t_env (turns i)) cmd (sn_output s) h of
                        (out, h) \<Rightarrow>
                          (let s = s\<lparr>sn_output := out\<rparr>;
                               s = (if cmd_type cmd = CmdQuit then s\<lparr>sn_closing := True\<rparr> else s)
                           in process_loop turns (i + 1) (offset + consumed) s h))))
      else (None, offset, s, h))"
  by auto
termination
proof (relation "measure (\<lambda>(turns, i, offset, s, h). length (sn_input s) - offset)", goal_cases)
  case (2 turns i offset s h args consumed)
  with request_Ok [OF 2(2), of "[]"] show ?case by auto
next
  case (3 turns i offset s h args consumed)
  with request_Ok [OF 3(2), of "[]"] show ?case by auto
qed simp

declare process_loop.simps [simp del]

definition process_input ::
    "(nat \<Rightarrow> turn) \<Rightarrow> ClientSession \<Rightarrow> CommandHandler \<Rightarrow> ClientSession \<times> CommandHandler" where
  "process_input turns s h =
     (if sn_awaiting_rpc s then (s, h)
      else
        case process_loop turns 0 0 s h of
          (Some cmd, offset, s, h) \<Rightarrow>
            (s\<lparr>sn_awaiting_rpc := True, sn_input := drop offset (sn_input s), sn_pending := Running cmd\<rparr>, h)
        | (None, offset, s, h) \<Rightarrow> (flush (s\<lparr>sn_input := drop offset (sn_input s)\<rparr>), h))"

text \<open>The completion handlers: of a read (\<open>None\<close> is an error), of the two halves of a remote
  command, and of a write.\<close>

definition on_read ::
    "(nat \<Rightarrow> turn) \<Rightarrow> string option \<Rightarrow> ClientSession \<Rightarrow> CommandHandler \<Rightarrow> ClientSession \<times> CommandHandler" where
  "on_read turns chunk s h =
     (case chunk of
        None \<Rightarrow> (close_session s, h)
      | Some bytes \<Rightarrow> process_input turns (s\<lparr>sn_input := sn_input s @ bytes\<rparr>) h)"

definition run_remote ::
    "handler_env \<Rightarrow> Command \<Rightarrow> ClientSession \<Rightarrow> CommandHandler \<Rightarrow> ClientSession \<times> CommandHandler" where
  "run_remote he cmd s h =
     (case execute he cmd [] h of (reply, h) \<Rightarrow> (s\<lparr>sn_pending := Replied reply\<rparr>, h))"

definition on_remote_reply ::
    "(nat \<Rightarrow> turn) \<Rightarrow> string \<Rightarrow> ClientSession \<Rightarrow> CommandHandler \<Rightarrow> ClientSession \<times> CommandHandler" where
  "on_remote_reply turns reply s h =
     process_input turns (s\<lparr>sn_output := sn_output s @ reply, sn_awaiting_rpc := False\<rparr>) h"

definition on_written ::
    "(nat \<Rightarrow> turn) \<Rightarrow> bool \<Rightarrow> ClientSession \<Rightarrow> CommandHandler \<Rightarrow> ClientSession \<times> CommandHandler" where
  "on_written turns ok s h =
     (if \<not> ok then (close_session s, h)
      else
        (let s = s\<lparr>sn_writing := []\<rparr>
         in if \<not> sn_closing s \<and> sn_input s \<noteq> [] then process_input turns s h else (flush s, h)))"

section \<open>A connection\<close>

text \<open>The session with its handler, everything the client sent so far, and everything whose
  writing has completed.\<close>

record connection =
  co_session :: ClientSession
  co_handler :: CommandHandler
  co_received :: string
  co_sent :: string

definition at :: "ClientSession \<times> CommandHandler \<Rightarrow> connection \<Rightarrow> connection" where
  "at sh c = c\<lparr>co_session := fst sh, co_handler := snd sh\<rparr>"

inductive connection_step :: "connection \<Rightarrow> connection \<Rightarrow> bool" where
  read: "sn_pending (co_session c) = Reading \<Longrightarrow>
    connection_step c (at (on_read turns (Some bytes) (co_session c) (co_handler c))
      (c\<lparr>co_received := co_received c @ bytes\<rparr>))"
| read_failed: "sn_pending (co_session c) = Reading \<Longrightarrow>
    connection_step c (at (on_read turns None (co_session c) (co_handler c)) c)"
| remote: "sn_pending (co_session c) = Running cmd \<Longrightarrow>
    connection_step c (at (run_remote he cmd (co_session c) (co_handler c)) c)"
| replied: "sn_pending (co_session c) = Replied reply \<Longrightarrow>
    connection_step c (at (on_remote_reply turns reply (co_session c) (co_handler c)) c)"
| written: "sn_pending (co_session c) = Writing \<Longrightarrow>
    connection_step c (at (on_written turns True (co_session c) (co_handler c))
      (c\<lparr>co_sent := co_sent c @ sn_writing (co_session c)\<rparr>))"
| write_failed: "sn_pending (co_session c) = Writing \<Longrightarrow>
    connection_step c (at (on_written turns False (co_session c) (co_handler c)) c)"
| destroyed: "sn_pending (co_session c) = Closed \<Longrightarrow>
    connection_step c (at ((co_session c)\<lparr>sn_pending := Destroyed\<rparr>, connection_closed (co_handler c)) c)"
| others: "connection_step c (c\<lparr>co_handler := f (co_handler c)\<rparr>)"

definition accepted :: "nat \<Rightarrow> CommandHandler \<Rightarrow> connection" where
  "accepted mine h =
     \<lparr>co_session = new_session, co_handler = connection_opened mine h, co_received = [], co_sent = []\<rparr>"

inductive connection_run :: "nat \<Rightarrow> CommandHandler \<Rightarrow> connection \<Rightarrow> bool" for mine h where
  start: "connection_run mine h (accepted mine h)"
| step: "connection_run mine h c \<Longrightarrow> connection_step c c' \<Longrightarrow> connection_run mine h c'"

section \<open>A server that answers one request after the other\<close>

text \<open>What happened on a connection, in order: requests that were answered, a malformed request that
  was rejected, and what others did to the handler in between.\<close>

datatype log_item =
    Served "string list" handler_env
  | Rejected string
  | Outside "CommandHandler \<Rightarrow> CommandHandler"

fun serve_item :: "log_item \<Rightarrow> string \<times> CommandHandler \<Rightarrow> string \<times> CommandHandler" where
  "serve_item (Served args he) (out, h) = (if args = [] then (out, h) else execute he (parse args) out h)"
| "serve_item (Rejected error) (out, h) = (append_error out error, h)"
| "serve_item (Outside f) (out, h) = (out, f h)"

definition serve :: "log_item list \<Rightarrow> string \<times> CommandHandler \<Rightarrow> string \<times> CommandHandler" where
  "serve log st = fold serve_item log st"

text \<open>The requests of a log are what the bytes parse into, one after the other; the rest of the
  bytes is left.\<close>

fun consumes :: "log_item list \<Rightarrow> string \<Rightarrow> string option" where
  "consumes [] b = Some b"
| "consumes (Served args he # log) b =
     (case parse_request b of
        Ok args' n \<Rightarrow> if args' = args then consumes log (drop n b) else None
      | _ \<Rightarrow> None)"
| "consumes (Rejected error # log) b = (if parse_request b = Error error then consumes log b else None)"
| "consumes (Outside f # log) b = consumes log b"

fun accepting :: "log_item list \<Rightarrow> bool" where
  "accepting [] \<longleftrightarrow> True"
| "accepting (Rejected e # log) \<longleftrightarrow> False"
| "accepting (_ # log) \<longleftrightarrow> accepting log"

lemma serve_simps [simp]:
  "serve [] st = st" "serve (x # log) st = serve log (serve_item x st)" "serve (l @ m) st = serve m (serve l st)"
  by (simp_all add: serve_def)

lemma consumes_append: "consumes (l @ m) b = (case consumes l b of None \<Rightarrow> None | Some r \<Rightarrow> consumes m r)"
  by (induction l b rule: consumes.induct) (auto split: ParseStatus.split)

lemma accepting_append [simp]: "accepting (l @ m) \<longleftrightarrow> accepting l \<and> accepting m"
  by (induction l rule: accepting.induct) auto

lemma consumes_more:
  "consumes log b = Some r \<Longrightarrow> accepting log \<Longrightarrow> consumes log (b @ u) = Some (r @ u)"
proof (induction log b rule: consumes.induct)
  case (2 args he log b)
  then obtain n where p: "parse_request b = Ok args n" "consumes log (drop n b) = Some r"
    by (auto split: ParseStatus.splits if_splits)
  with request_Ok [OF p(1), of u] 2 show ?case by auto
qed auto

lemma serve_shift:
  "serve log (out, h) = (out @ fst (serve log ([], h)), snd (serve log ([], h)))"
proof (induction log arbitrary: out h)
  case (Cons x log)
  have "serve_item x (out, h) = (out @ fst (serve_item x ([], h)), snd (serve_item x ([], h)))"
  proof (cases x)
    case (Served args he)
    then show ?thesis using execute_shift [of he "parse args" out h] by auto
  next
    case (Rejected e)
    then show ?thesis using append_shift(2) [of out e] by simp
  qed simp
  then show ?case
    using Cons.IH [of "out @ fst (serve_item x ([], h))" "snd (serve_item x ([], h))"]
      Cons.IH [of "fst (serve_item x ([], h))" "snd (serve_item x ([], h))"] by simp
qed simp

text \<open>What the loop has done when it stops.\<close>

definition unread_same :: "ClientSession \<Rightarrow> ClientSession \<Rightarrow> bool" where
  "unread_same s s' \<longleftrightarrow> sn_input s' = sn_input s \<and> sn_writing s' = sn_writing s \<and>
     sn_awaiting_rpc s' = sn_awaiting_rpc s \<and> sn_pending s' = sn_pending s"

definition loop_done ::
    "ClientSession \<Rightarrow> CommandHandler \<Rightarrow> nat \<Rightarrow> Command option \<Rightarrow> nat \<Rightarrow> ClientSession \<Rightarrow> CommandHandler
     \<Rightarrow> log_item list \<Rightarrow> string \<Rightarrow> bool" where
  "loop_done s h offset remote offset' s' h' log rest \<longleftrightarrow>
     consumes log (drop offset (sn_input s)) = Some rest \<and>
     serve log (sn_output s, h) = (sn_output s', h') \<and>
     unread_same s s' \<and>
     (\<not> sn_closing s' \<longrightarrow> accepting log) \<and>
     (case remote of
        None \<Rightarrow>
          drop offset' (sn_input s) = rest \<and>
          (sn_closing s' \<or> rest = [] \<or> parse_request rest = Incomplete \<or> sn_output s' \<noteq> [])
      | Some cmd \<Rightarrow>
          \<not> sn_closing s' \<and>
          (\<exists>args n. parse_request rest = Ok args n \<and> args \<noteq> [] \<and> cmd = parse args \<and>
             drop offset' (sn_input s) = drop n rest))"

lemma loop_done_later:
  assumes "loop_done s1 h1 (offset + n) remote offset' s' h' log rest" and "unread_same s s1"
    and "serve pre (sn_output s, h) = (sn_output s1, h1)"
    and "consumes pre (drop offset (sn_input s)) = Some (drop (offset + n) (sn_input s))" and "accepting pre"
  shows "loop_done s h offset remote offset' s' h' (pre @ log) rest"
  using assms by (auto simp: loop_done_def consumes_append unread_same_def split: option.split)

lemma process_loop_done:
  "process_loop turns i offset s h = (remote, offset', s', h') \<Longrightarrow>
   \<exists>log rest. loop_done s h offset remote offset' s' h' log rest"
proof (induction turns i offset s h rule: process_loop.induct)
  case (1 turns i offset s h)
  let ?b = "drop offset (sn_input s)"
  show ?case
  proof (cases "\<not> sn_closing s \<and> offset < length (sn_input s) \<and> length (sn_output s) < kMaxPendingOutput")
    case False
    then have "loop_done s h offset remote offset' s' h' [] ?b"
      using "1.prems" by (subst (asm) process_loop.simps)
        (auto simp: loop_done_def unread_same_def not_less kMaxPendingOutput_def)
    then show ?thesis by blast
  next
    case go: True
    show ?thesis
    proof (cases "parse_request ?b")
      case Incomplete
      with go "1.prems" have "loop_done s h offset remote offset' s' h' [] ?b"
        by (subst (asm) process_loop.simps) (auto simp: loop_done_def unread_same_def)
      then show ?thesis by blast
    next
      case (Error e)
      with go "1.prems" have "loop_done s h offset remote offset' s' h' [Rejected e] ?b"
        by (subst (asm) process_loop.simps) (auto simp: loop_done_def unread_same_def)
      then show ?thesis by blast
    next
      case (Ok args n)
      show ?thesis
      proof (cases "args = []")
        case True
        with go Ok "1.prems" have "process_loop turns i (offset + n) s h = (remote, offset', s', h')"
          by (subst (asm) process_loop.simps) simp
        from "1.IH"(1) [OF go Ok True this] obtain log rest
          where "loop_done s h (offset + n) remote offset' s' h' log rest" by blast
        then have "loop_done s h offset remote offset' s' h' ([Served [] plain_env] @ log) rest"
          by (rule loop_done_later) (use Ok True in \<open>auto simp: unread_same_def add.commute\<close>)
        then show ?thesis by blast
      next
        case args: False
        define h1 where "h1 = t_others (turns i) h"
        show ?thesis
        proof (cases "runs_locally (parse args) (h_cluster h1)")
          case False
          with go Ok args "1.prems" have "loop_done s h offset remote offset' s' h' [Outside (t_others (turns i))] ?b"
            by (subst (asm) process_loop.simps) (auto simp: loop_done_def unread_same_def h1_def add.commute)
          then show ?thesis by blast
        next
          case True
          obtain out h2 where ex: "execute (t_env (turns i)) (parse args) (sn_output s) h1 = (out, h2)" by fastforce
          define s2 where "s2 = (if cmd_type (parse args) = CmdQuit then s\<lparr>sn_output := out, sn_closing := True\<rparr>
            else s\<lparr>sn_output := out\<rparr>)"
          have s2: "s2 = (if cmd_type (parse args) = CmdQuit then s\<lparr>sn_output := out\<rparr>\<lparr>sn_closing := True\<rparr>
            else s\<lparr>sn_output := out\<rparr>)" by (simp add: s2_def)
          have "process_loop turns (i + 1) (offset + n) s2 h2 = (remote, offset', s', h')"
            using go Ok args True ex "1.prems"
            by (subst (asm) process_loop.simps) (simp add: h1_def [symmetric] s2_def Let_def)
          from "1.IH"(2) [OF go Ok args refl h1_def _ ex [symmetric] refl s2 this] True obtain log rest
            where "loop_done s2 h2 (offset + n) remote offset' s' h' log rest" by auto
          then have "loop_done s h offset remote offset' s' h'
              ([Outside (t_others (turns i)), Served args (t_env (turns i))] @ log) rest"
            by (rule loop_done_later) (use Ok args ex in \<open>auto simp: unread_same_def s2_def h1_def add.commute\<close>)
          then show ?thesis by blast
        qed
      qed
    qed
  qed
qed

section \<open>Invariant\<close>

fun in_hand :: "pending \<Rightarrow> string" where
  "in_hand (Replied reply) = reply"
| "in_hand _ = []"

text \<open>The buffered input is what is left of the received bytes, without the request that a running
  command came from.\<close>

definition open_request :: "pending \<Rightarrow> string \<Rightarrow> string \<Rightarrow> bool" where
  "open_request p rest input =
     (case p of
        Running cmd \<Rightarrow> \<exists>args n. parse_request rest = Ok args n \<and> args \<noteq> [] \<and> cmd = parse args \<and> input = drop n rest
      | _ \<Rightarrow> input = rest)"

definition logged :: "CommandHandler \<Rightarrow> connection \<Rightarrow> log_item list \<Rightarrow> string \<Rightarrow> bool" where
  "logged start c log rest \<longleftrightarrow>
     (let s = co_session c
      in consumes log (co_received c) = Some rest \<and>
         serve log ([], start) =
           (co_sent c @ sn_writing s @ sn_output s @ in_hand (sn_pending s), co_handler c) \<and>
         open_request (sn_pending s) rest (sn_input s) \<and>
         (\<not> sn_closing s \<longrightarrow> accepting log))"

definition session_wf :: "ClientSession \<Rightarrow> bool" where
  "session_wf s =
     (case sn_pending s of
        Reading \<Rightarrow>
          sn_output s = [] \<and> sn_writing s = [] \<and> \<not> sn_closing s \<and> \<not> sn_awaiting_rpc s \<and>
          (sn_input s = [] \<or> parse_request (sn_input s) = Incomplete)
      | Writing \<Rightarrow> sn_output s = [] \<and> \<not> sn_awaiting_rpc s
      | Running cmd \<Rightarrow> sn_writing s = [] \<and> \<not> sn_closing s \<and> sn_awaiting_rpc s
      | Replied reply \<Rightarrow> sn_writing s = [] \<and> \<not> sn_closing s \<and> sn_awaiting_rpc s
      | _ \<Rightarrow> True)"

definition session_ok :: "CommandHandler \<Rightarrow> connection \<Rightarrow> bool" where
  "session_ok start c \<longleftrightarrow> session_wf (co_session c) \<and> (\<exists>log rest. logged start c log rest)"

lemma process_input_ok:
  assumes "\<not> sn_awaiting_rpc s" "sn_writing s = []"
    and "consumes log (co_received c) = Some (sn_input s)"
    and "serve log ([], start) = (co_sent c @ sn_output s, h)" and "accepting log"
  shows "session_ok start (at (process_input turns s h) c)"
proof -
  obtain remote offset s' h' where l: "process_loop turns 0 0 s h = (remote, offset, s', h')"
    by (metis prod_cases4)
  from process_loop_done [OF this] obtain log' rest where d: "loop_done s h 0 remote offset s' h' log' rest" by blast
  have srv: "serve (log @ log') ([], start) = (co_sent c @ sn_output s', h')"
    using d assms(4) serve_shift [of log' "co_sent c @ sn_output s" h] serve_shift [of log' "sn_output s" h]
    by (auto simp: loop_done_def)
  have con: "consumes (log @ log') (co_received c) = Some rest"
    using d assms(3) by (simp add: consumes_append loop_done_def)
  have same: "sn_writing s' = []" "\<not> sn_awaiting_rpc s'" "sn_input s' = sn_input s"
    using d assms(1,2) by (auto simp: loop_done_def unread_same_def)
  show ?thesis
  proof (cases remote)
    case (Some cmd)
    then have "logged start (at (process_input turns s h) c) (log @ log') rest"
      using d srv con same assms(1,5) l
      by (auto simp: logged_def process_input_def at_def open_request_def loop_done_def Let_def)
    moreover have "session_wf (co_session (at (process_input turns s h) c))"
      using d same assms(1) l Some by (auto simp: session_wf_def process_input_def at_def loop_done_def)
    ultimately show ?thesis by (auto simp: session_ok_def)
  next
    case None
    then have "logged start (at (process_input turns s h) c) (log @ log') rest"
      using d srv con same assms(1,5) l
      by (auto simp: logged_def process_input_def at_def open_request_def loop_done_def Let_def flush_def close_session_def)
    moreover have "session_wf (co_session (at (process_input turns s h) c))"
      using d same assms(1) l None
      by (auto simp: session_wf_def process_input_def at_def loop_done_def flush_def close_session_def)
    ultimately show ?thesis by (auto simp: session_ok_def)
  qed
qed

lemma session_okE:
  assumes "session_ok start c"
  obtains log rest where "session_wf (co_session c)" "logged start c log rest"
  using assms by (auto simp: session_ok_def)

lemma logged_handler:
  "logged start c log rest \<Longrightarrow> logged start (c\<lparr>co_handler := f (co_handler c)\<rparr>) (log @ [Outside f]) rest"
  by (auto simp: logged_def consumes_append Let_def)

lemma connection_step_ok:
  assumes "connection_step c c'" and "session_ok start c"
  shows "session_ok start c'"
  using assms(1)
proof cases
  case (read turns bytes)
  from assms(2) obtain log rest where ok: "session_wf (co_session c)" "logged start c log rest" by (rule session_okE)
  let ?s = "(co_session c)\<lparr>sn_input := sn_input (co_session c) @ bytes\<rparr>"
    and ?c = "c\<lparr>co_received := co_received c @ bytes\<rparr>"
  have acc: "accepting log" and out: "sn_output (co_session c) = []" "sn_writing (co_session c) = []"
    "\<not> sn_awaiting_rpc (co_session c)"
    using ok read(2) by (auto simp: session_wf_def logged_def Let_def)
  have "consumes log (co_received c) = Some (sn_input (co_session c))"
    using ok(2) read(2) by (auto simp: logged_def open_request_def Let_def)
  from consumes_more [OF this acc] have con: "consumes log (co_received ?c) = Some (sn_input ?s)" by simp
  have srv: "serve log ([], start) = (co_sent ?c @ sn_output ?s, co_handler c)"
    using ok(2) read(2) out by (auto simp: logged_def Let_def)
  have "session_ok start (at (process_input turns ?s (co_handler c)) ?c)"
    using out con srv acc by (intro process_input_ok) simp_all
  then show ?thesis using read(1) by (simp add: on_read_def)
next
  case (read_failed turns)
  with assms(2) show ?thesis
    by (auto simp: session_ok_def session_wf_def logged_def on_read_def close_session_def at_def open_request_def Let_def)
next
  case (remote cmd he)
  from assms(2) obtain log rest where ok: "session_wf (co_session c)" "logged start c log rest" by (rule session_okE)
  let ?s = "co_session c"
  from ok(2) remote(2) obtain args n where req: "parse_request rest = Ok args n" "args \<noteq> []" "cmd = parse args"
    "sn_input ?s = drop n rest"
    by (auto simp: logged_def open_request_def Let_def)
  have srv: "serve log ([], start) = (co_sent c @ sn_writing ?s @ sn_output ?s, co_handler c)"
    and con: "consumes log (co_received c) = Some rest"
    using ok(2) remote(2) by (auto simp: logged_def Let_def)
  have "serve (log @ [Served args he]) ([], start) =
      (co_sent c @ sn_writing ?s @ sn_output ?s @ fst (execute he cmd [] (co_handler c)),
       snd (execute he cmd [] (co_handler c)))"
    using req srv execute_shift [of he cmd "co_sent c @ sn_writing ?s @ sn_output ?s" "co_handler c"] by simp
  then have "logged start c' (log @ [Served args he]) (sn_input ?s)"
    using req con ok(2) remote(1)
    by (auto simp: logged_def at_def run_remote_def case_prod_beta consumes_append open_request_def Let_def)
  moreover have "session_wf (co_session c')"
    using ok(1) remote by (auto simp: session_wf_def at_def run_remote_def case_prod_beta)
  ultimately show ?thesis by (auto simp: session_ok_def)
next
  case (replied reply turns)
  from assms(2) obtain log rest where ok: "session_wf (co_session c)" "logged start c log rest" by (rule session_okE)
  let ?s = "co_session c"
  have "session_ok start (at (process_input turns (?s\<lparr>sn_output := sn_output ?s @ reply, sn_awaiting_rpc := False\<rparr>) (co_handler c)) c)"
    using ok replied(2) by (intro process_input_ok [where log = log]) (auto simp: session_wf_def logged_def open_request_def Let_def)
  then show ?thesis using replied(1) by (simp add: on_remote_reply_def)
next
  case (written turns)
  from assms(2) obtain log rest where ok: "session_wf (co_session c)" "logged start c log rest" by (rule session_okE)
  let ?s = "(co_session c)\<lparr>sn_writing := []\<rparr>" and ?c = "c\<lparr>co_sent := co_sent c @ sn_writing (co_session c)\<rparr>"
  show ?thesis
  proof (cases "\<not> sn_closing ?s \<and> sn_input ?s \<noteq> []")
    case True
    have "session_ok start (at (process_input turns ?s (co_handler c)) ?c)"
      using ok written(2) True by (intro process_input_ok [where log = log]) (auto simp: session_wf_def logged_def open_request_def Let_def)
    then show ?thesis using written(1) True by (simp add: on_written_def Let_def)
  next
    case False
    then have eq: "c' = at (flush ?s, co_handler c) ?c" using written(1) by (auto simp: on_written_def Let_def)
    have "logged start c' log rest"
      using ok(2) ok(1) written(2) False unfolding eq
      by (auto simp: logged_def at_def flush_def close_session_def open_request_def session_wf_def Let_def)
    moreover have "session_wf (co_session c')"
      using ok(1) written(2) False unfolding eq by (auto simp: session_wf_def at_def flush_def close_session_def)
    ultimately show ?thesis by (auto simp: session_ok_def)
  qed
next
  case (write_failed turns)
  with assms(2) show ?thesis
    by (auto simp: session_ok_def session_wf_def logged_def on_written_def close_session_def at_def open_request_def Let_def)
next
  case destroyed
  from assms(2) obtain log rest where ok: "session_wf (co_session c)" "logged start c log rest" by (rule session_okE)
  have "logged start c' (log @ [Outside connection_closed]) rest"
    using ok(2) destroyed by (auto simp: logged_def at_def consumes_append open_request_def Let_def)
  then show ?thesis using destroyed by (auto simp: session_ok_def session_wf_def at_def)
next
  case (others f)
  with assms(2) logged_handler [of start c _ _ f] show ?thesis by (auto simp: session_ok_def)
qed

lemma connection_run_ok:
  assumes "connection_run mine h c" shows "session_ok (connection_opened mine h) c"
  using assms
proof induction
  case start
  have "logged (connection_opened mine h) (accepted mine h) [] []"
    by (simp add: logged_def accepted_def new_session_def open_request_def)
  then show ?case by (auto simp: session_ok_def session_wf_def accepted_def new_session_def)
qed (rule connection_step_ok)

section \<open>Properties\<close>

text \<open>C4: Pipelined requests are answered exactly once and in order, however the network cuts them
  into packets, whenever remote commands and writes complete, and whatever other connections do
  meanwhile. The bytes received so far are the requests of a log, followed by the request that is
  running at the moment and the buffered input; the bytes written, being written and waiting to be
  written are exactly the replies of a server that answers the requests of that log one after the
  other.\<close>

theorem session_answers_in_order:
  assumes "connection_run mine h c"
  shows "\<exists>log rest. consumes log (co_received c) = Some rest
    \<and> open_request (sn_pending (co_session c)) rest (sn_input (co_session c))
    \<and> serve log ([], connection_opened mine h) =
        (co_sent c @ sn_writing (co_session c) @ sn_output (co_session c) @ in_hand (sn_pending (co_session c)),
         co_handler c)"
  using connection_run_ok [OF assms] by (auto simp: session_ok_def logged_def Let_def)

text \<open>A session that waits for its client owes it nothing: everything that was answered has
  been written, and what is left in the buffer is not a complete request.\<close>

theorem session_idle_owes_nothing:
  assumes "connection_run mine h c" and "sn_pending (co_session c) = Reading"
  shows "\<exists>log rest. consumes log (co_received c) = Some rest
    \<and> co_sent c = fst (serve log ([], connection_opened mine h))
    \<and> (rest = [] \<or> parse_request rest = Incomplete)"
proof -
  from connection_run_ok [OF assms(1)] obtain log rest where ok: "session_wf (co_session c)"
    "logged (connection_opened mine h) c log rest" by (rule session_okE)
  with assms(2) have "consumes log (co_received c) = Some rest
    \<and> co_sent c = fst (serve log ([], connection_opened mine h)) \<and> (rest = [] \<or> parse_request rest = Incomplete)"
    by (auto simp: logged_def session_wf_def open_request_def Let_def)
  then show ?thesis by blast
qed

section \<open>Draining\<close>

text \<open>The completions that do not need the client: of remote commands and of writes.\<close>

inductive completion :: "connection \<Rightarrow> connection \<Rightarrow> bool" where
  remote: "sn_pending (co_session c) = Running cmd \<Longrightarrow>
    completion c (at (run_remote he cmd (co_session c) (co_handler c)) c)"
| replied: "sn_pending (co_session c) = Replied reply \<Longrightarrow>
    completion c (at (on_remote_reply turns reply (co_session c) (co_handler c)) c)"
| written: "sn_pending (co_session c) = Writing \<Longrightarrow>
    completion c (at (on_written turns True (co_session c) (co_handler c))
      (c\<lparr>co_sent := co_sent c @ sn_writing (co_session c)\<rparr>))"

inductive completions :: "nat \<Rightarrow> connection \<Rightarrow> connection \<Rightarrow> bool" where
  none: "completions 0 c c"
| complete: "completion c c' \<Longrightarrow> completions n c' c'' \<Longrightarrow> completions (Suc n) c c''"

lemma completion_step: "completion c c' \<Longrightarrow> connection_step c c'"
  by (induction rule: completion.induct) (rule connection_step.intros; assumption)+

fun rank :: "ClientSession \<Rightarrow> nat" where
  "rank s =
     (case sn_pending s of
        Running cmd \<Rightarrow> 4 | Replied reply \<Rightarrow> 3 | Writing \<Rightarrow> if sn_closing s then 1 else 2 | _ \<Rightarrow> 0)"

definition work_left :: "ClientSession \<Rightarrow> nat" where
  "work_left s = 5 * length (sn_input s) + rank s"

lemma consumes_length:
  "consumes log b = Some r \<Longrightarrow> length r \<le> length b \<and>
     (length r = length b \<longrightarrow> accepting log \<longrightarrow> (\<forall>out h. fst (serve log (out, h)) = out))"
proof (induction log b rule: consumes.induct)
  case (2 args he log b)
  then obtain n where p: "parse_request b = Ok args n" "consumes log (drop n b) = Some r"
    by (auto split: ParseStatus.splits if_splits)
  with request_Ok [OF p(1), of "[]"] 2 show ?case by auto
qed (auto split: if_splits)

lemma process_input_work:
  assumes s: "\<not> sn_awaiting_rpc s" "\<not> sn_closing s"
  shows "work_left (fst (process_input turns s h)) < 5 * length (sn_input s) + (if sn_output s = [] then 2 else 3)"
proof -
  obtain remote offset s' h' where l: "process_loop turns 0 0 s h = (remote, offset, s', h')"
    by (metis prod_cases4)
  from process_loop_done [OF this] obtain log rest where d: "loop_done s h 0 remote offset s' h' log rest" by blast
  then have con: "consumes log (sn_input s) = Some rest" and same: "sn_input s' = sn_input s" "\<not> sn_awaiting_rpc s'"
    using s by (auto simp: loop_done_def unread_same_def)
  note len = consumes_length [OF con]
  show ?thesis
  proof (cases remote)
    case (Some cmd)
    then obtain args n where "parse_request rest = Ok args n" "drop offset (sn_input s) = drop n rest"
      using d by (auto simp: loop_done_def)
    with request_Ok [of rest args n "[]"] len have "length (drop offset (sn_input s)) < length (sn_input s)" by auto
    then show ?thesis using l s Some same by (simp add: process_input_def work_left_def)
  next
    case None
    then have r: "drop offset (sn_input s) = rest" using d by (simp add: loop_done_def)
    have out: "sn_output s' = sn_output s" if "length rest = length (sn_input s)" "\<not> sn_closing s'"
      using that len d by (auto simp: loop_done_def) (metis fst_conv)
    show ?thesis
      using l s None same r len out
      by (cases "length rest = length (sn_input s)")
        (auto simp: process_input_def work_left_def flush_def close_session_def split: if_splits)
  qed
qed

lemma completion_work:
  assumes "completion c c'" and "session_wf (co_session c)"
  shows "work_left (co_session c') < work_left (co_session c)"
  using assms(1)
proof cases
  case (remote cmd he)
  then show ?thesis by (simp add: at_def run_remote_def case_prod_beta work_left_def)
next
  case (replied reply turns)
  let ?s = "(co_session c)\<lparr>sn_output := sn_output (co_session c) @ reply, sn_awaiting_rpc := False\<rparr>"
  have "work_left (co_session c) = 5 * length (sn_input ?s) + 3" using replied by (simp add: work_left_def)
  with process_input_work [of ?s turns "co_handler c"] show ?thesis
    using assms(2) replied by (auto simp: at_def on_remote_reply_def session_wf_def split: if_splits)
next
  case (written turns)
  let ?s = "(co_session c)\<lparr>sn_writing := []\<rparr>"
  show ?thesis
  proof (cases "\<not> sn_closing ?s \<and> sn_input ?s \<noteq> []")
    case True
    have "work_left (co_session c) = 5 * length (sn_input ?s) + 2" using written True by (simp add: work_left_def)
    with process_input_work [of ?s turns "co_handler c"] show ?thesis
      using assms(2) written True by (auto simp: at_def on_written_def session_wf_def Let_def)
  next
    case False
    then show ?thesis
      using assms(2) written
      by (auto simp: at_def on_written_def session_wf_def Let_def work_left_def flush_def close_session_def)
  qed
qed

text \<open>C30: Nothing gets stuck behind a pipeline: in any state of a connection the remote commands and
  writes that are still needed are at most five for every buffered byte plus four, whatever they
  answer, and when none is under way any more the session waits for its client, owing it nothing, or
  is closed.\<close>

theorem session_drains:
  assumes "connection_run mine h c" and "completions n c c'"
  shows "n \<le> 5 * length (sn_input (co_session c)) + 4
    \<and> ((\<exists>c''. completion c' c'') \<or> sn_pending (co_session c') \<in> {Reading, Closed, Destroyed})"
proof -
  have "session_wf (co_session c)" using connection_run_ok [OF assms(1)] by (simp add: session_ok_def)
  with assms(2,1) have "n + work_left (co_session c') \<le> work_left (co_session c)"
  proof (induction)
    case (complete c c' n c'')
    have "connection_run mine h c'" using complete by (metis completion_step connection_run.step)
    moreover from this have "session_wf (co_session c')" using connection_run_ok by (auto simp: session_ok_def)
    ultimately show ?case using complete.IH completion_work [OF complete(1)] complete.prems by simp
  qed simp
  moreover have "rank (co_session c) \<le> 4" by (simp split: pending.split)
  moreover have "(\<exists>c''. completion c' c'') \<or> sn_pending (co_session c') \<in> {Reading, Closed, Destroyed}"
    by (cases "sn_pending (co_session c')") (auto intro: completion.intros)
  ultimately show ?thesis by (simp add: work_left_def)
qed

section \<open>A connection that sends one PING\<close>

definition quiet :: "nat \<Rightarrow> turn" where
  "quiet i = \<lparr>t_env = plain_env, t_others = id\<rparr>"

definition pinged :: connection where
  "pinged =
     (let c = accepted 0 (new_command_handler loner)
      in at (on_read quiet (Some (''PING'' @ crlf)) (co_session c) (co_handler c))
           (c\<lparr>co_received := ''PING'' @ crlf\<rparr>))"

definition ponged :: connection where
  "ponged =
     at (on_written quiet True (co_session pinged) (co_handler pinged))
       (pinged\<lparr>co_sent := sn_writing (co_session pinged)\<rparr>)"

lemma ping_read:
  assumes "sn_input s = []" "sn_output s = []" "\<not> sn_closing s" "\<not> sn_awaiting_rpc s"
  shows "fst (on_read quiet (Some (''PING'' @ crlf)) s h) =
    s\<lparr>sn_writing := ''+PONG'' @ crlf, sn_pending := Writing\<rparr>"
proof -
  have p: "parse_request (''PING'' @ crlf) = Ok [''PING''] 6"
    by (simp add: parse_request_def parse_inline_def inline_words.simps is_blank_def Let_def)
  have c: "cmd_type (parse [''PING'']) = CmdPing" "cmd_value (parse [''PING'']) = []" by code_simp+
  have e: "execute plain_env (parse [''PING'']) [] h = (''+PONG'' @ crlf, snd (execute plain_env (parse [''PING'']) [] h))"
    using execute_parts [of plain_env "parse [''PING'']" "[]" h "SimpleString ''PONG''" "h_cluster h"]
    by (simp add: dispatch_def c append_simple_def)
  have r: "runs_locally (parse [''PING'']) x" for x by (simp add: runs_locally_def c)
  define s1 where "s1 = s\<lparr>sn_input := ''PING'' @ crlf\<rparr>"
  have "process_loop quiet 0 0 s1 h =
      process_loop quiet 1 6 (s1\<lparr>sn_output := ''+PONG'' @ crlf\<rparr>) (snd (execute plain_env (parse [''PING'']) [] h))"
    using assms p c r by (subst process_loop.simps) (simp add: s1_def quiet_def kMaxPendingOutput_def, subst e, simp)
  also have "\<dots> = (None, 6, s1\<lparr>sn_output := ''+PONG'' @ crlf\<rparr>, snd (execute plain_env (parse [''PING'']) [] h))"
    by (subst process_loop.simps) (simp add: s1_def)
  finally show ?thesis
    using assms by (simp add: on_read_def process_input_def s1_def [symmetric]) (simp add: s1_def flush_def)
qed

lemma pinged_parts:
  "connection_run 0 (new_command_handler loner) pinged" "co_received pinged = ''PING'' @ crlf" "co_sent pinged = []"
  "co_session pinged = new_session\<lparr>sn_writing := ''+PONG'' @ crlf, sn_pending := Writing\<rparr>"
proof -
  let ?c = "accepted 0 (new_command_handler loner)"
  have "connection_step ?c (at (on_read quiet (Some (''PING'' @ crlf)) (co_session ?c) (co_handler ?c))
      (?c\<lparr>co_received := co_received ?c @ ''PING'' @ crlf\<rparr>))"
    by (rule connection_step.read) (simp add: accepted_def new_session_def)
  then have "connection_step ?c pinged" by (simp add: pinged_def Let_def accepted_def)
  then show "connection_run 0 (new_command_handler loner) pinged" by (rule connection_run.step [OF connection_run.start])
  show "co_received pinged = ''PING'' @ crlf" "co_sent pinged = []"
    by (simp_all add: pinged_def Let_def at_def accepted_def)
  show "co_session pinged = new_session\<lparr>sn_writing := ''+PONG'' @ crlf, sn_pending := Writing\<rparr>"
    using ping_read [of new_session "connection_opened 0 (new_command_handler loner)"]
    by (simp add: pinged_def Let_def at_def accepted_def new_session_def)
qed

lemma ponged_parts:
  "connection_run 0 (new_command_handler loner) ponged" "completion pinged ponged"
  "sn_pending (co_session ponged) = Reading" "co_sent ponged = ''+PONG'' @ crlf" "co_received ponged = ''PING'' @ crlf"
proof -
  have w: "sn_pending (co_session pinged) = Writing" by (simp add: pinged_parts)
  show c: "completion pinged ponged"
    using completion.written [OF w, of quiet] by (simp add: ponged_def pinged_parts(3))
  then show "connection_run 0 (new_command_handler loner) ponged"
    by (rule connection_run.step [OF pinged_parts(1) completion_step])
  show "sn_pending (co_session ponged) = Reading" "co_sent ponged = ''+PONG'' @ crlf"
    "co_received ponged = ''PING'' @ crlf"
    by (simp_all add: ponged_def at_def pinged_parts on_written_def flush_def new_session_def)
qed

theorem session_answers_in_order_witness:
  "\<exists>log rest. consumes log (''PING'' @ crlf) = Some rest
    \<and> fst (serve log ([], connection_opened 0 (new_command_handler loner))) = ''+PONG'' @ crlf"
  using session_answers_in_order [OF pinged_parts(1)] by (force simp: pinged_parts new_session_def)

theorem session_idle_owes_nothing_witness:
  "\<exists>log rest. consumes log (''PING'' @ crlf) = Some rest
    \<and> ''+PONG'' @ crlf = fst (serve log ([], connection_opened 0 (new_command_handler loner)))
    \<and> (rest = [] \<or> parse_request rest = Incomplete)"
  using session_idle_owes_nothing [OF ponged_parts(1,3)] by (simp only: ponged_parts)

theorem session_drains_witness:
  "connection_run 0 (new_command_handler loner) pinged \<and> completions 1 pinged ponged \<and> 1 \<le> 5 * length (sn_input (co_session pinged)) + 4"
proof -
  have one: "completions 1 pinged ponged"
    using completions.complete [OF ponged_parts(2) completions.none] by simp
  from session_drains [OF pinged_parts(1) one] one pinged_parts(1) show ?thesis by blast
qed

end
