(* ===== verification/Peer_Channel.thy ===== *)
theory Peer_Channel
  imports Replica_Rpc Std_Map "HOL-Library.Sublist"
begin

text \<open>
  Pipelined connections to peers (src/network/peer_channel.cpp and peer_channel.hpp) and the pool of
  blocking connections (peer_pool.cpp, peer_pool.hpp). All handlers of a channel run on one strand,
  so each is an atomic step; callbacks are numbers, and a handler returns the callbacks it ran with
  their results, in order. Socket outcomes and clock readings are inputs.
\<close>

section \<open>One channel\<close>

datatype channel_state = Disconnected | Connecting | Connected

record PeerChannel =
  pc_request_timeout :: millis
  pc_state :: channel_state
  pc_generation :: u64
  pc_writing :: bool
  pc_timer_armed :: bool
  pc_queued :: string
  pc_in_write :: string
  pc_pending :: "(nat \<times> ticks) list"
  pc_rx :: string

type_synonym fired = "(nat \<times> RespValue RequestResult) list"

definition new_channel :: "millis \<Rightarrow> PeerChannel" where
  "new_channel request_timeout =
     \<lparr>pc_request_timeout = request_timeout, pc_state = Disconnected, pc_generation = 0, pc_writing = False,
      pc_timer_armed = False, pc_queued = [], pc_in_write = [], pc_pending = [], pc_rx = []\<rparr>"

definition reset_connection :: "PeerChannel \<Rightarrow> PeerChannel" where
  "reset_connection p =
     p\<lparr>pc_generation := pc_generation p + 1, pc_state := Disconnected, pc_writing := False,
       pc_queued := [], pc_in_write := [], pc_rx := []\<rparr>"

definition fail_all :: "RequestStatus \<Rightarrow> string \<Rightarrow> PeerChannel \<Rightarrow> fired \<times> PeerChannel" where
  "fail_all status message p =
     (map (\<lambda>(cb, deadline). (cb, rr_error status message)) (pc_pending p),
      (reset_connection p)\<lparr>pc_pending := []\<rparr>)"

text \<open>Starting a write moves the queued bytes to the buffer that is being written.\<close>

definition channel_flush :: "PeerChannel \<Rightarrow> PeerChannel" where
  "channel_flush p =
     (if pc_writing p \<or> pc_queued p = [] \<or> pc_state p \<noteq> Connected then p
      else p\<lparr>pc_writing := True, pc_in_write := pc_queued p, pc_queued := []\<rparr>)"

definition channel_connect :: "PeerChannel \<Rightarrow> PeerChannel" where
  "channel_connect p = p\<lparr>pc_state := Connecting, pc_generation := pc_generation p + 1\<rparr>"

definition enqueue :: "ticks \<Rightarrow> string \<Rightarrow> nat \<Rightarrow> PeerChannel \<Rightarrow> PeerChannel" where
  "enqueue now request cb p =
     (let p = p\<lparr>pc_queued := pc_queued p @ request,
                pc_pending := pc_pending p @ [(cb, now + ticks_of_millis (pc_request_timeout p))]\<rparr>;
          p = (if \<not> pc_timer_armed p then p\<lparr>pc_timer_armed := True\<rparr> else p)
      in case pc_state p of
           Disconnected \<Rightarrow> channel_connect p
         | Connected \<Rightarrow> channel_flush p
         | Connecting \<Rightarrow> p)"

definition channel_call :: "ticks \<Rightarrow> string list \<Rightarrow> nat \<Rightarrow> PeerChannel \<Rightarrow> PeerChannel" where
  "channel_call now args cb p = enqueue now (command args) cb p"

definition channel_close :: "PeerChannel \<Rightarrow> fired \<times> PeerChannel" where
  "channel_close p = fail_all StConnectionError ''Channel closed'' p"

text \<open>The completion handlers; an error code carries its message. A handler of an earlier connection
  is recognised by its generation and does nothing.\<close>

definition on_resolved :: "u64 \<Rightarrow> string option \<Rightarrow> PeerChannel \<Rightarrow> fired \<times> PeerChannel" where
  "on_resolved gen ec p =
     (if gen \<noteq> pc_generation p then ([], p)
      else case ec of Some msg \<Rightarrow> fail_all StConnectionError msg p | None \<Rightarrow> ([], p))"

definition on_connected :: "u64 \<Rightarrow> string option \<Rightarrow> PeerChannel \<Rightarrow> fired \<times> PeerChannel" where
  "on_connected gen ec p =
     (if gen \<noteq> pc_generation p then ([], p)
      else
        case ec of
          Some msg \<Rightarrow> fail_all StConnectionError msg p
        | None \<Rightarrow> ([], channel_flush (p\<lparr>pc_state := Connected\<rparr>)))"

definition on_sent :: "u64 \<Rightarrow> string option \<Rightarrow> PeerChannel \<Rightarrow> fired \<times> PeerChannel" where
  "on_sent gen ec p =
     (if gen \<noteq> pc_generation p then ([], p)
      else
        (let p = p\<lparr>pc_writing := False, pc_in_write := []\<rparr>
         in case ec of
              Some msg \<Rightarrow> fail_all StConnectionError msg p
            | None \<Rightarrow> ([], channel_flush p)))"

text \<open>The loop over the replies in the buffer: callbacks run, callbacks still pending, the bytes
  left, and whether a reply was malformed.\<close>

fun deliver :: "(nat \<times> ticks) list \<Rightarrow> string \<Rightarrow> fired \<times> (nat \<times> ticks) list \<times> string \<times> bool" where
  "deliver [] rx = ([], [], rx, False)"
| "deliver (p # ps) rx =
     (case parse_reply rx of
        Incomplete \<Rightarrow> ([], p # ps, rx, False)
      | Error e \<Rightarrow> ([], p # ps, rx, True)
      | Ok reply used \<Rightarrow>
          (case deliver ps (drop used rx) of
             (fired, left, rest, malformed) \<Rightarrow> ((fst p, rr_success reply) # fired, left, rest, malformed)))"

definition on_received :: "u64 \<Rightarrow> string + string \<Rightarrow> PeerChannel \<Rightarrow> fired \<times> PeerChannel" where
  "on_received gen ec p =
     (if gen \<noteq> pc_generation p then ([], p)
      else
        case ec of
          Inl msg \<Rightarrow> fail_all StConnectionError msg p
        | Inr bytes \<Rightarrow>
            (case deliver (pc_pending p) (pc_rx p @ bytes) of
               (fired, left, rest, malformed) \<Rightarrow>
                 (let p = p\<lparr>pc_pending := left, pc_rx := rest\<rparr>
                  in if malformed
                     then (case fail_all StProtocolError ''Malformed RESP reply'' p of
                             (failed, p) \<Rightarrow> (fired @ failed, p))
                     else (fired, p))))"

definition on_timer :: "ticks \<Rightarrow> PeerChannel \<Rightarrow> fired \<times> PeerChannel" where
  "on_timer now p =
     (let p = p\<lparr>pc_timer_armed := False\<rparr> in
      case pc_pending p of
        [] \<Rightarrow> ([], p)
      | (cb, deadline) # rest \<Rightarrow>
          if deadline \<le> now then fail_all StTimeout ''Operation timed out'' p
          else ([], p\<lparr>pc_timer_armed := True\<rparr>))"

section \<open>The channels of all peers\<close>

record PeerChannels =
  ps_per_peer :: nat
  ps_request_timeout :: millis
  ps_channels :: "(string \<times> PeerChannel list) list"
  ps_next :: u64

definition make_address :: "string \<Rightarrow> u16 \<Rightarrow> string" where
  "make_address host port = host @ '':'' @ nat_to_string (unat port)"

definition new_channels :: "nat \<Rightarrow> millis \<Rightarrow> PeerChannels" where
  "new_channels channels_per_peer request_timeout =
     \<lparr>ps_per_peer = max 1 channels_per_peer, ps_request_timeout = request_timeout, ps_channels = [], ps_next = 0\<rparr>"

text \<open>The channel that takes the next call to a peer, by its position.\<close>

definition pick_channel :: "string \<Rightarrow> u16 \<Rightarrow> PeerChannels \<Rightarrow> nat \<times> PeerChannels" where
  "pick_channel host port ps =
     (let a = make_address host port;
          known = (case map_of (ps_channels ps) a of Some l \<Rightarrow> l | None \<Rightarrow> []);
          l = (if known = [] then replicate (ps_per_peer ps) (new_channel (ps_request_timeout ps)) else known)
      in (unat (ps_next ps) mod length l,
          ps\<lparr>ps_channels := umap_set a l (ps_channels ps), ps_next := ps_next ps + 1\<rparr>))"

definition channels_call :: "ticks \<Rightarrow> string \<Rightarrow> u16 \<Rightarrow> string list \<Rightarrow> nat \<Rightarrow> PeerChannels \<Rightarrow> PeerChannels" where
  "channels_call now host port args cb ps =
     (case pick_channel host port ps of
        (i, ps) \<Rightarrow>
          (let a = make_address host port;
               l = the (map_of (ps_channels ps) a)
           in ps\<lparr>ps_channels := umap_set a (l[i := channel_call now args cb (l ! i)]) (ps_channels ps)\<rparr>))"

definition channels_drop :: "string \<Rightarrow> u16 \<Rightarrow> PeerChannels \<Rightarrow> fired \<times> PeerChannels" where
  "channels_drop host port ps =
     (let a = make_address host port in
      case map_of (ps_channels ps) a of
        None \<Rightarrow> ([], ps)
      | Some l \<Rightarrow>
          (concat (map (fst \<circ> channel_close) l),
           ps\<lparr>ps_channels := umap_set a (map (snd \<circ> channel_close) l) (ps_channels ps)\<rparr>))"

section \<open>The pool of blocking connections\<close>

record PeerPool =
  pp_max_idle_per_peer :: nat
  pp_idle :: "(string \<times> Client list) list"

definition new_pool :: "nat \<Rightarrow> PeerPool" where
  "new_pool max_idle_per_peer = \<lparr>pp_max_idle_per_peer = max_idle_per_peer, pp_idle = []\<rparr>"

text \<open>A lease is the connection handed out; \<open>None\<close> is a peer that cannot be reached.\<close>

definition acquire :: "bool \<Rightarrow> string \<Rightarrow> u16 \<Rightarrow> PeerPool \<Rightarrow> Client option \<times> PeerPool" where
  "acquire reachable host port pool =
     (let a = make_address host port;
          idle = (case map_of (pp_idle pool) a of Some l \<Rightarrow> l | None \<Rightarrow> [])
      in if idle \<noteq> [] then (Some (last idle), pool\<lparr>pp_idle := umap_set a (butlast idle) (pp_idle pool)\<rparr>)
         else (case client_connect reachable new_client of
                 (ok, client) \<Rightarrow> (if ok then Some client else None, pool)))"

definition release :: "string \<Rightarrow> Client \<Rightarrow> PeerPool \<Rightarrow> PeerPool" where
  "release a client pool =
     (let idle = (case map_of (pp_idle pool) a of Some l \<Rightarrow> l | None \<Rightarrow> [])
      in if length idle < pp_max_idle_per_peer pool
         then pool\<lparr>pp_idle := umap_set a (idle @ [client]) (pp_idle pool)\<rparr>
         else pool\<lparr>pp_idle := umap_set a idle (pp_idle pool)\<rparr>)"

definition end_lease :: "string \<Rightarrow> u16 \<Rightarrow> Client \<Rightarrow> PeerPool \<Rightarrow> PeerPool" where
  "end_lease host port client pool =
     (if cl_connected client then release (make_address host port) client pool else pool)"

definition pool_drop :: "string \<Rightarrow> u16 \<Rightarrow> PeerPool \<Rightarrow> PeerPool" where
  "pool_drop host port pool =
     (let a = make_address host port in
      case map_of (pp_idle pool) a of
        None \<Rightarrow> pool
      | Some l \<Rightarrow> pool\<lparr>pp_idle := umap_set a [] (pp_idle pool)\<rparr>)"

section \<open>Runs of a channel\<close>

text \<open>A channel with its history: the time, all calls and all callbacks that ran, and, for the
  current connection, the calls it carries, the bytes handed to the socket and received from it, and
  the replies delivered.\<close>

record channel_trace =
  ct_channel :: PeerChannel
  ct_now :: ticks
  ct_calls :: "nat list"
  ct_fired :: fired
  ct_carried :: "(nat \<times> string list) list"
  ct_sent :: string
  ct_received :: string
  ct_replies :: "RespValue list"

definition new_trace :: "millis \<Rightarrow> ticks \<Rightarrow> channel_trace" where
  "new_trace timeout now =
     \<lparr>ct_channel = new_channel timeout, ct_now = now, ct_calls = [], ct_fired = [], ct_carried = [],
      ct_sent = [], ct_received = [], ct_replies = []\<rparr>"

text \<open>After a handler: the channel was reset, or it went on; then the bytes that left the queue were
  handed to the socket and the replies are the results of the callbacks.\<close>

definition advance :: "fired \<times> PeerChannel \<Rightarrow> channel_trace \<Rightarrow> channel_trace" where
  "advance r t =
     (let p = ct_channel t;
          p' = snd r;
          t = t\<lparr>ct_channel := p', ct_fired := ct_fired t @ fst r\<rparr>
      in if pc_generation p' \<noteq> pc_generation p \<and> pc_state p' = Disconnected
         then t\<lparr>ct_carried := [], ct_sent := [], ct_received := [], ct_replies := []\<rparr>
         else t\<lparr>ct_sent := ct_sent t @ take (length (pc_queued p) - length (pc_queued p')) (pc_queued p),
                ct_replies := ct_replies t @ map (the \<circ> rr_value \<circ> snd) (fst r)\<rparr>)"

text \<open>Any handler may run at any time, also one of an earlier connection.\<close>

inductive channel_step :: "channel_trace \<Rightarrow> channel_trace \<Rightarrow> bool" where
  call: "ct_now t \<le> now \<Longrightarrow>
    channel_step t
      ((advance ([], channel_call now args cb (ct_channel t))
         (t\<lparr>ct_channel := (ct_channel t)\<lparr>pc_queued := pc_queued (ct_channel t) @ command args\<rparr>\<rparr>))
       \<lparr>ct_now := now, ct_calls := ct_calls t @ [cb], ct_carried := ct_carried t @ [(cb, args)]\<rparr>)"
| close: "channel_step t (advance (channel_close (ct_channel t)) t)"
| resolved: "channel_step t (advance (on_resolved gen ec (ct_channel t)) t)"
| connected: "channel_step t (advance (on_connected gen ec (ct_channel t)) t)"
| sent: "channel_step t (advance (on_sent gen ec (ct_channel t)) t)"
| read_failed: "channel_step t (advance (on_received gen (Inl msg) (ct_channel t)) t)"
| received: "gen = pc_generation (ct_channel t) \<Longrightarrow>
    channel_step t (advance (on_received gen (Inr bytes) (ct_channel t))
      (t\<lparr>ct_received := ct_received t @ bytes\<rparr>))"
| stale_read: "gen \<noteq> pc_generation (ct_channel t) \<Longrightarrow>
    channel_step t (advance (on_received gen (Inr bytes) (ct_channel t)) t)"
| timer: "ct_now t \<le> now \<Longrightarrow>
    channel_step t ((advance (on_timer now (ct_channel t)) t)\<lparr>ct_now := now\<rparr>)"

inductive channel_run :: "millis \<Rightarrow> ticks \<Rightarrow> channel_trace \<Rightarrow> bool" for timeout start where
  start: "channel_run timeout start (new_trace timeout start)"
| step: "channel_run timeout start t \<Longrightarrow> channel_step t t' \<Longrightarrow> channel_run timeout start t'"

fun replies_in :: "RespValue list \<Rightarrow> string \<Rightarrow> string option" where
  "replies_in [] b = Some b"
| "replies_in (v # vs) b =
     (case parse_reply b of
        Ok v' n \<Rightarrow> if v' = v then replies_in vs (drop n b) else None
      | _ \<Rightarrow> None)"

section \<open>Replies stay parsed when more bytes arrive\<close>

lemma crlf_line_more:
  assumes "crlf_at buf = Some e"
  shows "substr (buf @ u) 1 (e - 1) = substr buf 1 (e - 1)" "crlf_at (buf @ u) = Some e" "e + 2 \<le> length buf"
  using crlf_at_Some [OF assms] crlf_at_more [OF assms] by (auto simp: substr_def)

text \<open>What a reply is once its first line is known.\<close>

definition reply_head :: "char \<Rightarrow> string \<Rightarrow> string \<Rightarrow> nat \<Rightarrow> RespValue ParseStatus" where
  "reply_head tag line buf e =
     (if tag = CHR ''+'' then Ok (SimpleString line) (e + 2)
      else if tag = CHR ''-'' then Ok (RespError line) (e + 2)
      else if tag = CHR '':'' then
        (case parse_int line of None \<Rightarrow> Error [] | Some n \<Rightarrow> Ok (RespInteger n) (e + 2))
      else if tag = CHR ''$'' then
        (case parse_int line of
           None \<Rightarrow> Error []
         | Some len \<Rightarrow>
             if len < -1 \<or> int kMaxBulkLength < len then Error []
             else if len = -1 then Ok RespNull (e + 2)
             else if length buf < e + 2 + nat len + 2 then Incomplete
             else Ok (BulkString (substr buf (e + 2) (nat len))) (e + 2 + nat len + 2))
      else if tag = CHR ''*'' then
        (case parse_int line of
           None \<Rightarrow> Error []
         | Some count \<Rightarrow>
             if count < -1 \<or> int kMaxArrayLength < count then Error []
             else if count = -1 then Ok RespNull (e + 2)
             else (case parse_elems (nat count) (drop (e + 2) buf) of
                     Ok elements used \<Rightarrow> Ok (RespArray elements) (e + 2 + used)
                   | Incomplete \<Rightarrow> Incomplete
                   | Error err \<Rightarrow> Error err))
      else Error [])"

lemma reply_headI:
  assumes "crlf_at (tag # tail) = Some e" "e \<noteq> 0"
  shows "parse_reply (tag # tail) = reply_head tag (substr (tag # tail) 1 (e - 1)) (tag # tail) e"
  using assms unfolding parse_reply.simps reply_head_def Let_def by simp

lemma parse_reply_Ok:
  shows "parse_reply buf = Ok v n \<Longrightarrow> 0 < n \<and> n \<le> length buf \<and> parse_reply (buf @ u) = Ok v n"
    and "parse_elems k rest = Ok vs m \<Longrightarrow> m \<le> length rest \<and> parse_elems k (rest @ u) = Ok vs m"
proof (induction buf and k rest arbitrary: v n and vs m rule: parse_reply_parse_elems.induct)
  case (2 tag tail)
  let ?buf = "tag # tail"
  from "2.prems" obtain e where e: "crlf_at ?buf = Some e"
    by (auto simp: parse_reply.simps Let_def split: option.splits)
  have e0: "e \<noteq> 0"
  proof
    assume "e = 0"
    then have "tag = CR" using crlf_at_Some [OF e] by simp
    with "2.prems" e show False by (auto simp: parse_reply.simps Let_def split: if_splits)
  qed
  define line where "line = substr ?buf 1 (e - 1)"
  have m: "substr (?buf @ u) 1 (e - 1) = line" "crlf_at (?buf @ u) = Some e" "e + 2 \<le> length ?buf"
    using crlf_line_more [OF e] by (simp_all add: line_def)
  have now: "parse_reply ?buf = Ok v n" by (rule "2.prems")
  have unfold: "parse_reply ?buf = reply_head tag line ?buf e" "parse_reply (?buf @ u) = reply_head tag line (?buf @ u) e"
    using reply_headI [OF e e0] reply_headI [of tag "tail @ u" e] m e0 by (simp_all add: line_def)
  consider "tag = CHR ''+''" | "tag = CHR ''-''" | "tag = CHR '':''" | "tag = CHR ''$''" | "tag = CHR ''*''"
    using now unfolding unfold by (cases "tag = CHR ''+''"; cases "tag = CHR ''-''"; cases "tag = CHR '':''";
      cases "tag = CHR ''$''"; cases "tag = CHR ''*''") (simp_all add: reply_head_def)
  then show ?case
  proof cases
    case 1
    with now m(3) show ?thesis unfolding unfold by (auto simp: reply_head_def)
  next
    case 2
    with now m(3) show ?thesis unfolding unfold by (auto simp: reply_head_def)
  next
    case 3
    with now m(3) show ?thesis unfolding unfold by (auto simp: reply_head_def split: option.splits)
  next
    case 4
    with now m(3) show ?thesis unfolding unfold
      using substr_more [of "e + 2" _ ?buf u]
      by (auto simp: reply_head_def Let_def split: option.splits if_splits)
  next
    case 5
    with now obtain count where c: "parse_int line = Some count" "\<not> (count < -1 \<or> int kMaxArrayLength < count)"
      and v: "(if count = -1 then Ok RespNull (e + 2)
        else case parse_elems (nat count) (drop (e + 2) ?buf) of
               Ok elements used \<Rightarrow> Ok (RespArray elements) (e + 2 + used)
             | Incomplete \<Rightarrow> Incomplete | Error err \<Rightarrow> Error err) = Ok v n"
      unfolding unfold by (auto simp: reply_head_def split: option.splits if_splits)
    have more: "parse_reply (?buf @ u) = (if count = -1 then Ok RespNull (e + 2)
        else case parse_elems (nat count) (drop (e + 2) ?buf @ u) of
               Ok elements used \<Rightarrow> Ok (RespArray elements) (e + 2 + used)
             | Incomplete \<Rightarrow> Incomplete | Error err \<Rightarrow> Error err)"
      using 5 c m(3) unfolding unfold by (simp add: reply_head_def)
    show ?thesis
    proof (cases "count = -1")
      case True
      with v m(3) more show ?thesis by auto
    next
      case False
      with v obtain elements used where el: "parse_elems (nat count) (drop (e + 2) ?buf) = Ok elements used"
        and vn: "v = RespArray elements" "n = e + 2 + used"
        by (auto split: ParseStatus.splits)
      have "used \<le> length (drop (e + 2) ?buf) \<and> parse_elems (nat count) (drop (e + 2) ?buf @ u) = Ok elements used"
        using 5 e e0 c False el by (intro "2.IH" [OF refl]) (auto simp: line_def)
      with more False vn m(3) show ?thesis by auto
    qed
  qed
next
  case (4 n rest)
  then obtain v used vs' used' where r: "parse_reply rest = Ok v used" "parse_elems n (drop used rest) = Ok vs' used'"
    "vs = v # vs'" "m = used + used'"
    by (auto simp: parse_elems.simps split: ParseStatus.splits)
  from "4.IH"(1) [OF r(1)] "4.IH"(2) [OF r(1,2)] r show ?case by (auto simp: parse_elems.simps)
qed (auto simp: parse_reply.simps parse_elems.simps)

section \<open>Invariant\<close>

lemma replies_in_more: "replies_in vs b = Some r \<Longrightarrow> replies_in vs (b @ u) = Some (r @ u)"
proof (induction vs arbitrary: b)
  case (Cons v vs)
  then obtain n where p: "parse_reply b = Ok v n" "replies_in vs (drop n b) = Some r"
    by (auto split: ParseStatus.splits if_splits)
  with parse_reply_Ok(1) [OF p(1), of u] Cons.IH [OF p(2)] show ?case by simp
qed simp

lemma replies_in_append: "replies_in (vs @ ws) b = (case replies_in vs b of None \<Rightarrow> None | Some r \<Rightarrow> replies_in ws r)"
  by (induction vs arbitrary: b) (auto split: ParseStatus.splits)

text \<open>Delivery takes replies and pending calls off in step.\<close>

lemma deliver_parts:
  assumes "deliver ps rx = (fired, left, rest, malformed)"
  shows "\<exists>vs. fired = zip (map fst (take (length vs) ps)) (map rr_success vs)
    \<and> left = drop (length vs) ps \<and> length vs \<le> length ps \<and> replies_in vs rx = Some rest"
  using assms
proof (induction ps arbitrary: rx fired left rest malformed)
  case Nil
  then show ?case by (intro exI [of _ "[]"]) auto
next
  case (Cons p ps)
  show ?case
  proof (cases "parse_reply rx")
    case (Ok v used)
    with Cons.prems obtain fired' where d: "deliver ps (drop used rx) = (fired', left, rest, malformed)"
      and f: "fired = (fst p, rr_success v) # fired'"
      by (auto split: prod.splits)
    from Cons.IH [OF d] obtain vs where "fired' = zip (map fst (take (length vs) ps)) (map rr_success vs)"
      "left = drop (length vs) ps" "length vs \<le> length ps" "replies_in vs (drop used rx) = Some rest" by blast
    with Ok f show ?thesis by (intro exI [of _ "v # vs"]) simp
  qed (use Cons.prems in \<open>auto intro: exI [of _ "[]"]\<close>)
qed

text \<open>The calls of the current connection that are answered, and the rest that is pending.\<close>

definition matched :: "channel_trace \<Rightarrow> bool" where
  "matched t \<longleftrightarrow>
     (let p = ct_channel t; k = length (ct_replies t); ids = map fst (ct_carried t)
      in replies_in (ct_replies t) (ct_received t) = Some (pc_rx p) \<and>
         k \<le> length ids \<and> map fst (pc_pending p) = drop k ids \<and>
         (\<exists>earlier. ct_fired t = earlier @ zip (take k ids) (map rr_success (ct_replies t))))"

definition in_order :: "channel_trace \<Rightarrow> bool" where
  "in_order t \<longleftrightarrow> map fst (ct_fired t) @ map fst (pc_pending (ct_channel t)) = ct_calls t"

definition on_wire :: "channel_trace \<Rightarrow> bool" where
  "on_wire t \<longleftrightarrow> ct_sent t @ pc_queued (ct_channel t) = concat (map (command \<circ> snd) (ct_carried t))"

definition watched :: "millis \<Rightarrow> channel_trace \<Rightarrow> bool" where
  "watched timeout t \<longleftrightarrow>
     (let p = ct_channel t
      in pc_request_timeout p = timeout \<and> (pc_pending p \<noteq> [] \<longrightarrow> pc_timer_armed p) \<and>
         sorted (map snd (pc_pending p)) \<and>
         (\<forall>d \<in> snd ` set (pc_pending p). d \<le> ct_now t + ticks_of_millis timeout))"

definition channel_ok :: "millis \<Rightarrow> channel_trace \<Rightarrow> bool" where
  "channel_ok timeout t \<longleftrightarrow> matched t \<and> in_order t \<and> on_wire t \<and> watched timeout t"

lemmas channel_ok_defs = channel_ok_def matched_def in_order_def on_wire_def watched_def Let_def

text \<open>The three things a handler can do: reset the connection, go on with at most a write started,
  or deliver replies.\<close>

lemma advance_reset:
  assumes "channel_ok timeout t"
    and "fst r = map (\<lambda>(cb, d). (cb, rr_error st msg)) (pc_pending (ct_channel t))"
    and "pc_generation (snd r) \<noteq> pc_generation (ct_channel t)" "pc_state (snd r) = Disconnected"
    and "pc_pending (snd r) = []" "pc_queued (snd r) = []" "pc_rx (snd r) = []"
    and "pc_request_timeout (snd r) = pc_request_timeout (ct_channel t)"
  shows "channel_ok timeout (advance r t)"
proof -
  have "map fst (fst r) = map fst (pc_pending (ct_channel t))" by (simp add: assms(2) case_prod_beta comp_def)
  moreover have "map fst (ct_fired t) @ map fst (pc_pending (ct_channel t)) = ct_calls t"
    "pc_request_timeout (ct_channel t) = timeout"
    using assms(1) by (auto simp: channel_ok_defs)
  ultimately show ?thesis using assms(3-) by (simp add: channel_ok_defs advance_def)
qed

lemma advance_quiet:
  assumes "channel_ok timeout t" and "fst r = []"
    and "pc_generation (snd r) = pc_generation (ct_channel t) \<or> pc_state (snd r) \<noteq> Disconnected"
    and "pc_queued (snd r) = pc_queued (ct_channel t) \<or> pc_queued (snd r) = []"
    and "pc_pending (snd r) = pc_pending (ct_channel t)" "pc_rx (snd r) = pc_rx (ct_channel t)"
    and "pc_request_timeout (snd r) = pc_request_timeout (ct_channel t)"
    and "pc_pending (snd r) \<noteq> [] \<longrightarrow> pc_timer_armed (snd r)"
  shows "channel_ok timeout (advance r t)"
  using assms by (auto simp: channel_ok_defs advance_def)

lemma advance_deliver:
  assumes ok: "channel_ok timeout t" and d: "deliver (pc_pending (ct_channel t)) (pc_rx (ct_channel t) @ bytes) = (fired, left, rest, bad)"
  shows "channel_ok timeout (advance (fired, (ct_channel t)\<lparr>pc_pending := left, pc_rx := rest\<rparr>)
    (t\<lparr>ct_received := ct_received t @ bytes\<rparr>))"
proof -
  let ?p = "ct_channel t" and ?t = "t\<lparr>ct_received := ct_received t @ bytes\<rparr>"
  define k where "k = length (ct_replies t)"
  define ids where "ids = map fst (ct_carried t)"
  from deliver_parts [OF d] obtain vs where vs: "fired = zip (map fst (take (length vs) (pc_pending ?p))) (map rr_success vs)"
    "left = drop (length vs) (pc_pending ?p)" "length vs \<le> length (pc_pending ?p)"
    "replies_in vs (pc_rx ?p @ bytes) = Some rest" by blast
  have pend: "map fst (pc_pending ?p) = drop k ids" "k \<le> length ids"
    using ok by (auto simp: channel_ok_defs k_def ids_def)
  then have len: "length (pc_pending ?p) = length ids - k" by (metis length_drop length_map)
  have ids_vs: "map fst (take (length vs) (pc_pending ?p)) = take (length vs) (drop k ids)"
    by (simp add: take_map [symmetric] pend)
  have vals: "map (the \<circ> rr_value \<circ> snd) fired = vs"
    using vs(1,3) by (simp add: comp_def map_snd_zip [symmetric] flip: map_map)
       (rule nth_equalityI, auto)
  have fst_fired: "map fst fired = map fst (take (length vs) (pc_pending ?p))" using vs(1,3) by simp
  have rep: "replies_in (ct_replies t @ vs) (ct_received t @ bytes) = Some rest"
    using ok vs(4) replies_in_more [of "ct_replies t" "ct_received t" "pc_rx ?p" bytes]
    by (simp add: replies_in_append channel_ok_defs)
  have order: "map fst fired @ map fst left = map fst (pc_pending ?p)"
    unfolding fst_fired vs(2) by (metis append_take_drop_id map_append)
  have whole: "zip (take (k + length vs) ids) (map rr_success (ct_replies t @ vs)) =
      zip (take k ids) (map rr_success (ct_replies t)) @ fired"
    using pend vs(1,3) ids_vs by (simp add: take_add zip_append k_def)
  show ?thesis
    unfolding channel_ok_def
  proof (intro conjI)
    show "matched (advance (fired, ?p\<lparr>pc_pending := left, pc_rx := rest\<rparr>) ?t)"
    proof -
      obtain earlier where "ct_fired t = earlier @ zip (take k ids) (map rr_success (ct_replies t))"
        using ok by (auto simp: channel_ok_defs k_def ids_def)
      then have "ct_fired t @ fired = earlier @ zip (take (k + length vs) ids) (map rr_success (ct_replies t @ vs))"
        unfolding whole by simp
      moreover have "map fst left = drop (k + length vs) ids"
        by (simp add: vs(2) drop_map [symmetric] pend(1) add.commute)
      moreover have "k + length vs \<le> length ids" using vs(3) len pend(2) by simp
      ultimately show ?thesis
        using rep vals by (auto simp: matched_def Let_def advance_def k_def [symmetric] ids_def [symmetric])
    qed
    show "in_order (advance (fired, ?p\<lparr>pc_pending := left, pc_rx := rest\<rparr>) ?t)"
      using ok order by (auto simp: channel_ok_def in_order_def advance_def Let_def)
    show "on_wire (advance (fired, ?p\<lparr>pc_pending := left, pc_rx := rest\<rparr>) ?t)"
      using ok by (simp add: channel_ok_def on_wire_def advance_def Let_def)
    show "watched timeout (advance (fired, ?p\<lparr>pc_pending := left, pc_rx := rest\<rparr>) ?t)"
      using ok vs(2) by (auto simp: channel_ok_def watched_def advance_def Let_def drop_map [symmetric] dest: in_set_dropD)
  qed
qed

lemma enqueue_parts:
  fixes p cb now request
  defines "p' \<equiv> enqueue now request cb p"
  shows "pc_pending p' = pc_pending p @ [(cb, now + ticks_of_millis (pc_request_timeout p))]"
    "pc_rx p' = pc_rx p" "pc_timer_armed p'" "pc_request_timeout p' = pc_request_timeout p"
    "pc_queued p' = pc_queued p @ request \<or> pc_queued p' = []"
    "pc_generation p' = pc_generation p \<or> pc_state p' \<noteq> Disconnected"
  by (cases "pc_state p"; simp add: p'_def enqueue_def Let_def channel_connect_def channel_flush_def)+

lemma call_ok:
  assumes ok: "channel_ok timeout t" and "ct_now t \<le> now"
  shows "channel_ok timeout
    ((advance ([], channel_call now args cb (ct_channel t))
       (t\<lparr>ct_channel := (ct_channel t)\<lparr>pc_queued := pc_queued (ct_channel t) @ command args\<rparr>\<rparr>))
     \<lparr>ct_now := now, ct_calls := ct_calls t @ [cb], ct_carried := ct_carried t @ [(cb, args)]\<rparr>)"
    (is "channel_ok timeout ?t'")
proof -
  define p' where "p' = channel_call now args cb (ct_channel t)"
  note parts = enqueue_parts [where now = now and request = "command args" and cb = cb and p = "ct_channel t",
    folded channel_call_def p'_def]
  have t': "ct_channel ?t' = p'" "ct_fired ?t' = ct_fired t" "ct_replies ?t' = ct_replies t"
    "ct_received ?t' = ct_received t" "ct_now ?t' = now" "ct_calls ?t' = ct_calls t @ [cb]"
    "ct_carried ?t' = ct_carried t @ [(cb, args)]"
    "ct_sent ?t' @ pc_queued p' = ct_sent t @ pc_queued (ct_channel t) @ command args"
    using parts(5,6) by (auto simp: advance_def Let_def p'_def [symmetric])
  show ?thesis
    unfolding channel_ok_def
  proof (intro conjI)
    show "matched ?t'"
      using ok parts(1,2) unfolding matched_def Let_def t' by (auto simp: channel_ok_def matched_def Let_def)
    show "in_order ?t'"
      using ok parts(1) unfolding in_order_def t' by (auto simp: channel_ok_def in_order_def)
    show "on_wire ?t'"
      using ok unfolding on_wire_def t' by (simp add: channel_ok_def on_wire_def)
    show "watched timeout ?t'"
      using ok assms(2) parts(1,3,4) unfolding watched_def Let_def t'
      by (fastforce simp: channel_ok_def watched_def Let_def sorted_append)
  qed
qed

lemma fail_all_ok:
  assumes "channel_ok timeout t" and "p = ct_channel t \<or> p = (ct_channel t)\<lparr>pc_timer_armed := False\<rparr>
      \<or> p = (ct_channel t)\<lparr>pc_writing := False, pc_in_write := []\<rparr>"
  shows "channel_ok timeout (advance (fail_all st msg p) t)"
  using assms(2)
  by (intro advance_reset [OF assms(1), of _ st msg]) (auto simp: fail_all_def reset_connection_def)

lemma advance_twice:
  assumes "pc_generation p1 = pc_generation (ct_channel t)" and "pc_generation q \<noteq> pc_generation p1"
    and "pc_state q = Disconnected"
  shows "advance (f2, q) (advance (f1, p1) t) = advance (f1 @ f2, q) t"
  using assms by (simp add: advance_def Let_def)

lemma received_ok:
  assumes ok: "channel_ok timeout t" and gen: "gen = pc_generation (ct_channel t)"
  shows "channel_ok timeout (advance (on_received gen (Inr bytes) (ct_channel t))
      (t\<lparr>ct_received := ct_received t @ bytes\<rparr>))"
proof -
  let ?t = "t\<lparr>ct_received := ct_received t @ bytes\<rparr>"
  obtain fired left rest bad
    where d: "deliver (pc_pending (ct_channel t)) (pc_rx (ct_channel t) @ bytes) = (fired, left, rest, bad)"
    by (metis prod_cases4)
  define p1 where "p1 = (ct_channel t)\<lparr>pc_pending := left, pc_rx := rest\<rparr>"
  have ok1: "channel_ok timeout (advance (fired, p1) ?t)" using advance_deliver [OF ok d] by (simp add: p1_def)
  show ?thesis
  proof (cases bad)
    case False
    then show ?thesis using ok1 gen d by (simp add: on_received_def p1_def)
  next
    case True
    define r where "r = fail_all StProtocolError ''Malformed RESP reply'' p1"
    have "ct_channel (advance (fired, p1) ?t) = p1" by (simp add: advance_def Let_def)
    then have "channel_ok timeout (advance r (advance (fired, p1) ?t))"
      using fail_all_ok [OF ok1] by (simp add: r_def)
    moreover have "advance r (advance (fired, p1) ?t) = advance (fired @ fst r, snd r) ?t"
      using advance_twice [of p1 ?t "snd r" "fst r" fired]
      by (simp add: r_def p1_def fail_all_def reset_connection_def)
    moreover have "on_received gen (Inr bytes) (ct_channel t) = (fired @ fst r, snd r)"
      using True gen d by (simp add: on_received_def p1_def r_def case_prod_beta Let_def)
    ultimately show ?thesis by simp
  qed
qed

lemma advance_now [simp]: "ct_now (advance r t) = ct_now t"
  by (simp add: advance_def Let_def)

lemma later_ok:
  assumes "channel_ok timeout t" and "ct_now t \<le> now"
  shows "channel_ok timeout (t\<lparr>ct_now := now\<rparr>)"
proof -
  have "d \<le> now + ticks_of_millis timeout" if "d \<le> ct_now t + ticks_of_millis timeout" for d
    using that assms(2) by simp
  with assms(1) show ?thesis
    by (auto simp: channel_ok_def matched_def in_order_def on_wire_def watched_def Let_def)
qed

text \<open>Calls are only pending while the timer runs.\<close>

lemma pending_armed:
  "channel_ok timeout t \<Longrightarrow> pc_pending (ct_channel t) \<noteq> [] \<longrightarrow> pc_timer_armed (ct_channel t)"
  by (simp add: channel_ok_def watched_def Let_def)

lemma channel_step_ok:
  assumes "channel_step t t'" and ok: "channel_ok timeout t"
  shows "channel_ok timeout t'"
  using assms(1)
proof cases
  case (call now args cb)
  then show ?thesis using call_ok [OF ok] by simp
next
  case close
  then show ?thesis using fail_all_ok [OF ok] by (simp add: channel_close_def)
next
  case (resolved gen ec)
  with pending_armed [OF ok] show ?thesis using fail_all_ok [OF ok]
    by (auto simp: on_resolved_def intro!: advance_quiet [OF ok] split: option.split)
next
  case (connected gen ec)
  with pending_armed [OF ok] show ?thesis using fail_all_ok [OF ok]
    by (auto simp: on_connected_def channel_flush_def intro!: advance_quiet [OF ok] split: option.split)
next
  case (sent gen ec)
  with pending_armed [OF ok] show ?thesis using fail_all_ok [OF ok]
    by (auto simp: on_sent_def channel_flush_def Let_def intro!: advance_quiet [OF ok] split: option.split)
next
  case (read_failed gen msg)
  with pending_armed [OF ok] show ?thesis using fail_all_ok [OF ok]
    by (auto simp: on_received_def intro!: advance_quiet [OF ok])
next
  case (received gen bytes)
  then show ?thesis using received_ok [OF ok] by simp
next
  case (stale_read gen bytes)
  with pending_armed [OF ok] show ?thesis by (auto simp: on_received_def intro!: advance_quiet [OF ok])
next
  case (timer now)
  have "channel_ok timeout (advance (on_timer now (ct_channel t)) t)"
  proof (cases "pc_pending (ct_channel t)")
    case Nil
    then show ?thesis by (auto simp: on_timer_def Let_def intro!: advance_quiet [OF ok])
  next
    case (Cons p ps)
    then show ?thesis using fail_all_ok [OF ok]
      by (cases p) (auto simp: on_timer_def Let_def intro!: advance_quiet [OF ok])
  qed
  from later_ok [OF this] timer show ?thesis by simp
qed

lemma channel_run_ok: "channel_run timeout start t \<Longrightarrow> channel_ok timeout t"
proof (induction rule: channel_run.induct)
  case start
  then show ?case by (simp add: channel_ok_defs new_trace_def new_channel_def)
qed (rule channel_step_ok)

section \<open>Properties\<close>

lemma replies_in_order:
  assumes "\<forall>w \<in> set ws. encodable w"
  shows "replies_in vs b = Some r \<Longrightarrow> b @ u = concat (map reply_bytes ws) \<Longrightarrow>
    length vs \<le> length ws \<and> vs = take (length vs) ws"
  using assms
proof (induction vs arbitrary: b ws)
  case (Cons v vs)
  then obtain n where p: "parse_reply b = Ok v n" "replies_in vs (drop n b) = Some r"
    by (auto split: ParseStatus.splits if_splits)
  show ?case
  proof (cases ws)
    case Nil
    with Cons.prems(2) p(1) show ?thesis by (simp add: parse_reply.simps)
  next
    case (Cons w ws')
    have w: "encodable w" "b @ u = reply_bytes w @ concat (map reply_bytes ws')"
      using Cons.prems Cons by auto
    then have "b = take (length b) (reply_bytes w @ concat (map reply_bytes ws'))" by (metis append_eq_conv_conj)
    then have "parse_reply b = (if length b < length (reply_bytes w) then Incomplete else Ok w (length (reply_bytes w)))"
      using encodable_framed [OF w(1)] unfolding framed_def by metis
    with p(1) have v: "v = w" "n = length (reply_bytes w)" "n \<le> length b" by (auto split: if_splits)
    then have "drop n b @ u = concat (map reply_bytes ws')"
      using w(2) by (metis append_eq_append_conv_if append_eq_conv_conj drop_append diff_is_0_eq drop0)
    with Cons.IH [OF p(2)] Cons.prems(3) Cons v(1) show ?thesis by auto
  qed
qed simp


text \<open>C33: No call is forgotten. The callbacks that ran and the calls still pending are together all
  calls, in the order of the calls, so each callback runs at most once; while a call is pending the
  timer is armed; and when the timer fires at or after the deadline of any pending call, every pending
  call is answered.\<close>

theorem no_call_is_forgotten:
  assumes "channel_run timeout start t"
  shows "map fst (ct_fired t) @ map fst (pc_pending (ct_channel t)) = ct_calls t
    \<and> (pc_pending (ct_channel t) \<noteq> [] \<longrightarrow> pc_timer_armed (ct_channel t))
    \<and> (\<forall>cb d now. (cb, d) \<in> set (pc_pending (ct_channel t)) \<and> d \<le> now \<longrightarrow>
        map fst (fst (on_timer now (ct_channel t))) = map fst (pc_pending (ct_channel t))
        \<and> pc_pending (snd (on_timer now (ct_channel t))) = [])"
proof -
  have ok: "channel_ok timeout t" using assms by (rule channel_run_ok)
  have sorted: "sorted (map snd (pc_pending (ct_channel t)))"
    using ok by (simp add: channel_ok_def watched_def Let_def)
  have "map fst (fst (on_timer now (ct_channel t))) = map fst (pc_pending (ct_channel t))
      \<and> pc_pending (snd (on_timer now (ct_channel t))) = []"
    if "(cb, d) \<in> set (pc_pending (ct_channel t))" "d \<le> now" for cb d now
  proof (cases "pc_pending (ct_channel t)")
    case (Cons p ps)
    have "snd p \<le> d" using sorted that(1) unfolding Cons by force
    with that(2) Cons show ?thesis
      by (cases p) (auto simp: on_timer_def Let_def fail_all_def case_prod_beta comp_def)
  qed (use that in simp)
  with ok pending_armed [OF ok] show ?thesis by (auto simp: channel_ok_def in_order_def)
qed

section \<open>A channel that carries one PING\<close>

definition called :: channel_trace where
  "called =
     (new_trace 1000 0)
       \<lparr>ct_channel := channel_call 0 [''PING''] 7 (new_channel 1000), ct_calls := [7], ct_carried := [(7, [''PING''])]\<rparr>"

definition linked :: channel_trace where
  "linked = advance (on_connected 1 None (ct_channel called)) called"

definition answered_ping :: channel_trace where
  "answered_ping =
     advance (on_received 1 (Inr (''+PONG'' @ crlf)) (ct_channel linked)) (linked\<lparr>ct_received := ''+PONG'' @ crlf\<rparr>)"

lemma called_channel:
  "ct_channel called =
     \<lparr>pc_request_timeout = 1000, pc_state = Connecting, pc_generation = 1, pc_writing = False,
      pc_timer_armed = True, pc_queued = command [''PING''], pc_in_write = [],
      pc_pending = [(7, ticks_of_millis 1000)], pc_rx = []\<rparr>"
  by (simp add: called_def channel_call_def enqueue_def new_channel_def channel_connect_def)

lemma command_not_Nil: "command args \<noteq> []"
  by (simp add: command_alt)

lemma linked_parts:
  "ct_channel linked =
     \<lparr>pc_request_timeout = 1000, pc_state = Connected, pc_generation = 1, pc_writing = True,
      pc_timer_armed = True, pc_queued = [], pc_in_write = command [''PING''],
      pc_pending = [(7, ticks_of_millis 1000)], pc_rx = []\<rparr>"
  "ct_received linked = []" "ct_carried linked = [(7, [''PING''])]" "ct_calls linked = [7]" "ct_fired linked = []"
  by (simp_all add: linked_def on_connected_def called_channel channel_flush_def command_not_Nil advance_def Let_def)
     (simp_all add: called_def new_trace_def)

lemma ping_runs: "channel_run 1000 0 linked" "channel_run 1000 0 answered_ping"
proof -
  have c: "channel_run 1000 0 called"
  proof (rule channel_run.step [OF channel_run.start])
    show "channel_step (new_trace 1000 0) called"
      using channel_step.call [where t = "new_trace 1000 0" and now = 0 and args = "[''PING'']" and cb = 7]
      by (simp add: called_def new_trace_def advance_def new_channel_def channel_call_def enqueue_def channel_connect_def)
  qed
  show l: "channel_run 1000 0 linked"
    unfolding linked_def by (rule channel_run.step [OF c channel_step.connected])
  show "channel_run 1000 0 answered_ping"
    using channel_run.step [OF l channel_step.received [of 1 linked "''+PONG'' @ crlf"]]
    by (simp add: answered_ping_def linked_parts)
qed

lemma answered_ping_parts:
  "ct_received answered_ping = ''+PONG'' @ crlf" "ct_carried answered_ping = [(7, [''PING''])]"
  "ct_fired answered_ping = [(7, rr_success (SimpleString ''PONG''))]"
proof -
  have "parse_reply (''+PONG'' @ crlf) = Ok (SimpleString ''PONG'') 7"
    using parse_reply_bytes [of "SimpleString ''PONG''" "[]"] by (simp add: append_simple_def)
  then have "on_received 1 (Inr (''+PONG'' @ crlf)) (ct_channel linked) =
      ([(7, rr_success (SimpleString ''PONG''))], (ct_channel linked)\<lparr>pc_pending := []\<rparr>)"
    by (simp add: on_received_def linked_parts)
  then show "ct_received answered_ping = ''+PONG'' @ crlf" "ct_carried answered_ping = [(7, [''PING''])]"
    "ct_fired answered_ping = [(7, rr_success (SimpleString ''PONG''))]"
    by (simp_all add: answered_ping_def advance_def Let_def linked_parts)
qed


theorem no_call_is_forgotten_witness:
  "pc_timer_armed (ct_channel linked) \<and> pc_pending (snd (on_timer (ticks_of_millis 1000) (ct_channel linked))) = []"
  using no_call_is_forgotten [OF ping_runs(1)] by (simp add: linked_parts)

end
