(* ===== verification/Remote_Calls.thy ===== *)
theory Remote_Calls
  imports Session Peer_Channel
begin

text \<open>
  Calls between nodes end to end: the caller's encoding (src/network/client.cpp, src/cluster.cpp), the
  packets of the request, the callee's session, parser and dispatcher (src/network/session.cpp,
  src/protocol/parser.cpp, src/network/command_handler.cpp), the packets of the reply and the
  caller's decoding. Each call has the same effect and result as the operation called directly on the
  other node.
\<close>

section \<open>A session that is sent one request\<close>

definition idle :: "ClientSession \<Rightarrow> bool" where
  "idle s \<longleftrightarrow> sn_pending s = Reading \<and> sn_output s = [] \<and> \<not> sn_closing s \<and> \<not> sn_awaiting_rpc s"

fun feed :: "(nat \<Rightarrow> turn) \<Rightarrow> string list \<Rightarrow> ClientSession \<Rightarrow> CommandHandler \<Rightarrow> ClientSession \<times> CommandHandler" where
  "feed turns [] s h = (s, h)"
| "feed turns (chunk # chunks) s h =
     (case on_read turns (Some chunk) s h of (s, h) \<Rightarrow> feed turns chunks s h)"

lemma read_incomplete:
  assumes "idle s" and "parse_request (sn_input s @ chunk) = Incomplete"
  shows "on_read turns (Some chunk) s h = (s\<lparr>sn_input := sn_input s @ chunk\<rparr>, h)"
proof -
  have "process_loop turns 0 0 (s\<lparr>sn_input := sn_input s @ chunk\<rparr>) h = (None, 0, s\<lparr>sn_input := sn_input s @ chunk\<rparr>, h)"
    using assms by (subst process_loop.simps) simp
  then show ?thesis
    using assms(1) by (cases s) (simp add: on_read_def process_input_def flush_def idle_def)
qed

lemma read_complete:
  assumes s: "idle s" and p: "parse_request (sn_input s @ chunk) = Ok args (length (sn_input s @ chunk))" and a: "args \<noteq> []"
    and r: "\<And>c. runs_locally (parse args) c" and q: "cmd_type (parse args) \<noteq> CmdQuit"
    and h1_def: "h1 = t_others (turns 0) h"
  shows "on_read turns (Some chunk) s h =
    (s\<lparr>sn_input := [], sn_writing := fst (execute (t_env (turns 0)) (parse args) [] h1), sn_pending := Writing\<rparr>,
     snd (execute (t_env (turns 0)) (parse args) [] h1))"
proof -
  let ?s = "s\<lparr>sn_input := sn_input s @ chunk\<rparr>"
  obtain out h2 where ex: "execute (t_env (turns 0)) (parse args) [] h1 = (out, h2)" by fastforce
  obtain v where v: "out = reply_bytes v"
    using dispatch_answers [of "[]" "t_env (turns 0)" "parse args" "h_cluster h1"] ex
    by (auto simp: answered_def execute_def Let_def split: prod.splits)
  have ne: "sn_input s @ chunk \<noteq> []" using request_Ok [OF p, of "[]"] by auto
  have "process_loop turns 0 0 ?s h = process_loop turns 1 (length (sn_input s @ chunk)) (?s\<lparr>sn_output := out\<rparr>) h2"
    using s p a r q ex ne by (subst process_loop.simps) (simp add: idle_def kMaxPendingOutput_def h1_def)
  also have "\<dots> = (None, length (sn_input s @ chunk), ?s\<lparr>sn_output := out\<rparr>, h2)"
    by (subst process_loop.simps) simp
  finally show ?thesis
    using s ex v reply_first(1) [of v] by (simp add: on_read_def process_input_def idle_def flush_def)
qed

lemma feed_request:
  assumes args: "length args \<le> kMaxArrayLength" "\<forall>a \<in> set args. length a \<le> kMaxBulkLength" "args \<noteq> []"
    and r: "\<And>c. runs_locally (parse args) c" and q: "cmd_type (parse args) \<noteq> CmdQuit"
    and h1_def: "h1 = t_others (turns 0) h"
  shows "idle s \<Longrightarrow> sn_input s @ concat chunks = command args \<Longrightarrow> length (sn_input s) < length (command args) \<Longrightarrow>
    [] \<notin> set chunks \<Longrightarrow>
    feed turns chunks s h =
      (s\<lparr>sn_input := [], sn_writing := fst (execute (t_env (turns 0)) (parse args) [] h1), sn_pending := Writing\<rparr>,
       snd (execute (t_env (turns 0)) (parse args) [] h1))"
proof (induction chunks arbitrary: s)
  case Nil
  then show ?case by simp
next
  case (Cons chunk chunks)
  let ?i = "sn_input s @ chunk"
  have i: "?i @ concat chunks = command args" using Cons.prems(2) by simp
  then have "?i = take (length ?i) (command args @ [])" by (metis append_Nil2 append_eq_conv_conj)
  then have p: "parse_request ?i = (if length ?i < length (command args) then Incomplete else Ok args (length (command args)))"
    using command_framed [OF args(1,2), of "length ?i" "[]"] by metis
  show ?case
  proof (cases "length ?i < length (command args)")
    case True
    with p have "on_read turns (Some chunk) s h = (s\<lparr>sn_input := ?i\<rparr>, h)"
      by (intro read_incomplete Cons.prems) simp
    moreover have "idle (s\<lparr>sn_input := ?i\<rparr>)" using Cons.prems(1) by (simp add: idle_def)
    ultimately show ?thesis
      using Cons.IH [of "s\<lparr>sn_input := ?i\<rparr>"] i True Cons.prems(4) by simp
  next
    case False
    have "length ?i + length (concat chunks) = length (command args)"
      using arg_cong [OF i, of length] by simp
    with False have "length ?i = length (command args) \<and> length (concat chunks) = 0" by linarith
    then have len: "length ?i = length (command args)" "concat chunks = []" by simp_all
    from len(2) Cons.prems(4) have "chunks = []" by (cases chunks) auto
    moreover have "on_read turns (Some chunk) s h =
        (s\<lparr>sn_input := [], sn_writing := fst (execute (t_env (turns 0)) (parse args) [] h1), sn_pending := Writing\<rparr>,
         snd (execute (t_env (turns 0)) (parse args) [] h1))"
      using Cons.prems(1) p len(1) args(3) r q h1_def by (intro read_complete) simp_all
    ultimately show ?thesis by simp
  qed
qed

section \<open>Replication calls\<close>

lemma execute_result:
  assumes "dispatch he cmd [] (h_cluster h) = (reply_bytes v, c)"
  shows "fst (execute he cmd [] h) = reply_bytes v" "h_cluster (snd (execute he cmd [] h)) = c"
  using execute_parts [of he cmd "[]" h v c] assms by (simp_all add: Let_def)

text \<open>The value as the replica gets it: a tombstone without value, otherwise a time to live of at
  least a millisecond.\<close>

definition arriving :: "VersionedValue \<Rightarrow> VersionedValue" where
  "arriving v = (if vv_tombstone v then v\<lparr>vv_value := [], vv_ttl := None\<rparr> else clamp_ttl v)"

lemma to_ttl_clamped:
  assumes "\<forall>t. ttl = Some t \<longrightarrow> t \<le> 315360000000"
  shows "to_ttl (map_option (\<lambda>t. word_of_int (max 1 t)) ttl) = map_option (max 1) ttl"
proof (cases ttl)
  case (Some t)
  then have "max 1 t \<le> 315360000000" using assms by auto
  then have "sint (word_of_int (max 1 t) :: u64) = max 1 t"
    using int_word_sint [where 'a = 64, of "max 1 t"] by simp
  with Some show ?thesis by (simp add: to_ttl_def)
qed (simp add: to_ttl_def)

lemma dispatch_received:
  assumes "\<forall>t. vv_ttl v = Some t \<longrightarrow> t \<le> 315360000000"
  shows "dispatch he (received_command key v) [] c =
    (case apply_replica_write (e_write_now (he_calls he 0)) key (arriving v) c of
       (live, c') \<Rightarrow> (reply_bytes (RespInteger (if live then 1 else 0)), c'))"
proof (cases "vv_tombstone v")
  case True
  then show ?thesis
    by (cases v) (simp add: received_command_def dispatch_def new_command_def arriving_def)
next
  case False
  then show ?thesis
    using to_ttl_clamped [OF assms]
    by (cases v) (simp add: received_command_def dispatch_def new_command_def arriving_def clamp_ttl_def)
qed

lemma replica_write_args:
  "length (replica_write_command key v) \<le> kMaxArrayLength" "replica_write_command key v \<noteq> []"
  by (auto simp: replica_write_command_def kMaxArrayLength_def split: option.split)

lemma received_local:
  "runs_locally (received_command key v) c" "cmd_type (received_command key v) \<noteq> CmdQuit"
  by (simp_all add: received_command_def runs_locally_def)

lemma client_gets:
  assumes "encodable v" and "concat chunks = reply_bytes v"
    and "peer (command args) = (None, map Received chunks @ evs)"
  shows "fst (client_command peer args \<lparr>cl_connected = True, cl_rx = []\<rparr>) = rr_success v"
proof -
  have "reply_bytes v \<noteq> []" by (rule reply_first)
  with read_more_chunks [OF assms(1), of "\<lparr>cl_connected = True, cl_rx = []\<rparr>" chunks "[]" evs] assms(2,3)
  show ?thesis by (auto simp: client_command_def)
qed

text \<open>C8: A replica write over the network is the write itself. However the request and the reply
  are cut into packets, when an idle session of the replica has read the request, the replica's
  cluster has applied exactly the write that was sent, and the caller gets back whether the key was
  live there. Only a tombstone's value and time to live are dropped, and a time to live below a
  millisecond becomes one.\<close>

theorem replica_write_end_to_end:
  assumes "\<forall>t. vv_ttl v = Some t \<longrightarrow> t \<le> 315360000000"
    and "\<forall>a \<in> set (replica_write_command key v). length a \<le> kMaxBulkLength"
    and "idle s" and "sn_input s = []"
    and "concat packets = command (replica_write_command key v)" and "[] \<notin> set packets"
    and "feed turns packets s h = (s', h')"
    and "concat chunks = sn_writing s'"
    and "peer (command (replica_write_command key v)) = (None, map Received chunks @ evs)"
  shows "\<exists>live. fst (replica_write peer key v \<lparr>cl_connected = True, cl_rx = []\<rparr>) = rr_success live
    \<and> apply_replica_write (e_write_now (he_calls (t_env (turns 0)) 0)) key (arriving v) (h_cluster (t_others (turns 0) h)) =
        (live, h_cluster h')"
proof -
  let ?args = "replica_write_command key v" and ?h1 = "t_others (turns 0) h"
  have p: "parse ?args = received_command key v" using assms(1) by (intro parse_replica_write_command) blast
  have ne: "length (sn_input s) < length (command ?args)" by (simp add: assms(4) command_alt)
  have f: "feed turns packets s h =
      (s\<lparr>sn_input := [], sn_writing := fst (execute (t_env (turns 0)) (parse ?args) [] ?h1), sn_pending := Writing\<rparr>,
       snd (execute (t_env (turns 0)) (parse ?args) [] ?h1))"
    using assms(3-6) ne
    by (intro feed_request [OF replica_write_args(1) assms(2) replica_write_args(2) _ _ refl])
       (simp_all add: p received_local)
  obtain live c where a: "apply_replica_write (e_write_now (he_calls (t_env (turns 0)) 0)) key (arriving v) (h_cluster ?h1) = (live, c)"
    by fastforce
  let ?v = "RespInteger (if live then 1 else 0)"
  have "dispatch (t_env (turns 0)) (parse ?args) [] (h_cluster ?h1) = (reply_bytes ?v, c)"
    using dispatch_received [OF assms(1), of "t_env (turns 0)" key "h_cluster ?h1"] a by (simp add: p)
  from execute_result [OF this] f assms(7) have w: "sn_writing s' = reply_bytes ?v" "h_cluster h' = c" by auto
  have "fst (client_command peer ?args \<lparr>cl_connected = True, cl_rx = []\<rparr>) = rr_success ?v"
    using assms(8,9) w(1) by (intro client_gets) auto
  then have "fst (replica_write peer key v \<lparr>cl_connected = True, cl_rx = []\<rparr>) = rr_success live"
    by (simp add: replica_write_def case_prod_beta decode_replica_write_def)
  with a w(2) show ?thesis by blast
qed

text \<open>A replica read over the network returns what the replica holds. However request and reply
  are cut into packets, the caller gets the value, version and tombstone flag that the replica's read
  of its own store returns, or not-found when it holds nothing, for values that fit a bulk string and
  times to live within 64 bits.\<close>

theorem replica_read_end_to_end:
  assumes "length key \<le> kMaxBulkLength" and "idle s" and "sn_input s = []"
    and "concat packets = command (replica_get_command key)" and "[] \<notin> set packets"
    and "feed turns packets s h = (s', h')"
    and "concat chunks = sn_writing s'"
    and "peer (command (replica_get_command key)) = (None, map Received chunks @ evs)"
    and "replica_read (e_now (he_calls (t_env (turns 0)) 0)) key (h_cluster (t_others (turns 0) h)) = (u, c')"
    and "\<forall>x. u = Some x \<longrightarrow> length (vv_value x) \<le> kMaxBulkLength \<and> (\<forall>t. vv_ttl x = Some t \<longrightarrow> t < 2 ^ 63)"
  shows "fst (replica_get peer key \<lparr>cl_connected = True, cl_rx = []\<rparr>) =
      (case u of None \<Rightarrow> rr_not_found | Some x \<Rightarrow> rr_success (clamp_ttl x))
    \<and> h_cluster h' = c'"
proof -
  let ?args = "replica_get_command key" and ?h1 = "t_others (turns 0) h"
  have p: "parse ?args = new_command\<lparr>cmd_type := CmdReplGet, cmd_key := key\<rparr>"
    unfolding replica_get_command_def parse_def Let_def by (simp add: cons_args verbs)
  have args: "length ?args \<le> kMaxArrayLength" "\<forall>a \<in> set ?args. length a \<le> kMaxBulkLength" "?args \<noteq> []"
    using assms(1) by (simp_all add: replica_get_command_def kMaxArrayLength_def kMaxBulkLength_def)
  have ne: "length (sn_input s) < length (command ?args)" by (simp add: assms(3) command_alt)
  have f: "feed turns packets s h =
      (s\<lparr>sn_input := [], sn_writing := fst (execute (t_env (turns 0)) (parse ?args) [] ?h1), sn_pending := Writing\<rparr>,
       snd (execute (t_env (turns 0)) (parse ?args) [] ?h1))"
    using assms(2-5) ne by (intro feed_request [OF args _ _ refl]) (simp_all add: p runs_locally_def)
  have "dispatch (t_env (turns 0)) (parse ?args) [] (h_cluster ?h1) = (reply_bytes (repl_get_reply u), c')"
    using assms(9) by (simp add: p dispatch_def append_repl_get_reply)
  from execute_result [OF this] f assms(6) have w: "sn_writing s' = reply_bytes (repl_get_reply u)" "h_cluster h' = c'" by auto
  have enc: "encodable (repl_get_reply u)"
  proof (cases u)
    case (Some x)
    have "- (2 ^ 63) \<le> sint (vv_version x)" "sint (vv_version x) < 2 ^ 63"
      using sint_ge [of "vv_version x"] sint_lt [of "vv_version x"] by simp_all
    with Some assms(10) show ?thesis
      by (auto simp: repl_get_reply_def kMaxArrayLength_def split: option.split)
  qed (simp add: repl_get_reply_def)
  have "fst (client_command peer ?args \<lparr>cl_connected = True, cl_rx = []\<rparr>) = rr_success (repl_get_reply u)"
    using assms(7,8) w(1) by (intro client_gets [OF enc]) auto
  with w(2) show ?thesis
    by (simp add: replica_get_def case_prod_beta decode_repl_get_reply split: option.split)
qed

section \<open>Gossip\<close>

lemma parse_gossip: "parse (gossip_args a) = new_command\<lparr>cmd_type := CmdClusterGossip, cmd_keys := concat (map member_args (members a))\<rparr>"
proof -
  have v: "to_upper ''CLUSTER'' = ''CLUSTER''" "to_upper ''GOSSIP'' = ''GOSSIP''" by code_simp+
  show ?thesis
    unfolding gossip_args_def parse_def Let_def by (simp add: cons_args v length_member_args)
qed

lemma exchange_view: "exchange_gossip (Some (rr_success (view_reply view))) a = (True, snd (merge_gossip view a))"
  by (simp add: exchange_gossip_def view_reply_def comp_def parse_member_args)

text \<open>C25: Gossip messages carry the exchange of views: the message a node sends makes the other node merge
  exactly the sender's members, its reply is exactly the merged view, and the sender
  merges that view.\<close>

theorem gossip_end_to_end:
  "let (view, b') = merge_gossip (members a) b
   in dispatch he (parse (gossip_args a)) [] b = (reply_bytes (view_reply view), b')
      \<and> exchange_gossip (Some (rr_success (view_reply view))) a = (True, snd (merge_gossip view a))"
  by (simp add: parse_gossip dispatch_def parse_member_args append_view_reply exchange_view new_command_def
      split: prod.split)

section \<open>Examples\<close>

text \<open>A peer that runs the session of a node alone in its ring.\<close>

definition served :: "string \<Rightarrow> ClientSession \<times> CommandHandler" where
  "served bytes = feed quiet [take 9 bytes, drop 9 bytes] new_session (new_command_handler loner)"

definition loner_peer :: peer where
  "loner_peer bytes = (None, map Received [sn_writing (fst (served bytes))])"

lemma command_longer: "args \<noteq> [] \<Longrightarrow> 9 < length (command args)"
proof -
  assume "args \<noteq> []"
  then obtain a as where a: "args = a # as" by (cases args) auto
  have "1 \<le> length (nat_to_string n)" for n by (cases "nat_to_string n") (auto simp: nat_to_string_not_Nil)
  from this [of "length args"] this [of "length a"] show ?thesis
    by (simp add: command_alt bulk_alt a)
qed

theorem replica_write_end_to_end_witness:
  "\<exists>live. fst (replica_write loner_peer ''k'' one_value \<lparr>cl_connected = True, cl_rx = []\<rparr>) = rr_success live
    \<and> apply_replica_write 0 ''k'' (arriving one_value) loner =
        (live, h_cluster (snd (served (command (replica_write_command ''k'' one_value)))))"
proof -
  let ?c = "command (replica_write_command ''k'' one_value)"
  have "9 < length ?c" by (rule command_longer) (simp add: replica_write_args)
  then have "concat [take 9 ?c, drop 9 ?c] = ?c" "[] \<notin> set [take 9 ?c, drop 9 ?c]" by auto
  moreover have "\<forall>a \<in> set (replica_write_command ''k'' one_value). length a \<le> kMaxBulkLength"
    by (simp add: replica_write_command_def one_value_def nat_to_string.simps kMaxBulkLength_def)
  moreover have "idle new_session" "sn_input new_session = []" by (simp_all add: idle_def new_session_def)
  moreover have "feed quiet [take 9 ?c, drop 9 ?c] new_session (new_command_handler loner) = (fst (served ?c), snd (served ?c))"
    by (simp add: served_def)
  moreover have "concat [sn_writing (fst (served ?c))] = sn_writing (fst (served ?c))" by simp
  moreover have "loner_peer ?c = (None, map Received [sn_writing (fst (served ?c))] @ [])" by (simp add: loner_peer_def)
  moreover have "\<forall>t. vv_ttl one_value = Some t \<longrightarrow> t \<le> 315360000000" by (simp add: one_value_def)
  ultimately show ?thesis
    using replica_write_end_to_end [of one_value "''k''" new_session "[take 9 ?c, drop 9 ?c]" quiet
        "new_command_handler loner" "fst (served ?c)" "snd (served ?c)" "[sn_writing (fst (served ?c))]" loner_peer "[]"]
    by (simp add: quiet_def plain_env_def one_reply_def new_command_handler_def)
qed

theorem replica_read_end_to_end_witness:
  "fst (replica_get loner_peer ''k'' \<lparr>cl_connected = True, cl_rx = []\<rparr>) = rr_not_found"
proof -
  let ?c = "command (replica_get_command ''k'')"
  have "9 < length ?c" by (rule command_longer) (simp add: replica_get_command_def)
  then have "concat [take 9 ?c, drop 9 ?c] = ?c" "[] \<notin> set [take 9 ?c, drop 9 ?c]" by auto
  moreover have "idle new_session" "sn_input new_session = []" by (simp_all add: idle_def new_session_def)
  moreover have "feed quiet [take 9 ?c, drop 9 ?c] new_session (new_command_handler loner) = (fst (served ?c), snd (served ?c))"
    by (simp add: served_def)
  moreover have "concat [sn_writing (fst (served ?c))] = sn_writing (fst (served ?c))" by simp
  moreover have "loner_peer ?c = (None, map Received [sn_writing (fst (served ?c))] @ [])" by (simp add: loner_peer_def)
  moreover have "length ''k'' \<le> kMaxBulkLength" by (simp add: kMaxBulkLength_def)
  moreover have "replica_read (e_now (he_calls (t_env (quiet 0)) 0)) ''k'' (h_cluster (t_others (quiet 0) (new_command_handler loner))) =
      (None, snd (replica_read 0 ''k'' loner))"
  proof -
    have cache: "cu_local_cache loner = new_sharded_cache 100000 16 60000"
      by (simp add: loner_def Let_def new_cluster_def init_common_def publish_routing_def default_config_def)
    have "store_wf loner" "exhibits 0 ''k'' loner = None"
      by (simp_all add: store_wf_def exhibits_def cache new_sharded_wf new_sharded_parts visible_def)
    with local_get_exhibits(1) [of loner 0 "''k''"] show ?thesis
      by (simp add: quiet_def plain_env_def one_reply_def new_command_handler_def replica_read_def prod_eq_iff)
  qed
  ultimately show ?thesis
    using replica_read_end_to_end [of "''k''" new_session "[take 9 ?c, drop 9 ?c]" quiet
        "new_command_handler loner" "fst (served ?c)" "snd (served ?c)" "[sn_writing (fst (served ?c))]" loner_peer "[]"
        None "snd (replica_read 0 ''k'' loner)"]
    by (simp del: concat.simps take_append drop_append)
qed

end
