(* ===== verification/Background.thy ===== *)
theory Background
  imports Prelude
begin

text \<open>
  The background threads and how they are started and stopped: the purge thread of the cache
  (src/src/ttl_manager.cpp), the health checker's thread (health_checker.cpp) and the hint, gossip
  and rebalance threads of the cluster (cluster.cpp). All have the same shape: a loop that waits on a
  condition variable until a timeout, a request or the end, and a \<open>stop\<close> that clears the flag
  \<open>running_\<close>, passes through every wake mutex, notifies and joins. What the threads call is
  modelled in other theories; here a call is a single step of the loop.
\<close>

section \<open>Threads\<close>

text \<open>One instruction per access to shared state. \<open>Leave_if_stopped\<close> is the loop condition
  and the \<open>break\<close>; leaving releases a lock that is held.\<close>

datatype instr =
    Leave_if_stopped
  | Lock_mutex
  | Unlock_mutex
  | Wait_stopped
  | Wait_requested
  | Clear_request
  | Call

text \<open>A thread in a wait has evaluated the predicate and is about to block, is blocked with its mutex
  released, or was woken (by a timeout or not) and has to take the mutex again.\<close>

datatype phase = Executing | Deciding | Blocked | Woken bool | Exited

record worker =
  w_code :: "instr list"
  w_pc :: nat
  w_phase :: phase
  w_holds :: bool

definition new_worker :: "instr list \<Rightarrow> worker" where
  "new_worker code = \<lparr>w_code = code, w_pc = 0, w_phase = Executing, w_holds = False\<rparr>"

definition advance :: "worker \<Rightarrow> worker" where
  "advance w = w\<lparr>w_pc := (if w_pc w + 1 = length (w_code w) then 0 else w_pc w + 1), w_phase := Executing\<rparr>"

definition execute_instr :: "bool \<Rightarrow> bool \<Rightarrow> worker \<Rightarrow> worker \<times> bool" where
  "execute_instr running requested w =
     (case w_code w ! w_pc w of
        Leave_if_stopped \<Rightarrow> (if running then advance w else w\<lparr>w_phase := Exited, w_holds := False\<rparr>, requested)
      | Lock_mutex \<Rightarrow> (advance (w\<lparr>w_holds := True\<rparr>), requested)
      | Unlock_mutex \<Rightarrow> (advance (w\<lparr>w_holds := False\<rparr>), requested)
      | Wait_stopped \<Rightarrow> (if \<not> running then advance w else w\<lparr>w_phase := Deciding\<rparr>, requested)
      | Wait_requested \<Rightarrow> (if requested \<or> \<not> running then advance w else w\<lparr>w_phase := Deciding\<rparr>, requested)
      | Clear_request \<Rightarrow> (advance w, False)
      | Call \<Rightarrow> (advance w, requested))"

text \<open>The next step of a thread, if it can take one by itself, and the request flag after it.\<close>

definition worker_step :: "bool \<Rightarrow> bool \<Rightarrow> worker \<Rightarrow> (worker \<times> bool) option" where
  "worker_step running requested w =
     (case w_phase w of
        Executing \<Rightarrow> Some (execute_instr running requested w)
      | Deciding \<Rightarrow> Some (w\<lparr>w_phase := Blocked, w_holds := False\<rparr>, requested)
      | Blocked \<Rightarrow> None
      | Woken timed_out \<Rightarrow>
          Some (let w = w\<lparr>w_holds := True\<rparr>
                in if timed_out then advance w else w\<lparr>w_phase := Executing\<rparr>, requested)
      | Exited \<Rightarrow> None)"

definition wake :: "bool \<Rightarrow> worker \<Rightarrow> worker" where
  "wake timed_out w = (if w_phase w = Blocked then w\<lparr>w_phase := Woken timed_out\<rparr> else w)"

section \<open>The threads of the program\<close>

definition ttl_loop :: "instr list" where
  "ttl_loop = [Leave_if_stopped, Lock_mutex, Wait_stopped, Unlock_mutex, Leave_if_stopped, Call]"

definition check_loop :: "instr list" where
  "check_loop = [Leave_if_stopped, Lock_mutex, Wait_stopped, Unlock_mutex, Leave_if_stopped, Call]"

definition hint_loop :: "instr list" where
  "hint_loop = [Leave_if_stopped, Lock_mutex, Wait_stopped, Unlock_mutex, Leave_if_stopped, Call]"

definition gossip_loop :: "instr list" where
  "gossip_loop = [Leave_if_stopped, Call, Lock_mutex, Wait_stopped, Unlock_mutex]"

definition rebalance_loop :: "instr list" where
  "rebalance_loop =
     [Leave_if_stopped, Lock_mutex, Wait_requested, Leave_if_stopped, Clear_request, Unlock_mutex, Call]"

text \<open>What \<open>stop\<close> does after clearing the flag: pass through the mutex of a thread, notify its
  condition variable, join it.\<close>

datatype stop_action = Pass_mutex nat | Notify nat | Join nat

record background =
  bg_loops :: "instr list list"
  bg_stop :: "stop_action list"

definition ttl_manager :: background where
  "ttl_manager = \<lparr>bg_loops = [ttl_loop], bg_stop = [Pass_mutex 0, Notify 0, Join 0]\<rparr>"

definition health_worker :: background where
  "health_worker = \<lparr>bg_loops = [check_loop], bg_stop = [Pass_mutex 0, Notify 0, Join 0]\<rparr>"

definition cluster_workers :: background where
  "cluster_workers =
     \<lparr>bg_loops = [hint_loop, gossip_loop, rebalance_loop],
      bg_stop = [Pass_mutex 0, Pass_mutex 1, Pass_mutex 2, Notify 0, Notify 1, Notify 2, Join 0, Join 1, Join 2]\<rparr>"

section \<open>Starting, stopping and requests\<close>

text \<open>The state of one object with its threads: what \<open>stop\<close> still has to do, and how many callers
  have set the request flag and not yet notified.\<close>

record service =
  sv_running :: bool
  sv_requested :: bool
  sv_workers :: "worker list"
  sv_stopping :: "stop_action list"
  sv_notifying :: nat

definition new_service :: service where
  "new_service = \<lparr>sv_running = False, sv_requested = False, sv_workers = [], sv_stopping = [], sv_notifying = 0\<rparr>"

definition start_threads :: "background \<Rightarrow> service \<Rightarrow> service" where
  "start_threads bg s =
     (if sv_running s then s
      else s\<lparr>sv_running := True, sv_workers := map new_worker (bg_loops bg)\<rparr>)"

definition stop_threads :: "background \<Rightarrow> service \<Rightarrow> service" where
  "stop_threads bg s =
     (if \<not> sv_running s then s else s\<lparr>sv_running := False, sv_stopping := bg_stop bg\<rparr>)"

text \<open>The steps of \<open>stop\<close>: taking a mutex waits for its holder, joining waits for the end of the
  thread.\<close>

definition perform :: "stop_action \<Rightarrow> service \<Rightarrow> service option" where
  "perform a s =
     (case a of
        Pass_mutex i \<Rightarrow> if w_holds (sv_workers s ! i) then None else Some s
      | Notify i \<Rightarrow> Some (s\<lparr>sv_workers := (sv_workers s)[i := wake False (sv_workers s ! i)]\<rparr>)
      | Join i \<Rightarrow> if w_phase (sv_workers s ! i) = Exited then Some s else None)"

definition listens :: "worker \<Rightarrow> bool" where
  "listens w \<longleftrightarrow> Wait_requested \<in> set (w_code w)"

definition request :: "service \<Rightarrow> service option" where
  "request s =
     (if \<exists>w \<in> set (sv_workers s). listens w \<and> w_holds w then None
      else Some (s\<lparr>sv_requested := True, sv_notifying := sv_notifying s + 1\<rparr>))"

definition notify_request :: "service \<Rightarrow> service" where
  "notify_request s =
     s\<lparr>sv_notifying := sv_notifying s - 1,
       sv_workers := map (\<lambda>w. if listens w then wake False w else w) (sv_workers s)\<rparr>"

text \<open>The steps that the threads and \<open>stop\<close> take by themselves.\<close>

inductive prompt_step :: "service \<Rightarrow> service \<Rightarrow> bool" where
  thread: "i < length (sv_workers s) \<Longrightarrow>
    worker_step (sv_running s) (sv_requested s) (sv_workers s ! i) = Some (w, r) \<Longrightarrow>
    prompt_step s (s\<lparr>sv_workers := (sv_workers s)[i := w], sv_requested := r\<rparr>)"
| stopping: "sv_stopping s = a # rest \<Longrightarrow> perform a s = Some s' \<Longrightarrow>
    prompt_step s (s'\<lparr>sv_stopping := rest\<rparr>)"

text \<open>A blocked thread may also be woken spuriously, and by its timeout if the wait has one.\<close>

inductive wake_step :: "service \<Rightarrow> service \<Rightarrow> bool" where
  woken: "i < length (sv_workers s) \<Longrightarrow> w_phase (sv_workers s ! i) = Blocked \<Longrightarrow>
    timed_out \<longrightarrow> w_code (sv_workers s ! i) ! w_pc (sv_workers s ! i) = Wait_stopped \<Longrightarrow>
    wake_step s (s\<lparr>sv_workers := (sv_workers s)[i := wake timed_out (sv_workers s ! i)]\<rparr>)"

inductive request_step :: "service \<Rightarrow> service \<Rightarrow> bool" where
  requested: "request s = Some s' \<Longrightarrow> request_step s s'"
| notified: "0 < sv_notifying s \<Longrightarrow> request_step s (notify_request s)"

text \<open>\<open>start\<close> and \<open>stop\<close> are called one after the other by the owner of the object.\<close>

inductive service_run :: "background \<Rightarrow> service \<Rightarrow> bool" for bg where
  new: "service_run bg new_service"
| start: "service_run bg s \<Longrightarrow> sv_stopping s = [] \<Longrightarrow> service_run bg (start_threads bg s)"
| stop: "service_run bg s \<Longrightarrow> sv_stopping s = [] \<Longrightarrow> service_run bg (stop_threads bg s)"
| prompt: "service_run bg s \<Longrightarrow> prompt_step s s' \<Longrightarrow> service_run bg s'"
| woken: "service_run bg s \<Longrightarrow> wake_step s s' \<Longrightarrow> service_run bg s'"
| request: "service_run bg s \<Longrightarrow> request_step s s' \<Longrightarrow> service_run bg s'"

text \<open>What happens while \<open>stop\<close> runs: \<open>n\<close> steps of the threads and of \<open>stop\<close>, with any number
  of requests in between.\<close>

inductive winding_down :: "nat \<Rightarrow> service \<Rightarrow> service \<Rightarrow> bool" where
  none: "winding_down 0 s s"
| prompt: "winding_down n s s' \<Longrightarrow> prompt_step s' s'' \<Longrightarrow> winding_down (Suc n) s s''"
| woken: "winding_down n s s' \<Longrightarrow> wake_step s' s'' \<Longrightarrow> winding_down (Suc n) s s''"
| request: "winding_down n s s' \<Longrightarrow> request_step s' s'' \<Longrightarrow> winding_down n s s''"

section \<open>Threads keep to their mutex\<close>

definition waits :: "instr \<Rightarrow> bool" where
  "waits c \<longleftrightarrow> c = Wait_stopped \<or> c = Wait_requested"

definition locking :: "bool \<Rightarrow> instr \<Rightarrow> bool" where
  "locking h c = (if c = Lock_mutex then True else if c = Unlock_mutex then False else h)"

text \<open>Whether the mutex is held before an instruction of a loop.\<close>

definition held :: "instr list \<Rightarrow> nat \<Rightarrow> bool" where
  "held code pc = foldl locking False (take pc code)"

definition loop_ok :: "instr list \<Rightarrow> bool" where
  "loop_ok code \<longleftrightarrow> code \<noteq> [] \<and> code ! 0 = Leave_if_stopped \<and> \<not> held code (length code)
     \<and> list_all (\<lambda>pc. waits (code ! pc) \<longrightarrow> held code pc) [0..<length code]"

definition worker_ok :: "worker \<Rightarrow> bool" where
  "worker_ok w \<longleftrightarrow> loop_ok (w_code w) \<and> w_pc w < length (w_code w)
     \<and> (w_phase w = Executing \<longrightarrow> w_holds w = held (w_code w) (w_pc w))
     \<and> (w_phase w = Deciding \<longrightarrow> w_holds w)
     \<and> (w_phase w \<in> {Blocked, Woken True, Woken False, Exited} \<longrightarrow> \<not> w_holds w)
     \<and> (w_phase w \<in> {Deciding, Blocked, Woken True, Woken False} \<longrightarrow> waits (w_code w ! w_pc w))"

lemma held_0 [simp]: "held code 0 = False"
  by (simp add: held_def)

lemma held_Suc: "pc < length code \<Longrightarrow> held code (Suc pc) = locking (held code pc) (code ! pc)"
  by (simp add: held_def take_Suc_conv_app_nth)

lemma waits_held: "loop_ok code \<Longrightarrow> pc < length code \<Longrightarrow> waits (code ! pc) \<Longrightarrow> held code pc"
  by (auto simp: loop_ok_def list_all_iff)

lemma advance_simps [simp]:
  "w_code (advance w) = w_code w" "w_phase (advance w) = Executing" "w_holds (advance w) = w_holds w"
  by (simp_all add: advance_def)

lemma advance_ok:
  assumes "loop_ok (w_code w)" and "w_pc w < length (w_code w)"
    and "w_holds w = locking (held (w_code w) (w_pc w)) (w_code w ! w_pc w)"
  shows "worker_ok (advance w)"
proof (cases "w_pc w + 1 = length (w_code w)")
  case True
  with assms held_Suc [of "w_pc w" "w_code w"] have "\<not> w_holds w" by (simp add: loop_ok_def)
  with True assms show ?thesis by (simp add: worker_ok_def advance_def loop_ok_def)
next
  case False
  with assms held_Suc [of "w_pc w" "w_code w"] show ?thesis by (simp add: worker_ok_def advance_def)
qed

lemma execute_instr_ok:
  assumes ok: "worker_ok w" "w_phase w = Executing" and e: "execute_instr running requested w = (w', r)"
  shows "worker_ok w' \<and> w_code w' = w_code w \<and> w_phase w' \<noteq> Blocked
    \<and> (w_phase w' = Deciding \<longrightarrow> running \<and> r = requested \<and> w' = w\<lparr>w_phase := Deciding\<rparr>
        \<and> (w_code w ! w_pc w = Wait_requested \<longrightarrow> \<not> requested))
    \<and> (r = requested \<or> \<not> r)"
proof -
  have w: "loop_ok (w_code w)" "w_pc w < length (w_code w)" "w_holds w = held (w_code w) (w_pc w)"
    using ok by (simp_all add: worker_ok_def)
  have a: "worker_ok (advance (w\<lparr>w_holds := locking (w_holds w) (w_code w ! w_pc w)\<rparr>))"
    using w by (intro advance_ok) simp_all
  have d: "waits (w_code w ! w_pc w) \<Longrightarrow> worker_ok (w\<lparr>w_phase := Deciding\<rparr>)"
    using ok waits_held [OF w(1,2)] by (auto simp: worker_ok_def)
  have x: "worker_ok (w\<lparr>w_phase := Exited, w_holds := False\<rparr>)" using ok by (simp add: worker_ok_def)
  have same: "w\<lparr>w_holds := w_holds w\<rparr> = w" by simp
  from e show ?thesis
    by (cases "w_code w ! w_pc w")
      (use a d x in \<open>auto simp: execute_instr_def locking_def waits_def same split: if_splits\<close>)
qed

lemma worker_step_ok:
  assumes ok: "worker_ok w" and s: "worker_step running requested w = Some (w', r)"
  shows "worker_ok w'" "w_code w' = w_code w" "w_phase w \<noteq> Exited"
    "w_phase w' = Deciding \<Longrightarrow> running \<and> r = requested \<and> w_pc w' = w_pc w
      \<and> (w_code w ! w_pc w = Wait_requested \<longrightarrow> \<not> requested)"
    "w_phase w' = Blocked \<Longrightarrow> w_phase w = Deciding \<and> r = requested \<and> w_pc w' = w_pc w"
    "r = requested \<or> \<not> r"
proof -
  have "worker_ok w' \<and> w_code w' = w_code w \<and> w_phase w \<noteq> Exited
    \<and> (w_phase w' = Deciding \<longrightarrow> running \<and> r = requested \<and> w_pc w' = w_pc w
        \<and> (w_code w ! w_pc w = Wait_requested \<longrightarrow> \<not> requested))
    \<and> (w_phase w' = Blocked \<longrightarrow> w_phase w = Deciding \<and> r = requested \<and> w_pc w' = w_pc w)
    \<and> (r = requested \<or> \<not> r)"
  proof (cases "w_phase w")
    case Executing
    with s have "execute_instr running requested w = (w', r)" by (simp add: worker_step_def)
    from execute_instr_ok [OF ok Executing this] Executing show ?thesis by auto
  next
    case Deciding
    with s ok show ?thesis by (auto simp: worker_step_def worker_ok_def)
  next
    case (Woken t)
    have w: "loop_ok (w_code w)" "w_pc w < length (w_code w)" "waits (w_code w ! w_pc w)"
      using ok Woken by (cases t; simp add: worker_ok_def)+
    then have h: "held (w_code w) (w_pc w)" by (rule waits_held)
    have "worker_ok (advance (w\<lparr>w_holds := True\<rparr>))"
      using w h by (intro advance_ok) (auto simp: locking_def waits_def)
    moreover have "worker_ok (w\<lparr>w_holds := True, w_phase := Executing\<rparr>)" using w h by (simp add: worker_ok_def)
    ultimately show ?thesis using s Woken by (auto simp: worker_step_def Let_def split: if_splits)
  qed (use s in \<open>simp_all add: worker_step_def\<close>)
  then show "worker_ok w'" "w_code w' = w_code w" "w_phase w \<noteq> Exited"
    "w_phase w' = Deciding \<Longrightarrow> running \<and> r = requested \<and> w_pc w' = w_pc w
      \<and> (w_code w ! w_pc w = Wait_requested \<longrightarrow> \<not> requested)"
    "w_phase w' = Blocked \<Longrightarrow> w_phase w = Deciding \<and> r = requested \<and> w_pc w' = w_pc w"
    "r = requested \<or> \<not> r" by auto
qed

lemma wake_simps [simp]:
  "w_code (wake t w) = w_code w" "w_pc (wake t w) = w_pc w" "w_holds (wake t w) = w_holds w"
  "w_phase (wake t w) = (if w_phase w = Blocked then Woken t else w_phase w)"
  by (simp_all add: wake_def)

lemma wake_ok: "worker_ok w \<Longrightarrow> worker_ok (wake t w)"
  by (cases t) (auto simp: worker_ok_def)

lemma new_worker_ok: "loop_ok code \<Longrightarrow> worker_ok (new_worker code)"
  by (simp add: worker_ok_def new_worker_def loop_ok_def)

section \<open>Stopping\<close>

text \<open>What a background needs for a clean stop: loops that hold their mutex when they wait and check
  the flag first, and a \<open>stop\<close> that passes every mutex before it notifies and notifies before it
  joins.\<close>

locale stoppable =
  fixes bg :: background
  assumes loops_ok: "list_all loop_ok (bg_loops bg)"
    and stop_shape: "bg_stop bg = map Pass_mutex [0..<length (bg_loops bg)]
      @ map Notify [0..<length (bg_loops bg)] @ map Join [0..<length (bg_loops bg)]"
begin

definition stopping_ok :: "service \<Rightarrow> nat \<Rightarrow> bool" where
  "stopping_ok s k \<longleftrightarrow> k \<le> 3 * length (bg_loops bg) \<and> sv_stopping s = drop k (bg_stop bg)
     \<and> (\<forall>i < length (bg_loops bg).
          (w_phase (sv_workers s ! i) = Deciding \<longrightarrow> k \<le> i)
        \<and> (w_phase (sv_workers s ! i) = Blocked \<longrightarrow> k \<le> length (bg_loops bg) + i)
        \<and> (2 * length (bg_loops bg) + i < k \<longrightarrow> w_phase (sv_workers s ! i) = Exited))"

definition service_ok :: "service \<Rightarrow> bool" where
  "service_ok s \<longleftrightarrow> map w_code (sv_workers s) = bg_loops bg \<and> list_all worker_ok (sv_workers s)
     \<and> (sv_running s \<longrightarrow> sv_stopping s = []) \<and> (\<not> sv_running s \<longrightarrow> (\<exists>k. stopping_ok s k))"

definition fresh :: "service \<Rightarrow> bool" where
  "fresh s \<longleftrightarrow> sv_workers s = [] \<and> \<not> sv_running s \<and> sv_stopping s = []"

lemma length_workers: "service_ok s \<Longrightarrow> length (sv_workers s) = length (bg_loops bg)"
  unfolding service_ok_def by (metis length_map)

lemma worker_at: "service_ok s \<Longrightarrow> i < length (bg_loops bg) \<Longrightarrow> worker_ok (sv_workers s ! i)"
  using length_workers by (simp add: service_ok_def list_all_length)

lemma length_stop: "length (bg_stop bg) = 3 * length (bg_loops bg)"
  by (simp add: stop_shape)

lemma stop_nth:
  assumes "k < 3 * length (bg_loops bg)"
  shows "bg_stop bg ! k = (if k < length (bg_loops bg) then Pass_mutex k
    else if k < 2 * length (bg_loops bg) then Notify (k - length (bg_loops bg))
    else Join (k - 2 * length (bg_loops bg)))"
  using assms by (auto simp: stop_shape nth_append)

text \<open>Replacing one thread by another in the same loop.\<close>

lemma thread_update:
  assumes ok: "service_ok s" and i: "i < length (bg_loops bg)"
    and w: "worker_ok w" "w_code w = w_code (sv_workers s ! i)"
    and ph: "\<not> sv_running s \<Longrightarrow> w_phase w = Deciding \<Longrightarrow> False"
      "\<not> sv_running s \<Longrightarrow> w_phase w = Blocked \<Longrightarrow> w_phase (sv_workers s ! i) \<in> {Deciding, Blocked}"
      "\<not> sv_running s \<Longrightarrow> w_phase (sv_workers s ! i) = Exited \<Longrightarrow> w_phase w = Exited"
  shows "service_ok (s\<lparr>sv_workers := (sv_workers s)[i := w], sv_requested := r, sv_notifying := m\<rparr>)"
proof -
  let ?s = "s\<lparr>sv_workers := (sv_workers s)[i := w], sv_requested := r, sv_notifying := m\<rparr>"
  have n: "length (sv_workers s) = length (bg_loops bg)" by (rule length_workers [OF ok])
  have "map w_code ((sv_workers s)[i := w]) = map w_code (sv_workers s)"
    using w(2) i n by (simp add: map_update list_eq_iff_nth_eq nth_list_update)
  moreover have "list_all worker_ok ((sv_workers s)[i := w])"
    using ok w(1) by (auto simp: service_ok_def list_all_iff dest!: subsetD [OF set_update_subset_insert])
  moreover have "stopping_ok s k \<Longrightarrow> \<not> sv_running s \<Longrightarrow> stopping_ok ?s k" for k
    using ph n i unfolding stopping_ok_def by (auto simp: nth_list_update)
  ultimately show ?thesis using ok by (auto simp: service_ok_def)
qed

lemma prompt_ok:
  assumes "prompt_step s s'" and ok: "service_ok s"
  shows "service_ok s'"
  using assms(1)
proof cases
  case (thread i w r)
  then have i: "i < length (bg_loops bg)" using length_workers [OF ok] by simp
  note st = worker_step_ok [OF worker_at [OF ok i] thread(3)]
  have "service_ok (s\<lparr>sv_workers := (sv_workers s)[i := w], sv_requested := r, sv_notifying := sv_notifying s\<rparr>)"
    by (rule thread_update [OF ok i]) (use st in auto)
  with thread show ?thesis by simp
next
  case (stopping a rest s'')
  have n: "length (sv_workers s) = length (bg_loops bg)" by (rule length_workers [OF ok])
  from stopping(2) ok have run: "\<not> sv_running s" by (auto simp: service_ok_def)
  with ok obtain k where k: "stopping_ok s k" by (auto simp: service_ok_def)
  from k stopping(2) have k3: "k < 3 * length (bg_loops bg)"
    using length_stop by (cases "k < length (bg_stop bg)") (auto simp: stopping_ok_def)
  have "drop k (bg_stop bg) = bg_stop bg ! k # drop (Suc k) (bg_stop bg)"
    using k3 length_stop by (simp add: Cons_nth_drop_Suc)
  with k stopping(2) have a: "a = bg_stop bg ! k" "rest = drop (Suc k) (bg_stop bg)" by (auto simp: stopping_ok_def)
  have "service_ok s'' \<and> sv_running s'' = sv_running s \<and> stopping_ok (s'\<lparr>sv_stopping := rest\<rparr>) (Suc k)"
  proof (cases "k < length (bg_loops bg)")
    case True
    with a stop_nth [OF k3] stopping(3) have s: "s'' = s" "\<not> w_holds (sv_workers s ! k)"
      by (auto simp: perform_def split: if_splits)
    with worker_at [OF ok True] have "w_phase (sv_workers s ! k) \<noteq> Deciding" by (auto simp: worker_ok_def)
    then have "\<And>i. w_phase (sv_workers s ! i) = Deciding \<Longrightarrow> k \<le> i \<Longrightarrow> Suc k \<le> i" using le_neq_implies_less by fastforce
    with True k k3 a ok s stopping(1) show ?thesis by (auto simp: stopping_ok_def)
  next
    case ge: False
    show ?thesis
    proof (cases "k < 2 * length (bg_loops bg)")
      case True
      let ?j = "k - length (bg_loops bg)"
      have j: "?j < length (bg_loops bg)" using True ge by simp
      have s: "s'' = s\<lparr>sv_workers := (sv_workers s)[?j := wake False (sv_workers s ! ?j)]\<rparr>"
        using a stop_nth [OF k3] stopping(3) ge True by (simp add: perform_def)
      have "service_ok (s\<lparr>sv_workers := (sv_workers s)[?j := wake False (sv_workers s ! ?j)],
          sv_requested := sv_requested s, sv_notifying := sv_notifying s\<rparr>)"
        by (rule thread_update [OF ok j wake_ok [OF worker_at [OF ok j]]])
          (use k ge j in \<open>auto simp: stopping_ok_def split: if_splits\<close>)
      then have "service_ok s''" using s by simp
      moreover have "stopping_ok (s'\<lparr>sv_stopping := rest\<rparr>) (Suc k)"
      proof -
        have "Suc k \<le> length (bg_loops bg) + i" if "i \<noteq> ?j" "k \<le> length (bg_loops bg) + i" for i
          using that ge by linarith
        with k k3 a s stopping(1) n j ge True show ?thesis
          unfolding stopping_ok_def by (auto simp: nth_list_update)
      qed
      ultimately show ?thesis using s by simp
    next
      case False
      let ?j = "k - 2 * length (bg_loops bg)"
      have s: "s'' = s" "w_phase (sv_workers s ! ?j) = Exited"
        using a stop_nth [OF k3] stopping(3) ge False by (auto simp: perform_def split: if_splits)
      have "2 * length (bg_loops bg) + i < Suc k \<Longrightarrow> i = ?j \<or> 2 * length (bg_loops bg) + i < k" for i
        using False by linarith
      with k k3 a s stopping(1) ok False show ?thesis unfolding stopping_ok_def by fastforce
    qed
  qed
  moreover have "s'\<lparr>sv_stopping := rest\<rparr> = s'" using stopping(1) by simp
  ultimately show ?thesis using stopping(1) run by (auto simp: service_ok_def)
qed

lemma woken_ok:
  assumes "wake_step s s'" and ok: "service_ok s"
  shows "service_ok s'"
  using assms(1)
proof cases
  case (woken i t)
  then have i: "i < length (bg_loops bg)" using length_workers [OF ok] by simp
  have "service_ok (s\<lparr>sv_workers := (sv_workers s)[i := wake t (sv_workers s ! i)],
      sv_requested := sv_requested s, sv_notifying := sv_notifying s\<rparr>)"
    by (rule thread_update [OF ok i wake_ok [OF worker_at [OF ok i]]]) (use woken in auto)
  with woken show ?thesis by simp
qed

lemma request_ok:
  assumes "request_step s s'" and ok: "service_ok s"
  shows "service_ok s'"
  using assms(1)
proof cases
  case requested
  then show ?thesis using ok by (auto simp: request_def service_ok_def stopping_ok_def split: if_splits)
next
  case notified
  let ?f = "\<lambda>w. if listens w then wake False w else w"
  have n: "length (sv_workers s) = length (bg_loops bg)" by (rule length_workers [OF ok])
  have "list_all worker_ok (map ?f (sv_workers s))" using ok wake_ok by (auto simp: service_ok_def list_all_iff)
  moreover have "w_code \<circ> ?f = w_code" by auto
  moreover have "stopping_ok s k \<Longrightarrow> stopping_ok (notify_request s) k" for k
    using n by (auto simp: stopping_ok_def notify_request_def split: if_splits)
  ultimately show ?thesis using ok notified(1) unfolding service_ok_def
    by (simp add: notify_request_def) blast
qed

lemma fresh_steps:
  "fresh s \<Longrightarrow> \<not> prompt_step s s'" "fresh s \<Longrightarrow> \<not> wake_step s s'" "fresh s \<Longrightarrow> request_step s s' \<Longrightarrow> fresh s'"
  by (auto simp: fresh_def request_def notify_request_def
      elim!: prompt_step.cases wake_step.cases request_step.cases split: if_splits)

lemma run_ok: "service_run bg s \<Longrightarrow> fresh s \<or> service_ok s"
proof (induction rule: service_run.induct)
  case new
  show ?case by (simp add: fresh_def new_service_def)
next
  case (start s)
  have "map w_code (map new_worker (bg_loops bg)) = bg_loops bg" by (simp add: comp_def new_worker_def)
  moreover have "list_all worker_ok (map new_worker (bg_loops bg))"
    using loops_ok new_worker_ok by (auto simp: list_all_iff)
  ultimately have "\<not> sv_running s \<Longrightarrow> service_ok (start_threads bg s)"
    using start(2) by (simp add: service_ok_def start_threads_def)
  with start show ?case by (cases "sv_running s") (simp_all add: start_threads_def)
next
  case (stop s)
  then have "sv_running s \<Longrightarrow> service_ok s" by (auto simp: fresh_def)
  then have "sv_running s \<Longrightarrow> service_ok (stop_threads bg s)"
    by (auto simp: service_ok_def stop_threads_def stopping_ok_def intro!: exI [of _ 0])
  with stop show ?case by (cases "sv_running s") (simp_all add: stop_threads_def)
next
  case (prompt s s')
  then show ?case using prompt_ok fresh_steps(1) by blast
next
  case (woken s s')
  then show ?case using woken_ok fresh_steps(2) by blast
next
  case (request s s')
  then show ?case using request_ok fresh_steps(3) by blast
qed

text \<open>As long as \<open>stop\<close> has not returned, something can happen without waiting for a timeout.\<close>

lemma worker_prompt:
  assumes "i < length (sv_workers s)" and "w_phase (sv_workers s ! i) \<notin> {Blocked, Exited}"
  shows "\<exists>s'. prompt_step s s'"
proof -
  obtain w r where "worker_step (sv_running s) (sv_requested s) (sv_workers s ! i) = Some (w, r)"
    using assms(2) by (cases "w_phase (sv_workers s ! i)"; simp add: worker_step_def)
      (metis surj_pair)
  from prompt_step.thread [OF assms(1) this] show ?thesis by blast
qed

lemma stop_progress:
  assumes ok: "service_ok s" and st: "sv_stopping s \<noteq> []"
  shows "\<exists>s'. prompt_step s s'"
proof -
  have n: "length (sv_workers s) = length (bg_loops bg)" by (rule length_workers [OF ok])
  from ok st obtain k where k: "stopping_ok s k" by (auto simp: service_ok_def)
  with st have k3: "k < 3 * length (bg_loops bg)" using length_stop by (auto simp: stopping_ok_def)
  have hd: "sv_stopping s = bg_stop bg ! k # drop (Suc k) (bg_stop bg)"
    using k k3 length_stop by (simp add: stopping_ok_def Cons_nth_drop_Suc)
  show ?thesis
  proof (cases "perform (bg_stop bg ! k) s")
    case (Some s')
    with hd show ?thesis by (auto intro: prompt_step.stopping)
  next
    case None
    note nth = stop_nth [OF k3]
    consider (pass) "k < length (bg_loops bg)" "w_holds (sv_workers s ! k)"
      | (join) "2 * length (bg_loops bg) \<le> k" "w_phase (sv_workers s ! (k - 2 * length (bg_loops bg))) \<noteq> Exited"
      using None nth by (auto simp: perform_def split: if_splits)
    then show ?thesis
    proof cases
      case pass
      with worker_at [OF ok pass(1)] show ?thesis
        by (intro worker_prompt [of k]) (auto simp: worker_ok_def n)
    next
      case join
      let ?j = "k - 2 * length (bg_loops bg)"
      have j: "?j < length (bg_loops bg)" using join(1) k3 by linarith
      have "w_phase (sv_workers s ! ?j) \<noteq> Blocked"
        using k join(1) j unfolding stopping_ok_def by fastforce
      with join j n show ?thesis by (intro worker_prompt [of ?j]) auto
    qed
  qed
qed

lemma stopped_all_exited:
  assumes "service_ok s" and "sv_stopping s = []" and "\<not> sv_running s" and "i < length (bg_loops bg)"
  shows "w_phase (sv_workers s ! i) = Exited"
proof -
  from assms(1,3) obtain k where k: "stopping_ok s k" by (auto simp: service_ok_def)
  with assms(2) have "k = 3 * length (bg_loops bg)" using length_stop by (auto simp: stopping_ok_def)
  with k assms(4) show ?thesis by (auto simp: stopping_ok_def)
qed

end

section \<open>How long stopping takes\<close>

text \<open>The steps a thread may still take once the flag is cleared.\<close>

definition instrs_left :: "worker \<Rightarrow> nat" where
  "instrs_left w = (if w_pc w = 0 then 1 else length (w_code w) - w_pc w + 1)"

definition steps_left :: "worker \<Rightarrow> nat" where
  "steps_left w =
     (case w_phase w of
        Exited \<Rightarrow> 0
      | Executing \<Rightarrow> 4 * instrs_left w
      | Woken t \<Rightarrow> 4 * instrs_left w + 1
      | Blocked \<Rightarrow> 4 * instrs_left w + 2
      | Deciding \<Rightarrow> 4 * instrs_left w + 3)"

definition all_left :: "service \<Rightarrow> nat" where
  "all_left s = length (sv_stopping s) + sum_list (map steps_left (sv_workers s))"

lemma advance_left: "w_pc w \<noteq> 0 \<Longrightarrow> w_pc w < length (w_code w) \<Longrightarrow> instrs_left (advance w) < instrs_left w"
  by (auto simp: instrs_left_def advance_def)

lemma left_cong: "w_pc w = w_pc v \<Longrightarrow> w_code w = w_code v \<Longrightarrow> instrs_left w = instrs_left v"
  by (simp add: instrs_left_def)

lemma left_phase: "instrs_left (w\<lparr>w_holds := h, w_phase := p\<rparr>) = instrs_left w"
  by (rule left_cong) simp_all

lemma advance_holds: "instrs_left (advance (w\<lparr>w_holds := h\<rparr>)) = instrs_left (advance w)"
  by (rule left_cong) (simp_all add: advance_def)

lemma worker_step_left:
  assumes ok: "worker_ok w" and s: "worker_step False requested w = Some (w', r)"
  shows "steps_left w' < steps_left w"
proof -
  have w: "loop_ok (w_code w)" "w_pc w < length (w_code w)" using ok by (simp_all add: worker_ok_def)
  have zero: "w_pc w = 0 \<Longrightarrow> w_code w ! w_pc w = Leave_if_stopped" using w(1) by (simp add: loop_ok_def)
  have pos: "0 < instrs_left w" by (simp add: instrs_left_def)
  have adv: "w_pc w \<noteq> 0 \<Longrightarrow> instrs_left (advance w) < instrs_left w" using w(2) by (intro advance_left)
  show ?thesis
  proof (cases "w_phase w")
    case Executing
    with s have e: "execute_instr False requested w = (w', r)" by (simp add: worker_step_def)
    show ?thesis
    proof (cases "w_code w ! w_pc w = Leave_if_stopped")
      case True
      with e Executing pos show ?thesis by (auto simp: execute_instr_def steps_left_def)
    next
      case False
      with zero have "w_pc w \<noteq> 0" by metis
      with e Executing adv False show ?thesis
        by (cases "w_code w ! w_pc w") (auto simp: execute_instr_def steps_left_def advance_holds)
    qed
  next
    case Deciding
    with s show ?thesis by (auto simp: worker_step_def steps_left_def instrs_left_def)
  next
    case (Woken t)
    with ok have "waits (w_code w ! w_pc w)" by (cases t) (simp_all add: worker_ok_def)
    with zero have "w_pc w \<noteq> 0" by (metis instr.distinct(5,7) waits_def)
    with s Woken adv show ?thesis
      by (auto simp: worker_step_def steps_left_def advance_holds left_phase Let_def split: if_splits)
  qed (use s in \<open>simp_all add: worker_step_def\<close>)
qed

lemma wake_left: "steps_left (wake t w) \<le> steps_left w"
  "w_phase w = Blocked \<Longrightarrow> steps_left (wake t w) < steps_left w"
  by (auto simp: steps_left_def instrs_left_def wake_def split: phase.split)

lemma sum_update_less:
  assumes "i < length ws" and "f w < (f (ws ! i) :: nat)"
  shows "sum_list (map f (ws[i := w])) < sum_list (map f ws)"
  using assms
proof (induction ws arbitrary: i)
  case (Cons x ws)
  then show ?case by (cases i) auto
qed simp

lemma sum_map_le:
  assumes "\<And>w. w \<in> set ws \<Longrightarrow> f (g w) \<le> (f w :: nat)"
  shows "sum_list (map f (map g ws)) \<le> sum_list (map f ws)"
  using assms by (induction ws) (fastforce intro: add_mono)+

lemma sum_list_bound: "(\<And>w. w \<in> set ws \<Longrightarrow> f w \<le> (b :: nat)) \<Longrightarrow> sum_list (map f ws) \<le> b * length ws"
  by (induction ws) (fastforce intro: add_mono)+

context stoppable
begin

lemma left_decreases:
  assumes ok: "service_ok s" and run: "\<not> sv_running s"
  shows "prompt_step s s' \<Longrightarrow> all_left s' < all_left s" "wake_step s s' \<Longrightarrow> all_left s' < all_left s"
    "request_step s s' \<Longrightarrow> all_left s' \<le> all_left s"
proof -
  assume "prompt_step s s'"
  then show "all_left s' < all_left s"
  proof cases
    case (thread i w r)
    then have "i < length (bg_loops bg)" using length_workers [OF ok] by simp
    from worker_at [OF ok this] thread run have "steps_left w < steps_left (sv_workers s ! i)"
      by (auto intro: worker_step_left)
    with thread show ?thesis by (auto simp: all_left_def intro: sum_update_less)
  next
    case (stopping a rest s'')
    have "sum_list (map steps_left (sv_workers s'')) \<le> sum_list (map steps_left (sv_workers s))"
    proof (cases a)
      case (Notify i)
      have "sum_list (map steps_left (ws[i := wake False (ws ! i)])) \<le> sum_list (map steps_left ws)" for ws i
      proof (induction ws arbitrary: i)
        case (Cons x ws)
        from wake_left(1) [of False x] Cons show ?case by (cases i) auto
      qed simp
      with Notify stopping show ?thesis by (auto simp: perform_def)
    qed (use stopping in \<open>auto simp: perform_def split: if_splits\<close>)
    with stopping show ?thesis by (simp add: all_left_def)
  qed
next
  assume "wake_step s s'"
  then show "all_left s' < all_left s"
    by cases (auto simp: all_left_def intro!: sum_update_less wake_left)
next
  assume "request_step s s'"
  then show "all_left s' \<le> all_left s"
  proof cases
    case requested
    then show ?thesis by (auto simp: request_def all_left_def split: if_splits)
  next
    case notified
    have "sum_list (map steps_left (map (\<lambda>w. if listens w then wake False w else w) (sv_workers s)))
        \<le> sum_list (map steps_left (sv_workers s))"
      by (rule sum_map_le) (simp add: wake_left)
    with notified show ?thesis by (simp add: all_left_def notify_request_def comp_def)
  qed
qed

lemma running_kept: "prompt_step s s' \<Longrightarrow> sv_running s' = sv_running s" "wake_step s s' \<Longrightarrow> sv_running s' = sv_running s"
  "request_step s s' \<Longrightarrow> sv_running s' = sv_running s"
  by (auto elim!: prompt_step.cases wake_step.cases request_step.cases
      simp: perform_def request_def notify_request_def split: stop_action.splits if_splits)

lemma winding_down_bound:
  assumes "winding_down n s s'" and "service_ok s" and "\<not> sv_running s"
  shows "service_ok s' \<and> \<not> sv_running s' \<and> n + all_left s' \<le> all_left s"
  using assms
proof (induction rule: winding_down.induct)
  case (prompt n s s' s'')
  then show ?case using prompt_ok left_decreases(1) [of s' s''] running_kept(1) by fastforce
next
  case (woken n s s' s'')
  then show ?case using woken_ok left_decreases(2) [of s' s''] running_kept(2) by fastforce
next
  case (request n s s' s'')
  then show ?case using request_ok left_decreases(3) [of s' s''] running_kept(3) by fastforce
qed simp

lemma all_left_bound:
  assumes ok: "service_ok s" and short: "\<forall>code \<in> set (bg_loops bg). length code \<le> 7"
  shows "all_left s \<le> 34 * length (bg_loops bg)"
proof -
  have "sum_list (map steps_left (sv_workers s)) \<le> 31 * length (sv_workers s)"
  proof (rule sum_list_bound)
    fix w assume "w \<in> set (sv_workers s)"
    moreover from this have "w_code w \<in> set (map w_code (sv_workers s))" by simp
    ultimately have "length (w_code w) \<le> 7" "w_pc w < length (w_code w)"
      using ok short unfolding service_ok_def by (simp_all add: list_all_iff worker_ok_def)
    then show "steps_left w \<le> 31" by (auto simp: steps_left_def instrs_left_def split: phase.split)
  qed
  moreover have "length (sv_stopping s) \<le> 3 * length (bg_loops bg)"
    using ok length_stop by (cases "sv_running s") (auto simp: service_ok_def stopping_ok_def)
  ultimately show ?thesis using length_workers [OF ok] by (simp add: all_left_def)
qed

lemma stop_finishes:
  assumes "service_run bg s" and "\<not> sv_running s" and "winding_down n s s'"
    and short: "\<forall>code \<in> set (bg_loops bg). length code \<le> 7"
  shows "n \<le> 34 * length (bg_loops bg)
    \<and> (sv_stopping s' \<noteq> [] \<longrightarrow> (\<exists>s''. prompt_step s' s''))
    \<and> (sv_stopping s' = [] \<longrightarrow> list_all (\<lambda>w. w_phase w = Exited) (sv_workers s'))"
proof -
  from run_ok [OF assms(1)] show ?thesis
  proof
    assume ok: "service_ok s"
    note w = winding_down_bound [OF assms(3) ok assms(2)]
    have "n \<le> 34 * length (bg_loops bg)" using w all_left_bound [OF ok short] by linarith
    with w stop_progress [of s'] stopped_all_exited [of s'] length_workers [of s'] show ?thesis
      by (auto simp: list_all_length)
  next
    assume "fresh s"
    with assms(3) have "fresh s' \<and> n = 0" by (induction rule: winding_down.induct) (auto dest: fresh_steps)
    then show ?thesis by (simp add: fresh_def)
  qed
qed

end

section \<open>The threads of the program stop cleanly\<close>

interpretation purging: stoppable ttl_manager
  by unfold_locales (code_simp, code_simp)

interpretation pinging: stoppable health_worker
  by unfold_locales (code_simp, code_simp)

interpretation clustering: stoppable cluster_workers
  by unfold_locales (code_simp, code_simp)

text \<open>C29: Stopping a background thread never hangs and never loses its wake-up. Once \<open>stop\<close> of the
  TTL manager, the health checker or the cluster has cleared the flag, the threads and \<open>stop\<close> itself
  take at most 34 more steps per thread, in any interleaving and whatever requests arrive; as long as
  \<open>stop\<close> has not returned, one of them can go on without waiting for a timeout; and when it has
  returned, every thread has ended.\<close>

theorem stop_returns:
  assumes "bg \<in> {ttl_manager, health_worker, cluster_workers}" and "service_run bg s" and "\<not> sv_running s"
    and "winding_down n s s'"
  shows "n \<le> 34 * length (bg_loops bg)
    \<and> (sv_stopping s' \<noteq> [] \<longrightarrow> (\<exists>s''. prompt_step s' s''))
    \<and> (sv_stopping s' = [] \<longrightarrow> list_all (\<lambda>w. w_phase w = Exited) (sv_workers s'))"
proof -
  have "\<forall>code \<in> set (bg_loops bg). length code \<le> 7"
    using assms(1) by (auto simp: ttl_manager_def health_worker_def cluster_workers_def ttl_loop_def
        check_loop_def hint_loop_def gossip_loop_def rebalance_loop_def)
  with assms show ?thesis
    using purging.stop_finishes pinging.stop_finishes clustering.stop_finishes by auto
qed

text \<open>The purge thread blocks, and only then \<open>stop\<close> is called.\<close>

definition purging_blocked :: service where
  "purging_blocked =
     \<lparr>sv_running = True, sv_requested = False,
      sv_workers = [\<lparr>w_code = ttl_loop, w_pc = 2, w_phase = Blocked, w_holds = False\<rparr>],
      sv_stopping = [], sv_notifying = 0\<rparr>"

lemma purging_blocked_run: "service_run ttl_manager purging_blocked"
proof -
  let ?at = "\<lambda>pc ph h. \<lparr>sv_running = True, sv_requested = False,
    sv_workers = [\<lparr>w_code = ttl_loop, w_pc = pc, w_phase = ph, w_holds = h\<rparr>], sv_stopping = [], sv_notifying = 0\<rparr>"
  have step: "service_run ttl_manager (?at pc ph h) \<Longrightarrow>
      worker_step True False \<lparr>w_code = ttl_loop, w_pc = pc, w_phase = ph, w_holds = h\<rparr> =
        Some (\<lparr>w_code = ttl_loop, w_pc = pc', w_phase = ph', w_holds = h'\<rparr>, False) \<Longrightarrow>
      service_run ttl_manager (?at pc' ph' h')" for pc ph h pc' ph' h'
    using service_run.prompt [OF _ prompt_step.thread [of 0 "?at pc ph h" _ False]] by simp
  have "service_run ttl_manager (start_threads ttl_manager new_service)"
    by (intro service_run.start service_run.new) (simp add: new_service_def)
  then have "service_run ttl_manager (?at 0 Executing False)"
    by (simp add: start_threads_def new_service_def ttl_manager_def new_worker_def)
  then have "service_run ttl_manager (?at 1 Executing False)" by (rule step) code_simp
  then have "service_run ttl_manager (?at 2 Executing True)" by (rule step) code_simp
  then have "service_run ttl_manager (?at 2 Deciding True)" by (rule step) code_simp
  then have "service_run ttl_manager (?at 2 Blocked False)" by (rule step) code_simp
  then show ?thesis by (simp add: purging_blocked_def)
qed

theorem stop_returns_witness:
  "\<exists>s''. prompt_step (stop_threads ttl_manager purging_blocked) s''"
proof -
  have "service_run ttl_manager (stop_threads ttl_manager purging_blocked)"
    by (intro service_run.stop purging_blocked_run) (simp add: purging_blocked_def)
  from stop_returns [OF _ this _ winding_down.none] show ?thesis
    by (simp add: stop_threads_def purging_blocked_def ttl_manager_def)
qed

section \<open>No rebalance request is lost\<close>

definition hears :: "service \<Rightarrow> worker \<Rightarrow> bool" where
  "hears s w \<longleftrightarrow> (sv_running s \<longrightarrow> w_phase w \<noteq> Exited)
     \<and> (w_code w ! w_pc w = Wait_requested \<longrightarrow>
          (w_phase w = Deciding \<longrightarrow> \<not> sv_requested s)
        \<and> (w_phase w = Blocked \<and> sv_requested s \<longrightarrow> 0 < sv_notifying s))"

lemma listens_nth: "worker_ok w \<Longrightarrow> w_code w ! w_pc w = Wait_requested \<Longrightarrow> listens w"
  using nth_mem [of "w_pc w" "w_code w"] by (simp add: listens_def worker_ok_def)

lemma worker_step_hears:
  assumes ok: "worker_ok w" and h: "hears s w"
    and st: "worker_step (sv_running s) (sv_requested s) w = Some (w', r)"
  shows "hears (s\<lparr>sv_workers := ws, sv_requested := r\<rparr>) w'"
proof -
  note a = worker_step_ok [OF ok st]
  have "sv_running s \<Longrightarrow> w_phase w' \<noteq> Exited"
    using st h by (auto simp: worker_step_def execute_instr_def hears_def Let_def split: phase.splits instr.splits if_splits)
  moreover have "w_phase w' = Deciding \<Longrightarrow> w_code w' ! w_pc w' = Wait_requested \<Longrightarrow> \<not> r" using a by metis
  moreover have "w_phase w' = Blocked \<Longrightarrow> w_code w' ! w_pc w' = Wait_requested \<Longrightarrow> \<not> r" using a h by (metis hears_def)
  ultimately show ?thesis by (auto simp: hears_def)
qed

lemma hears_mono: "hears s w \<Longrightarrow> sv_running s' = sv_running s \<Longrightarrow> sv_notifying s' = sv_notifying s \<Longrightarrow>
    sv_requested s' = sv_requested s \<or> \<not> sv_requested s' \<Longrightarrow> hears s' w"
  by (auto simp: hears_def)

lemma hears_wake: "hears s w \<Longrightarrow> hears s (wake t w)"
  by (auto simp: hears_def)

lemma all_hear_wake:
  assumes "\<forall>w \<in> set ws. hears s w"
  shows "\<forall>v \<in> set (ws[i := wake t (ws ! i)]). hears s v"
proof (cases "i < length ws")
  case True
  with assms hears_wake [of s "ws ! i" t] show ?thesis by (auto dest!: subsetD [OF set_update_subset_insert])
qed (use assms in \<open>simp add: list_update_beyond\<close>)

lemma all_hear_update:
  assumes "\<forall>w \<in> set (sv_workers s). hears s w" and "hears (s\<lparr>sv_workers := ws, sv_requested := r\<rparr>) w"
    and "r = sv_requested s \<or> \<not> r"
  shows "\<forall>v \<in> set ((sv_workers s)[i := w]). hears (s\<lparr>sv_workers := ws, sv_requested := r\<rparr>) v"
  using assms by (auto dest!: subsetD [OF set_update_subset_insert] intro: hears_mono)

lemma all_hear:
  assumes "service_run cluster_workers s"
  shows "\<forall>w \<in> set (sv_workers s). hears s w"
  using assms
proof (induction rule: service_run.induct)
  case new
  show ?case by (simp add: new_service_def)
next
  case (start s)
  then show ?case by (auto simp: start_threads_def new_worker_def hears_def)
next
  case (stop s)
  then show ?case by (auto simp: stop_threads_def hears_def)
next
  case (prompt s s')
  have ok: "sv_workers s = [] \<or> list_all worker_ok (sv_workers s)"
    using clustering.run_ok [OF prompt(1)] by (auto simp: clustering.service_ok_def clustering.fresh_def)
  from prompt(2) show ?case
  proof cases
    case (thread i w r)
    have v: "worker_ok (sv_workers s ! i)" "hears s (sv_workers s ! i)"
      using ok thread(2) prompt.IH by (auto simp: list_all_length)
    from all_hear_update [OF prompt.IH worker_step_hears [OF v thread(3)] worker_step_ok(6) [OF v(1) thread(3)]]
    show ?thesis using thread(1) by simp
  next
    case (stopping a rest s'')
    then show ?thesis
    proof (cases a)
      case (Notify j)
      have "sv_workers s'' = (sv_workers s)[j := wake False (sv_workers s ! j)]"
        and same: "sv_running s'' = sv_running s" "sv_requested s'' = sv_requested s" "sv_notifying s'' = sv_notifying s"
        using stopping Notify by (auto simp: perform_def)
      then have "\<forall>v \<in> set (sv_workers s''). hears s v" using all_hear_wake [OF prompt.IH] by simp
      with same stopping(1) show ?thesis by (auto intro: hears_mono)
    qed (use prompt.IH in \<open>auto simp: perform_def hears_def split: if_splits\<close>)
  qed
next
  case (woken s s')
  from woken(2) show ?case
  proof cases
    case (woken i t)
    with all_hear_wake [OF woken.IH, of i t] show ?thesis by (auto intro: hears_mono)
  qed
next
  case (request s s')
  have ok: "sv_workers s = [] \<or> list_all worker_ok (sv_workers s)"
    using clustering.run_ok [OF request(1)] by (auto simp: clustering.service_ok_def clustering.fresh_def)
  from request(2) show ?case
  proof cases
    case requested
    then have s': "s' = s\<lparr>sv_requested := True, sv_notifying := sv_notifying s + 1\<rparr>"
      "\<forall>w \<in> set (sv_workers s). listens w \<longrightarrow> \<not> w_holds w" by (auto simp: request_def split: if_splits)
    have "hears s' w" if w: "w \<in> set (sv_workers s)" for w
    proof -
      have v: "worker_ok w" using ok w by (auto simp: list_all_iff)
      have d: "w_phase w \<noteq> Deciding" if c: "w_code w ! w_pc w = Wait_requested"
        using s'(2) w listens_nth [OF v c] v unfolding worker_ok_def by blast
      have "hears s w" using request.IH w by blast
      with d s'(1) show ?thesis by (simp add: hears_def)
    qed
    with s'(1) show ?thesis by simp
  next
    case notified
    have "hears s' (if listens w then wake False w else w)" if w: "w \<in> set (sv_workers s)" for w
    proof -
      have v: "worker_ok w" using ok w by (auto simp: list_all_iff)
      have "hears s w" using request.IH w by blast
      with listens_nth [OF v] notified(1) show ?thesis by (cases "listens w") (auto simp: hears_def notify_request_def)
    qed
    moreover have "sv_workers s' = map (\<lambda>w. if listens w then wake False w else w) (sv_workers s)"
      using notified(1) by (simp add: notify_request_def)
    ultimately show ?thesis by (metis (mono_tags, lifting) imageE list.set_map)
  qed
qed

text \<open>Steps of a thread alone, while the flag \<open>running_\<close> is set.\<close>

fun own_steps :: "nat \<Rightarrow> worker \<times> bool \<Rightarrow> (worker \<times> bool) option" where
  "own_steps 0 x = Some x"
| "own_steps (Suc n) (w, r) = Option.bind (worker_step True r w) (own_steps n)"

lemma rebalance_thread_runs:
  assumes "ph \<in> {Executing, Woken True, Woken False}" and "pc < 7" and "ph \<noteq> Executing \<longrightarrow> pc = 2"
  shows "\<exists>k \<le> 8. \<exists>h. own_steps k (\<lparr>w_code = rebalance_loop, w_pc = pc, w_phase = ph, w_holds = h0\<rparr>, True) =
    Some (\<lparr>w_code = rebalance_loop, w_pc = 6, w_phase = Executing, w_holds = h\<rparr>, False)"
proof -
  let ?run = "\<lambda>k. own_steps k (\<lparr>w_code = rebalance_loop, w_pc = pc, w_phase = ph, w_holds = h0\<rparr>, True) =
    Some (\<lparr>w_code = rebalance_loop, w_pc = 6, w_phase = Executing, w_holds = False\<rparr>, False)"
  note defs = rebalance_loop_def worker_step_def execute_instr_def advance_def Let_def numeral_eq_Suc
  have seven: "pc \<in> {0,1,2,3,4,5,6}" using assms(2) by auto
  consider "ph = Executing" "pc \<in> {0,1,2,3,4,5,6}" | "ph = Woken True" "pc = 2" | "ph = Woken False" "pc = 2"
    using assms(1,3) seven by blast
  then have "?run (if ph = Woken True then 4 else if ph = Woken False then 5 else if pc < 5 then 6 - pc else 13 - pc)"
    by cases (auto simp: defs)
  then show ?thesis
    using assms(2) by (intro exI [of _ "if ph = Woken True then 4 else if ph = Woken False then 5 else if pc < 5 then 6 - pc else 13 - pc"]) auto
qed

text \<open>C32: No rebalance request is lost: once a caller has set the request flag and notified, the
  rebalance thread is not asleep; within eight steps of its own it has taken the request and begins a
  rebalancing pass, whatever it was doing when the request came.\<close>

theorem rebalance_request_is_served:
  assumes "service_run cluster_workers s" and "sv_running s" and "sv_requested s" and "sv_notifying s = 0"
  shows "\<exists>k \<le> 8. \<exists>w. own_steps k (sv_workers s ! 2, True) = Some (w, False)
    \<and> w_phase w = Executing \<and> w_code w ! w_pc w = Call"
proof -
  have ok: "clustering.service_ok s"
    using clustering.run_ok [OF assms(1)] assms(2) by (auto simp: clustering.fresh_def)
  have three: "length (bg_loops cluster_workers) = 3" by (simp add: cluster_workers_def)
  define w where "w = sv_workers s ! 2"
  have "map w_code (sv_workers s) = bg_loops cluster_workers" using ok by (simp add: clustering.service_ok_def)
  then have "map w_code (sv_workers s) ! 2 = rebalance_loop" by (simp add: cluster_workers_def)
  then have code: "w_code w = rebalance_loop" using clustering.length_workers [OF ok] three by (simp add: w_def)
  have w: "worker_ok w" "hears s w"
    using clustering.worker_at [OF ok, of 2] clustering.length_workers [OF ok] three all_hear [OF assms(1)]
    by (simp_all add: w_def)
  have pc: "w_pc w < 7" using w(1) code by (simp add: worker_ok_def rebalance_loop_def)
  have "waits (rebalance_loop ! w_pc w) \<Longrightarrow> w_pc w = 2"
    using pc by (auto simp: rebalance_loop_def waits_def less_Suc_eq numeral_eq_Suc)
  then have at: "w_phase w \<notin> {Executing, Exited} \<Longrightarrow> w_pc w = 2"
    using w(1) code by (cases "w_phase w") (auto simp: worker_ok_def)
  have "rebalance_loop ! 2 = Wait_requested" by (simp add: rebalance_loop_def)
  with w(2) assms code at have "w_phase w \<in> {Executing, Woken True, Woken False}"
    by (cases "w_phase w") (auto simp: hears_def)
  moreover from this at have "w_phase w \<noteq> Executing \<longrightarrow> w_pc w = 2" by auto
  moreover have "w = \<lparr>w_code = rebalance_loop, w_pc = w_pc w, w_phase = w_phase w, w_holds = w_holds w\<rparr>"
    using code by simp
  ultimately obtain k h where "k \<le> 8" "own_steps k (w, True) =
      Some (\<lparr>w_code = rebalance_loop, w_pc = 6, w_phase = Executing, w_holds = h\<rparr>, False)"
    using rebalance_thread_runs [OF _ pc, of "w_phase w" "w_holds w"] by metis
  then show ?thesis by (auto simp: w_def rebalance_loop_def)
qed

theorem rebalance_request_is_served_witness:
  "\<exists>k \<le> 8. \<exists>w. own_steps k (new_worker rebalance_loop, True) = Some (w, False)
    \<and> w_phase w = Executing \<and> w_code w ! w_pc w = Call"
proof -
  define s where "s = start_threads cluster_workers new_service"
  define s' where "s' = s\<lparr>sv_requested := True, sv_notifying := 1\<rparr>"
  have s: "sv_workers s = map new_worker [hint_loop, gossip_loop, rebalance_loop]" "sv_running s" "sv_notifying s = 0"
    by (simp_all add: s_def start_threads_def new_service_def cluster_workers_def)
  have "service_run cluster_workers s" unfolding s_def
    by (intro service_run.start service_run.new) (simp add: new_service_def)
  moreover have "request_step s s'" using s by (intro request_step.requested) (simp add: request_def s'_def new_worker_def)
  moreover have "request_step s' (notify_request s')" by (rule request_step.notified) (simp add: s'_def)
  ultimately have "service_run cluster_workers (notify_request s')" by (blast intro: service_run.request)
  moreover have "sv_workers (notify_request s') ! 2 = new_worker rebalance_loop"
    using s by (simp add: notify_request_def s'_def wake_def new_worker_def)
  ultimately show ?thesis
    using rebalance_request_is_served [of "notify_request s'"] s by (simp add: notify_request_def s'_def)
qed

end
