(* ===== verification/Fuzz.thy ===== *)
theory Fuzz
  imports Command_Parser Peer_Channel
begin

text \<open>
  The fuzz target for untrusted input (src/fuzz/resp_fuzzer.cpp) and the driver that feeds it with
  mutated inputs (standalone_driver.cpp). A failed check aborts the process: the result is
  \<open>None\<close>. The random numbers are an infinite sequence that is read in order, and the corpus
  directory is the list of its files.
\<close>

section \<open>The fuzz target\<close>

text \<open>The loop over pipelined requests; \<open>False\<close> is a failed check.\<close>

function fuzz_requests :: "string \<Rightarrow> nat \<Rightarrow> bool" where
  "fuzz_requests input offset =
     (if offset < length input
      then
        (case parse_request (drop offset input) of
           Ok args consumed \<Rightarrow>
             if \<not> (0 < consumed \<and> consumed \<le> length input - offset) then False
             else if args = [] then fuzz_requests input (offset + consumed)
             else
               (let cmd = parse args;
                    encoded = command args
                in if \<not> (cmd_type cmd \<noteq> CmdUnknown \<or> cmd_error cmd \<noteq> []) then False
                   else
                     (case parse_request encoded of
                        Ok again used \<Rightarrow>
                          if used \<noteq> length encoded then False
                          else if again \<noteq> args then False
                          else fuzz_requests input (offset + consumed)
                      | _ \<Rightarrow> False))
         | _ \<Rightarrow> True)
      else True)"
  by auto
termination
  by (relation "measure (\<lambda>(input, offset). length input - offset)") auto

declare fuzz_requests.simps [simp del]

definition fuzz_one :: "string \<Rightarrow> int option" where
  "fuzz_one input =
     (if fuzz_requests input 0
      then
        (case parse_reply input of
           Ok reply used \<Rightarrow> if 0 < used \<and> used \<le> length input then Some 0 else None
         | _ \<Rightarrow> Some 0)
      else None)"

section \<open>The standalone driver\<close>

type_synonym rng = "nat \<Rightarrow> u64"

definition interesting :: string where
  "interesting = ''*$+-:'' @ crlf @ ''0123456789-SETGETDELPX ''"

definition below :: "u64 \<Rightarrow> nat \<Rightarrow> nat" where
  "below x n = unat x mod n"

text \<open>One mutation: where, and which of the six. It returns the position in the random sequence.\<close>

definition mutate :: "string list \<Rightarrow> rng \<Rightarrow> nat \<times> string \<Rightarrow> nat \<times> string" where
  "mutate corpus r st =
     (let (i, input) = st;
          (i, pos) = (if input = [] then (i, 0) else (i + 1, below (r i) (length input + 1)));
          choice = below (r i) 6;
          i = i + 1
      in if choice = 0 then
           (if input \<noteq> [] \<and> pos < length input then (i + 1, input[pos := char_of (unat (r i))]) else (i, input))
         else if choice = 1 then
           (i + 1, take pos input @ [interesting ! below (r i) (length interesting)] @ drop pos input)
         else if choice = 2 then
           (if pos < length input then (i + 1, take pos input @ drop (pos + 1 + below (r i) 4) input) else (i, input))
         else if choice = 3 then
           (i + 1, take pos input @ take (below (r i) (length input + 1)) input @ drop pos input)
         else if choice = 4 then
           (i + 2, take pos input @ int_to_string (sint (r i) div 2 ^ below (r (i + 1)) 60) @ drop pos input)
         else (i + 1, input @ corpus ! below (r i) (length corpus)))"

definition mutated :: "string list \<Rightarrow> rng \<Rightarrow> nat \<Rightarrow> nat \<times> string" where
  "mutated corpus r i =
     (let input = corpus ! below (r i) (length corpus);
          mutations = 1 + below (r (i + 1)) 8;
          (i, input) = (mutate corpus r ^^ mutations) (i + 2, input)
      in (i, if 65536 < length input then take 65536 input else input))"

fun fuzz_iterations :: "string list \<Rightarrow> rng \<Rightarrow> nat \<Rightarrow> nat \<Rightarrow> bool" where
  "fuzz_iterations corpus r 0 i = True"
| "fuzz_iterations corpus r (Suc n) i =
     (case mutated corpus r i of
        (i, input) \<Rightarrow> if fuzz_one input = None then False else fuzz_iterations corpus r n i)"

definition fuzz_main :: "string list option \<Rightarrow> int \<Rightarrow> rng \<Rightarrow> int option" where
  "fuzz_main dir iterations r =
     (case dir of
        None \<Rightarrow> Some 2
      | Some files \<Rightarrow>
          (let corpus = (if files = [] then [''*1'' @ crlf @ ''$4'' @ crlf @ ''PING'' @ crlf] else files)
           in if list_all (\<lambda>s. fuzz_one s \<noteq> None) corpus \<and> fuzz_iterations corpus r (nat iterations) 0
              then Some 0 else None))"

section \<open>No input fails a check\<close>

lemma inline_words_small: "length (inline_words s) \<le> length s \<and> (\<forall>w \<in> set (inline_words s). length w \<le> length s)"
proof (induction s rule: inline_words.induct)
  case (1 s)
  let ?t = "dropWhile is_blank s" and ?u = "dropWhile (\<lambda>c. \<not> is_blank c) (dropWhile is_blank s)"
  show ?case
  proof (cases "?t = []")
    case False
    have t: "length ?t \<le> length s" by (rule length_dropWhile_le)
    have "\<not> is_blank (hd ?t)" using False by (rule hd_dropWhile)
    then have u: "length ?u < length ?t"
      using False length_dropWhile_le [of "\<lambda>c. \<not> is_blank c" "tl ?t"] by (cases ?t) auto
    have w: "length (takeWhile (\<lambda>c. \<not> is_blank c) ?t) \<le> length ?t" by (rule length_takeWhile_le)
    have eq: "inline_words s = takeWhile (\<lambda>c. \<not> is_blank c) ?t # inline_words ?u"
      using False by (subst inline_words.simps) (simp add: Let_def)
    from 1 [OF refl False] t u have "length (inline_words ?u) < length s"
      "\<And>x. x \<in> set (inline_words ?u) \<Longrightarrow> length x \<le> length s" by fastforce+
    with t w eq show ?thesis by auto
  qed (subst (1 2) inline_words.simps, simp)
qed

lemma request_args_small:
  assumes "parse_request buf = Ok args n" and "length buf \<le> kMaxArrayLength"
  shows "length args \<le> kMaxArrayLength" "\<forall>a \<in> set args. length a \<le> kMaxBulkLength"
proof -
  have "length args \<le> kMaxArrayLength \<and> (\<forall>a \<in> set args. length a \<le> kMaxBulkLength)"
  proof (cases "hd buf = CHR ''*''")
    case True
    with request_Ok [OF assms(1), of "[]"] show ?thesis by simp
  next
    case False
    with assms(1) have "parse_inline buf = Ok args n" by (auto simp: parse_request_def split: if_splits)
    then obtain line where "args = inline_words line" "length line \<le> length buf"
      by (fastforce simp: parse_inline_def Let_def split: if_splits intro: le_trans [OF length_takeWhile_le])
    with inline_words_small [of line] assms(2) show ?thesis
      by (fastforce simp: kMaxArrayLength_def kMaxBulkLength_def)
  qed
  then show "length args \<le> kMaxArrayLength" "\<forall>a \<in> set args. length a \<le> kMaxBulkLength" by auto
qed

lemma fuzz_requests_pass: "length input \<le> kMaxArrayLength \<Longrightarrow> fuzz_requests input offset"
proof (induction input offset rule: fuzz_requests.induct)
  case (1 input offset)
  show ?case
  proof (cases "offset < length input")
    case False
    then show ?thesis by (subst fuzz_requests.simps) simp
  next
    case lt: True
    show ?thesis
    proof (cases "parse_request (drop offset input)")
      case (Ok args consumed)
      have c: "0 < consumed" "consumed \<le> length input - offset"
        using request_Ok [OF Ok, of "[]"] by auto
      have small: "length (drop offset input) \<le> kMaxArrayLength" using 1(3) by simp
      have again: "parse_request (command args) = Ok args (length (command args))"
        using command_framed [OF request_args_small [OF Ok small], of "length (command args)" "[]"] by simp
      have known: "cmd_type (parse args) \<noteq> CmdUnknown \<or> cmd_error (parse args) \<noteq> []"
        using parse_coherent [of args] by (auto simp: coherent_def)
      have "args = [] \<Longrightarrow> fuzz_requests input (offset + consumed)" using 1(1) [OF lt Ok _ _ 1(3)] c by simp
      moreover have "args \<noteq> [] \<Longrightarrow> fuzz_requests input (offset + consumed)"
        using 1(2) [OF lt Ok _ _ refl refl _ again _ _ 1(3)] c known by simp
      ultimately show ?thesis using lt Ok c again known by (subst fuzz_requests.simps) (auto simp: Let_def)
    qed (subst fuzz_requests.simps, simp add: lt)+
  qed
qed

lemma fuzz_one_passes:
  assumes "length input \<le> kMaxArrayLength"
  shows "fuzz_one input = Some 0"
proof -
  have "\<And>v used. parse_reply input = Ok v used \<Longrightarrow> 0 < used \<and> used \<le> length input"
    using parse_reply_Ok(1) [of input _ _ "[]"] by simp
  with fuzz_requests_pass [OF assms, of 0] show ?thesis
    by (auto simp: fuzz_one_def split: ParseStatus.split)
qed

lemma fuzz_iterations_pass: "fuzz_iterations corpus r n i"
proof (induction n arbitrary: i)
  case (Suc n)
  obtain j input where m: "mutated corpus r i = (j, input)" by force
  then have "length input \<le> 65536" by (auto simp: mutated_def Let_def split: prod.splits if_splits)
  then have "fuzz_one input = Some 0" by (intro fuzz_one_passes) (simp add: kMaxArrayLength_def)
  with m Suc show ?case by simp
qed simp

text \<open>C36: Fuzzing cannot find a failure: for every corpus of files of at most a mebibyte, every
  sequence of random numbers and any number of iterations, no check of the fuzz target fails: parsers
  stay within their input and make progress, unknown commands carry an error text, and every request
  the parser accepts is parsed back from its encoding to the same arguments.\<close>

theorem fuzzing_never_aborts:
  assumes "\<forall>file \<in> set files. length file \<le> kMaxArrayLength"
  shows "fuzz_main (Some files) iterations r = Some 0"
proof -
  have "list_all (\<lambda>s. fuzz_one s \<noteq> None) (if files = [] then [''*1'' @ crlf @ ''$4'' @ crlf @ ''PING'' @ crlf] else files)"
    using assms fuzz_one_passes by (auto simp: list_all_iff kMaxArrayLength_def)
  then show ?thesis by (simp add: fuzz_main_def fuzz_iterations_pass Let_def)
qed

theorem fuzzing_never_aborts_witness:
  "fuzz_main (Some [command [''GET'', ''k''], ''PING'']) 1000 (\<lambda>i. of_nat (7 * i)) = Some 0"
  by (rule fuzzing_never_aborts) (simp add: command_alt bulk_alt nat_to_string.simps kMaxArrayLength_def)

text \<open>The bound on the size is needed: an inline request may have more words than an array may have
  elements, and then its encoding is refused.\<close>

lemma inline_words_blank: "is_blank c \<Longrightarrow> inline_words (c # s) = inline_words s"
  by (subst (1 2) inline_words.simps) simp

lemma inline_words_many: "inline_words (concat (replicate n ''a '')) = replicate n ''a''"
proof (induction n)
  case (Suc n)
  then show ?case by (subst inline_words.simps) (simp add: inline_words_blank, simp add: is_blank_def)
qed (simp add: inline_words.simps)

lemma big_inline_request_aborts:
  "fuzz_one (concat (replicate (kMaxArrayLength + 1) ''a '') @ [LF]) = None"
proof -
  define n where "n = kMaxArrayLength"
  define w where "w = concat (replicate (n + 1) ''a '')"
  have set: "set w \<subseteq> {CHR ''a'', CHR '' ''}" by (auto simp: w_def)
  have hd: "w = CHR ''a'' # CHR '' '' # concat (replicate n ''a '')" by (simp add: w_def)
  have tw: "takeWhile (\<lambda>c. c \<noteq> LF) (w @ [LF]) = w"
    using set by (subst takeWhile_append2) auto
  have "last w \<noteq> CR" using set last_in_set [of w] hd by fastforce
  then have p: "parse_request (w @ [LF]) = Ok (replicate (n + 1) ''a'') (length w + 1)"
    using tw inline_words_many [of "n + 1"] by (simp add: parse_request_def parse_inline_def Let_def hd [symmetric])
       (simp add: hd w_def)
  have q: "parse_request (command (replicate (n + 1) ''a'')) = Error ''Protocol error: invalid multibulk length''"
    using crlf_at_append [of "CHR ''*'' # nat_to_string (n + 1)"] parse_int_to_string [of "n + 1"]
    by (simp add: command_alt parse_request_def substr_def n_def kMaxArrayLength_def)
  show ?thesis
    unfolding fuzz_one_def n_def [symmetric] w_def [symmetric]
    by (subst fuzz_requests.simps) (use q in \<open>simp add: p Let_def\<close>)
qed

end
