(* ===== verification/Text_Lines.thy ===== *)
theory Text_Lines
  imports Decimal
begin

text \<open>
  Text in lines: the loop over \<open>std::getline\<close> with a delimiter, as the program uses it on its
  settings (src/src/main.cpp), and text that is built line by line (src/network/metrics_server.cpp).
\<close>

text \<open>What the loop \<open>while (std::getline(in, item, d))\<close> yields: a last item without delimiter
  counts, but nothing follows a delimiter at the end.\<close>

function getlines :: "char \<Rightarrow> string \<Rightarrow> string list" where
  "getlines d s =
     (if s = [] then []
      else takeWhile (\<lambda>c. c \<noteq> d) s #
        (case dropWhile (\<lambda>c. c \<noteq> d) s of [] \<Rightarrow> [] | _ # rest \<Rightarrow> getlines d rest))"
  by auto
termination
proof (relation "measure (\<lambda>(d, s). length s)", goal_cases)
  case (2 d s x rest)
  then show ?case using length_dropWhile_le [of "\<lambda>c. c \<noteq> d" s] by simp
qed simp

declare getlines.simps [simp del]

definition unlines :: "char \<Rightarrow> string list \<Rightarrow> string" where
  "unlines d ls = concat (map (\<lambda>l. l @ [d]) ls)"

lemma unlines_simps [simp]:
  "unlines d [] = []" "unlines d (l # ls) = l @ d # unlines d ls" "unlines d (ls @ ls') = unlines d ls @ unlines d ls'"
  by (simp_all add: unlines_def)

lemma unlines_concat: "unlines d (concat lss) = concat (map (unlines d) lss)"
  by (induction lss) auto

lemma getlines_Nil [simp]: "getlines d [] = []"
  by (simp add: getlines.simps)

lemma getlines_line: "d \<notin> set l \<Longrightarrow> getlines d (l @ d # s) = l # getlines d s"
  by (subst getlines.simps) (auto simp: takeWhile_append dropWhile_append)

lemma getlines_last: "d \<notin> set l \<Longrightarrow> l \<noteq> [] \<Longrightarrow> getlines d l = [l]"
proof -
  assume a: "d \<notin> set l" "l \<noteq> []"
  then have "dropWhile (\<lambda>c. c \<noteq> d) l = []" "takeWhile (\<lambda>c. c \<noteq> d) l = l"
    by (auto simp: dropWhile_eq_Nil_conv takeWhile_eq_all_conv)
  then show ?thesis by (subst getlines.simps) (simp only: a if_False list.case)
qed

lemma getlines_unlines: "\<forall>l \<in> set ls. d \<notin> set l \<Longrightarrow> getlines d (unlines d ls) = ls"
  by (induction ls) (simp_all add: getlines_line)

text \<open>Joining with delimiters in between, as a shell or another program writes a list.\<close>

fun join :: "char \<Rightarrow> string list \<Rightarrow> string" where
  "join d [] = []"
| "join d [l] = l"
| "join d (l # ls) = l @ d # join d ls"

lemma getlines_join:
  "\<forall>l \<in> set ls. d \<notin> set l \<Longrightarrow> ls \<noteq> [] \<Longrightarrow> last ls \<noteq> [] \<Longrightarrow> getlines d (join d ls) = ls"
proof (induction d ls rule: join.induct)
  case (2 d l)
  then show ?case by (simp add: getlines_last)
next
  case (3 d l m ls)
  then show ?case by (simp add: getlines_line)
qed simp

end
