(* ===== verification/Metrics_Server.thy ===== *)
theory Metrics_Server
  imports Command_Handler Text_Lines
begin

text \<open>
  The metrics endpoint (src/network/metrics_server.cpp): the page in the Prometheus text format and
  the answers to HTTP requests. How a floating-point number is printed is an input: the bounds of
  the histogram buckets, a sum of nanoseconds in seconds, and an integer converted to \<open>double\<close>.
  The page is rendered from one state of the handler.
\<close>

section \<open>The page\<close>

abbreviation DQ :: char where
  "DQ \<equiv> CHR 0x22"

record float_texts =
  ft_bound :: "nat \<Rightarrow> string"
  ft_seconds :: "u64 \<Rightarrow> string"
  ft_double :: "int \<Rightarrow> string"

fun command_label :: "CommandType \<Rightarrow> string" where
  "command_label CmdGet = ''get''"
| "command_label CmdSet = ''set''"
| "command_label CmdDelete = ''del''"
| "command_label CmdExists = ''exists''"
| "command_label CmdExpire = ''expire''"
| "command_label CmdTtl = ''ttl''"
| "command_label CmdPttl = ''pttl''"
| "command_label CmdStats = ''info''"
| "command_label CmdPing = ''ping''"
| "command_label CmdEcho = ''echo''"
| "command_label CmdDbSize = ''dbsize''"
| "command_label CmdFlushAll = ''flushall''"
| "command_label CmdCommandDocs = ''command''"
| "command_label CmdConfig = ''config''"
| "command_label CmdSelect = ''select''"
| "command_label CmdClient = ''client''"
| "command_label CmdQuit = ''quit''"
| "command_label CmdReplSet = ''repl_set''"
| "command_label CmdReplDelete = ''repl_del''"
| "command_label CmdReplGet = ''repl_get''"
| "command_label CmdClusterGossip = ''cluster_gossip''"
| "command_label CmdClusterNodes = ''cluster_nodes''"
| "command_label CmdUnknown = ''unknown''"

text \<open>The command types by their number, as the loops count through them.\<close>

definition command_types :: "CommandType list" where
  "command_types =
     [CmdGet, CmdSet, CmdDelete, CmdExists, CmdExpire, CmdTtl, CmdPttl, CmdStats, CmdPing, CmdEcho, CmdDbSize,
      CmdFlushAll, CmdCommandDocs, CmdConfig, CmdSelect, CmdClient, CmdQuit, CmdReplSet, CmdReplDelete,
      CmdReplGet, CmdClusterGossip, CmdClusterNodes, CmdUnknown]"

definition metric :: "string \<Rightarrow> string \<Rightarrow> string \<Rightarrow> string" where
  "metric name type info =
     ''# HELP '' @ name @ '' '' @ info @ [LF] @ ''# TYPE '' @ name @ '' '' @ type @ [LF]"

definition series :: "string \<Rightarrow> CommandType \<Rightarrow> string" where
  "series name t = name @ ''{cmd='' @ [DQ] @ command_label t @ [DQ] @ ''}''"

definition command_counter :: "string \<Rightarrow> (CommandMetrics \<Rightarrow> u64) \<Rightarrow> CommandHandler \<Rightarrow> string" where
  "command_counter name count_of h =
     concat (map (\<lambda>t. let n = count_of (h_metrics h t)
       in if 0 < n then series name t @ '' '' @ u64_to_string n @ [LF] else []) command_types)"

definition duration_bucket :: "CommandType \<Rightarrow> string \<Rightarrow> u64 \<Rightarrow> string" where
  "duration_bucket t le cumulative =
     ''shardcache_command_duration_seconds_bucket{cmd='' @ [DQ] @ command_label t @ [DQ] @ '',le='' @ [DQ] @ le @
     [DQ] @ ''} '' @ u64_to_string cumulative @ [LF]"

fun duration_buckets :: "float_texts \<Rightarrow> CommandType \<Rightarrow> LatencyHistogram \<Rightarrow> nat list \<Rightarrow> u64 \<Rightarrow> string \<times> u64" where
  "duration_buckets ft t h [] cumulative = ([], cumulative)"
| "duration_buckets ft t h (b # bs) cumulative =
     (let cumulative = cumulative + bucket b h
      in case duration_buckets ft t h bs cumulative of
           (out, final) \<Rightarrow> (duration_bucket t (ft_bound ft b) cumulative @ out, final))"

definition durations :: "float_texts \<Rightarrow> CommandHandler \<Rightarrow> string" where
  "durations ft h =
     concat (map (\<lambda>t. let l = cm_latency (h_metrics h t)
       in if histogram_count l = 0 then []
          else (case duration_buckets ft t l [0..<kBuckets] 0 of
                  (out, cumulative) \<Rightarrow>
                    (let cumulative = cumulative + bucket kBuckets l
                     in out @ duration_bucket t ''+Inf'' cumulative @
                        series ''shardcache_command_duration_seconds_sum'' t @ '' '' @
                          ft_seconds ft (striped_value (lh_sum_ns l)) @ [LF] @
                        series ''shardcache_command_duration_seconds_count'' t @ '' '' @
                          u64_to_string cumulative @ [LF])))
       command_types)"

definition counter_line :: "string \<Rightarrow> string \<Rightarrow> u64 \<Rightarrow> string" where
  "counter_line name info v = metric name ''counter'' info @ name @ '' '' @ u64_to_string v @ [LF]"

definition gauge_line :: "float_texts \<Rightarrow> string \<Rightarrow> string \<Rightarrow> int \<Rightarrow> string" where
  "gauge_line ft name info v = metric name ''gauge'' info @ name @ '' '' @ ft_double ft v @ [LF]"

definition node_metrics :: "float_texts \<Rightarrow> CommandHandler \<Rightarrow> string" where
  "node_metrics ft h =
     (let cluster = h_cluster h;
          cache = sharded_totals (cu_local_cache cluster);
          stats = cluster_stats cluster
      in counter_line ''shardcache_cache_hits_total'' ''Local cache lookups that found a live key.'' (m_hits cache) @
         counter_line ''shardcache_cache_misses_total'' ''Local cache lookups that found nothing.'' (m_misses cache) @
         counter_line ''shardcache_cache_evictions_total'' ''Entries evicted by the LRU policy.'' (m_evictions cache) @
         counter_line ''shardcache_cache_expirations_total'' ''Entries removed because their TTL elapsed.''
           (m_expirations cache) @
         gauge_line ft ''shardcache_cache_keys'' ''Live keys stored on this node.''
           (uint (sharded_size (cu_local_cache cluster))) @
         gauge_line ft ''shardcache_cache_capacity'' ''Maximum entries this node stores.''
           (int (sharded_capacity (cu_local_cache cluster))) @
         counter_line ''shardcache_read_quorum_failures_total'' ''Reads that could not reach R replicas.''
           (cs_read_quorum_failures stats) @
         counter_line ''shardcache_write_quorum_failures_total'' ''Writes that could not reach W replicas.''
           (cs_write_quorum_failures stats) @
         counter_line ''shardcache_read_repairs_total'' ''Stale replicas repaired by reads.'' (cs_read_repairs stats) @
         counter_line ''shardcache_hints_delivered_total'' ''Missed writes delivered by hinted handoff.''
           (cs_hints_delivered stats) @
         counter_line ''shardcache_hints_dropped_total'' ''Hints discarded because a queue was full.''
           (cs_hints_dropped stats) @
         counter_line ''shardcache_rebalance_keys_moved_total''
           ''Keys streamed to new owners after membership changes.'' (cs_keys_moved stats) @
         gauge_line ft ''shardcache_hints_pending'' ''Missed writes queued for unreachable replicas.''
           (int (cs_hints_pending stats)) @
         gauge_line ft ''shardcache_cluster_nodes'' (''Nodes in this node'' @ [CHR 0x27] @ ''s ring.'')
           (int (cs_ring_nodes stats)) @
         gauge_line ft ''shardcache_cluster_healthy_nodes'' ''Ring nodes currently passing health checks.''
           (int (cs_healthy_nodes stats)) @
         counter_line ''shardcache_connections_total'' ''Client connections accepted.''
           (striped_value (h_connections_total h)) @
         gauge_line ft ''shardcache_connections_active'' ''Client connections currently open.''
           (sint (h_connections_active h)))"

definition render_metrics :: "float_texts \<Rightarrow> CommandHandler \<Rightarrow> string" where
  "render_metrics ft h =
     metric ''shardcache_commands_total'' ''counter'' ''Commands executed, by command.'' @
     command_counter ''shardcache_commands_total'' (striped_value \<circ> cm_calls) h @
     metric ''shardcache_command_errors_total'' ''counter'' ''Commands answered with an error reply.'' @
     command_counter ''shardcache_command_errors_total'' (striped_value \<circ> cm_errors) h @
     metric ''shardcache_command_duration_seconds'' ''histogram'' ''Command execution time on this node.'' @
     durations ft h @
     node_metrics ft h"

section \<open>HTTP\<close>

text \<open>Reading the next word with \<open>>>\<close>.\<close>

definition read_word :: "string \<Rightarrow> string \<times> string" where
  "read_word s =
     (let t = dropWhile is_space s
      in (takeWhile (\<lambda>c. \<not> is_space c) t, dropWhile (\<lambda>c. \<not> is_space c) t))"

definition respond :: "float_texts \<Rightarrow> string \<Rightarrow> string \<Rightarrow> CommandHandler \<Rightarrow> string" where
  "respond ft method path h =
     (let plain = ''text/plain; version=0.0.4; charset=utf-8'';
          (status, type, body) =
            (if method \<noteq> ''GET'' then (''405 Method Not Allowed'', plain, ''method not allowed'' @ [LF])
             else if path = ''/metrics'' then (''200 OK'', plain, render_metrics ft h)
             else if path = ''/health'' \<or> path = ''/healthz''
             then (''200 OK'', ''text/plain; charset=utf-8'', ''ok'' @ [LF])
             else (''404 Not Found'', plain, ''not found'' @ [LF]))
      in ''HTTP/1.1 '' @ status @ crlf @ ''Content-Type: '' @ type @ crlf @ ''Content-Length: '' @
         nat_to_string (length body) @ crlf @ ''Connection: close'' @ crlf @ crlf @ body)"

text \<open>A request that was read up to its empty line; \<open>None\<close> is a failed read, which is not
  answered.\<close>

definition on_request :: "float_texts \<Rightarrow> string option \<Rightarrow> CommandHandler \<Rightarrow> string option" where
  "on_request ft request h =
     (case request of
        None \<Rightarrow> None
      | Some r \<Rightarrow>
          (let (method, rest) = read_word r;
               (path, rest) = read_word rest
           in Some (respond ft method path h)))"

section \<open>Scraping\<close>

text \<open>How a scraper reads the page: comments and empty lines are skipped, the value of a line follows
  its last space.\<close>

definition sample :: "string \<Rightarrow> (string \<times> string) option" where
  "sample l =
     (if l = [] \<or> hd l = CHR ''#'' then None
      else Some (rev (drop 1 (dropWhile (\<lambda>c. c \<noteq> CHR '' '') (rev l))), rev (takeWhile (\<lambda>c. c \<noteq> CHR '' '') (rev l))))"

definition samples :: "string list \<Rightarrow> (string \<times> string) list" where
  "samples ls = List.map_filter sample ls"

definition scrape :: "string \<Rightarrow> string \<Rightarrow> string option" where
  "scrape page = map_of (samples (getlines LF page))"

definition shown :: "u64 \<Rightarrow> string option" where
  "shown n = (if n = 0 then None else Some (u64_to_string n))"

definition plain_text :: "string \<Rightarrow> bool" where
  "plain_text s \<longleftrightarrow> LF \<notin> set s \<and> CHR '' '' \<notin> set s"

definition texts_ok :: "float_texts \<Rightarrow> bool" where
  "texts_ok ft \<longleftrightarrow> (\<forall>b. plain_text (ft_bound ft b)) \<and> (\<forall>n. plain_text (ft_seconds ft n)) \<and> (\<forall>i. plain_text (ft_double ft i))"

definition base :: "string \<Rightarrow> string" where
  "base k = takeWhile (\<lambda>c. c \<noteq> CHR ''{'') k"

lemma samples_simps [simp]:
  "samples [] = []" "samples (l # ls) = (case sample l of None \<Rightarrow> samples ls | Some x \<Rightarrow> x # samples ls)"
  "samples (ls @ ls') = samples ls @ samples ls'"
  by (simp_all add: samples_def List.map_filter_def split: option.split)

lemma samples_concat: "samples (concat lss) = concat (map samples lss)"
  by (induction lss) auto

lemma sample_line:
  assumes "key \<noteq> []" and "hd key \<noteq> CHR ''#''" and "CHR '' '' \<notin> set v"
  shows "sample (key @ CHR '' '' # v) = Some (key, v)"
proof -
  have "rev (key @ CHR '' '' # v) = rev v @ CHR '' '' # rev key" by simp
  moreover have "takeWhile (\<lambda>c. c \<noteq> CHR '' '') (rev v @ CHR '' '' # rev key) = rev v"
    "dropWhile (\<lambda>c. c \<noteq> CHR '' '') (rev v @ CHR '' '' # rev key) = CHR '' '' # rev key"
    using assms(3) by (auto simp: takeWhile_append dropWhile_append)
  ultimately show ?thesis using assms(1,2) by (simp add: sample_def)
qed

lemma map_of_concat_single:
  assumes "\<forall>u \<in> set ts. map_of (g u) k = (if u = t then r else None)"
  shows "map_of (concat (map g ts)) k = (if t \<in> set ts then r else None)"
  using assms by (induction ts) (auto simp: map_add_def split: option.split)

lemma plain_u64 [simp]: "plain_text (u64_to_string n)"
  using nat_to_string_digits [of LF "unat n"] nat_to_string_digits [of "CHR '' ''" "unat n"]
  by (auto simp: plain_text_def u64_to_string_def is_digit_def)

lemma all_command_types: "t \<in> set command_types"
  by (cases t) (simp_all add: command_types_def)

lemma command_label_inj: "command_label t = command_label u \<longleftrightarrow> t = u"
  by (cases t; cases u; simp)

lemma command_label_plain: "LF \<notin> set (command_label t)" "CHR ''{'' \<notin> set (command_label t)"
  by (cases t; simp)+

lemma series_inj: "series name t = series name u \<longleftrightarrow> t = u"
  by (simp add: series_def command_label_inj)

lemma base_series: "CHR ''{'' \<notin> set name \<Longrightarrow> base (series name t) = name"
  by (simp add: base_def series_def takeWhile_append)

lemma base_differs: "\<forall>(k', v) \<in> set xs. base k' \<noteq> base k \<Longrightarrow> map_of xs k = None"
  by (auto simp: map_of_eq_None_iff)

section \<open>The page in lines\<close>

definition heading :: "string \<Rightarrow> string \<Rightarrow> string \<Rightarrow> string list" where
  "heading name type info = [''# HELP '' @ name @ '' '' @ info, ''# TYPE '' @ name @ '' '' @ type]"

definition counter_lines :: "string \<Rightarrow> (CommandMetrics \<Rightarrow> u64) \<Rightarrow> CommandHandler \<Rightarrow> string list" where
  "counter_lines name count_of h =
     concat (map (\<lambda>t. if count_of (h_metrics h t) = 0 then []
       else [series name t @ '' '' @ u64_to_string (count_of (h_metrics h t))]) command_types)"

lemma metric_lines: "metric name type info = unlines LF (heading name type info)"
  by (simp add: metric_def heading_def)

lemma samples_heading [simp]: "samples (heading name type info) = []"
  by (simp add: heading_def sample_def)

lemma command_counter_lines: "command_counter name f h = unlines LF (counter_lines name f h)"
  unfolding command_counter_def counter_lines_def unlines_concat
  by (rule arg_cong [of _ _ concat]) (simp add: Let_def word_gt_0)

lemma scrape_counter:
  assumes "name \<noteq> []" and "hd name \<noteq> CHR ''#''"
  shows "map_of (samples (counter_lines name f h)) (series name t) = shown (f (h_metrics h t))"
proof -
  have "sample (series name u @ CHR '' '' # u64_to_string n) = Some (series name u, u64_to_string n)" for u n
    using assms plain_u64 [of n] by (intro sample_line) (auto simp: series_def plain_text_def)
  then have s: "samples (counter_lines name f h) = concat (map (\<lambda>u. if f (h_metrics h u) = 0 then []
      else [(series name u, u64_to_string (f (h_metrics h u)))]) command_types)"
    by (simp add: counter_lines_def samples_concat comp_def if_distrib cong: if_cong)
  show ?thesis unfolding s
    by (subst map_of_concat_single [where t = t and r = "shown (f (h_metrics h t))"])
      (auto simp: all_command_types shown_def series_inj)
qed

lemma counter_lines_other:
  assumes "name \<noteq> []" and "hd name \<noteq> CHR ''#''" and "CHR ''{'' \<notin> set name" and "CHR ''{'' \<notin> set other" and "other \<noteq> name"
  shows "map_of (samples (counter_lines name f h)) (series other t) = None"
proof (rule base_differs)
  have "sample (series name u @ CHR '' '' # u64_to_string n) = Some (series name u, u64_to_string n)" for u n
    using assms plain_u64 [of n] by (intro sample_line) (auto simp: series_def plain_text_def)
  then show "\<forall>(k', v) \<in> set (samples (counter_lines name f h)). base k' \<noteq> base (series other t)"
    using assms by (auto simp: counter_lines_def samples_concat base_series split: if_splits)
qed

text \<open>Parts of the page with no sample of a given name.\<close>

definition other_lines :: "string set \<Rightarrow> string list \<Rightarrow> bool" where
  "other_lines names ls \<longleftrightarrow> (\<forall>l \<in> set ls. LF \<notin> set l) \<and> (\<forall>(k, v) \<in> set (samples ls). base k \<notin> names)"

lemma other_lines_append: "other_lines names (ls @ ls') \<longleftrightarrow> other_lines names ls \<and> other_lines names ls'"
  by (auto simp: other_lines_def)

lemma other_lines_single:
  assumes "LF \<notin> set name" "LF \<notin> set type" "LF \<notin> set info" "CHR ''{'' \<notin> set name" "name \<noteq> []" "hd name \<noteq> CHR ''#''"
    "name \<notin> names" "plain_text v"
  shows "other_lines names (heading name type info @ [name @ CHR '' '' # v])"
proof -
  have "sample (name @ CHR '' '' # v) = Some (name, v)" using assms by (intro sample_line) (auto simp: plain_text_def)
  moreover have "base name = name" using assms(4) by (auto simp: base_def takeWhile_eq_all_conv)
  ultimately show ?thesis using assms by (auto simp: other_lines_def heading_def plain_text_def sample_def)
qed

definition labelled :: "string set" where
  "labelled = {''shardcache_commands_total'', ''shardcache_command_errors_total'',
     ''shardcache_command_duration_seconds_count''}"

definition other_text :: "string \<Rightarrow> bool" where
  "other_text s \<longleftrightarrow> (\<exists>ls. s = unlines LF ls \<and> other_lines labelled ls)"

lemma other_text_append: "other_text s \<Longrightarrow> other_text s' \<Longrightarrow> other_text (s @ s')"
  unfolding other_text_def by (metis other_lines_append unlines_simps(3))

lemma other_text_counter:
  assumes "LF \<notin> set name" "LF \<notin> set info" "CHR ''{'' \<notin> set name" "name \<noteq> []" "hd name \<noteq> CHR ''#''" "name \<notin> labelled"
  shows "other_text (counter_line name info v)"
  unfolding other_text_def
  using other_lines_single [of name "''counter''" info labelled "u64_to_string v"] assms
  by (intro exI [of _ "heading name ''counter'' info @ [name @ CHR '' '' # u64_to_string v]"])
    (simp add: counter_line_def metric_lines)

lemma other_text_gauge:
  assumes "LF \<notin> set name" "LF \<notin> set info" "CHR ''{'' \<notin> set name" "name \<noteq> []" "hd name \<noteq> CHR ''#''" "name \<notin> labelled"
    and "texts_ok ft"
  shows "other_text (gauge_line ft name info v)"
  unfolding other_text_def
  using other_lines_single [of name "''gauge''" info labelled "ft_double ft v"] assms
  by (intro exI [of _ "heading name ''gauge'' info @ [name @ CHR '' '' # ft_double ft v]"])
    (simp add: gauge_line_def metric_lines texts_ok_def)

lemma node_metrics_other: "texts_ok ft \<Longrightarrow> other_text (node_metrics ft h)"
  unfolding node_metrics_def Let_def
  by (intro other_text_append other_text_counter other_text_gauge) (simp_all add: labelled_def)

text \<open>The histogram: the last cumulative value is the number of observations.\<close>

fun bucket_lines :: "float_texts \<Rightarrow> CommandType \<Rightarrow> LatencyHistogram \<Rightarrow> nat list \<Rightarrow> u64 \<Rightarrow> string list" where
  "bucket_lines ft t h [] c = []"
| "bucket_lines ft t h (b # bs) c = butlast (duration_bucket t (ft_bound ft b) (c + bucket b h)) # bucket_lines ft t h bs (c + bucket b h)"

lemma duration_bucket_line:
  "duration_bucket t le n = butlast (duration_bucket t le n) @ [LF]"
  by (simp add: duration_bucket_def butlast_append)

lemma duration_buckets_lines:
  "duration_buckets ft t h bs c = (unlines LF (bucket_lines ft t h bs c), c + sum_list (map (\<lambda>b. bucket b h) bs))"
proof (induction bs arbitrary: c)
  case (Cons b bs)
  have "duration_bucket t (ft_bound ft b) n @ u = butlast (duration_bucket t (ft_bound ft b) n) @ LF # u" for n u
    by (subst duration_bucket_line) simp
  with Cons show ?case by (simp add: Let_def add.assoc)
qed simp

lemma histogram_count_sum:
  assumes "histogram_wf h"
  shows "histogram_count h = sum_list (map (\<lambda>b. bucket b h) [0..<kBuckets]) + bucket kBuckets h"
proof -
  have "map ((!) (lh_buckets h)) [0..<Suc kBuckets] = lh_buckets h"
    using map_nth [of "lh_buckets h"] assms by (simp add: histogram_wf_def)
  then have "map striped_value (lh_buckets h) = map (\<lambda>b. bucket b h) [0..<Suc kBuckets]"
    by (simp only: bucket_def list.map_comp comp_def flip: list.map_comp)
      (metis (mono_tags, lifting) list.map_comp comp_def map_eq_conv)
  then show ?thesis by (simp add: histogram_count_def foldl_plus)
qed

definition duration_lines :: "float_texts \<Rightarrow> CommandHandler \<Rightarrow> CommandType \<Rightarrow> string list" where
  "duration_lines ft h t =
     (let l = cm_latency (h_metrics h t)
      in if histogram_count l = 0 then []
         else bucket_lines ft t l [0..<kBuckets] 0 @
           [butlast (duration_bucket t ''+Inf'' (histogram_count l)),
            series ''shardcache_command_duration_seconds_sum'' t @ CHR '' '' # ft_seconds ft (striped_value (lh_sum_ns l)),
            series ''shardcache_command_duration_seconds_count'' t @ CHR '' '' # u64_to_string (histogram_count l)])"

lemma durations_lines:
  assumes "\<forall>t. metrics_wf (h_metrics h t)"
  shows "durations ft h = unlines LF (concat (map (duration_lines ft h) command_types))"
proof -
  have b: "duration_bucket t le n @ u = butlast (duration_bucket t le n) @ LF # u" for t le n u
    by (subst duration_bucket_line) simp
  have "histogram_wf (cm_latency (h_metrics h t))" for t using assms by (simp add: metrics_wf_def)
  note c = histogram_count_sum [OF this, symmetric]
  have "(let l = cm_latency (h_metrics h t)
       in if histogram_count l = 0 then []
          else (case duration_buckets ft t l [0..<kBuckets] 0 of
                  (out, cumulative) \<Rightarrow>
                    (let cumulative = cumulative + bucket kBuckets l
                     in out @ duration_bucket t ''+Inf'' cumulative @
                        series ''shardcache_command_duration_seconds_sum'' t @ '' '' @
                          ft_seconds ft (striped_value (lh_sum_ns l)) @ [LF] @
                        series ''shardcache_command_duration_seconds_count'' t @ '' '' @
                          u64_to_string cumulative @ [LF]))) = unlines LF (duration_lines ft h t)" for t
    unfolding Let_def duration_lines_def duration_buckets_lines prod.case add_0 c b by simp
  then show ?thesis unfolding durations_def unlines_concat by (simp only: list.map_comp comp_def)
qed

section \<open>What a scrape shows\<close>

definition bucket_key :: "CommandType \<Rightarrow> string \<Rightarrow> string" where
  "bucket_key t le = ''shardcache_command_duration_seconds_bucket{cmd='' @ [DQ] @ command_label t @ [DQ] @
     '',le='' @ [DQ] @ le @ [DQ] @ ''}''"

lemma bucket_line: "butlast (duration_bucket t le n) = bucket_key t le @ CHR '' '' # u64_to_string n"
  by (simp add: duration_bucket_def bucket_key_def butlast_append)

lemma base_bucket: "base (bucket_key t le) = ''shardcache_command_duration_seconds_bucket''"
  by (simp add: base_def bucket_key_def)

lemma sample_bucket: "sample (butlast (duration_bucket t le n)) = Some (bucket_key t le, u64_to_string n)"
  unfolding bucket_line using plain_u64 [of n] by (intro sample_line) (auto simp: bucket_key_def plain_text_def)

lemma samples_bucket_lines:
  "\<forall>(k, v) \<in> set (samples (bucket_lines ft t h bs c)). base k = ''shardcache_command_duration_seconds_bucket''"
  by (induction bs arbitrary: c) (auto simp: sample_bucket base_bucket)

lemma sample_series:
  assumes "name \<noteq> []" and "hd name \<noteq> CHR ''#''" and "plain_text v"
  shows "sample (series name t @ CHR '' '' # v) = Some (series name t, v)"
  using assms by (intro sample_line) (auto simp: series_def plain_text_def)

lemma scrape_duration:
  assumes "texts_ok ft" and "name \<in> labelled"
  shows "map_of (samples (duration_lines ft h u)) (series name t) =
    (if u = t \<and> name = ''shardcache_command_duration_seconds_count''
     then shown (histogram_count (cm_latency (h_metrics h t))) else None)"
proof -
  have name: "CHR ''{'' \<notin> set name" "name \<noteq> ''shardcache_command_duration_seconds_bucket''"
    "name \<noteq> ''shardcache_command_duration_seconds_sum''" using assms(2) by (auto simp: labelled_def)
  have other: "CHR ''{'' \<notin> set n \<Longrightarrow> n \<noteq> name \<Longrightarrow> series n v \<noteq> series name t" for n v
    using base_series [of n v] base_series [OF name(1), of t] by metis
  let ?count = "''shardcache_command_duration_seconds_count''" and ?sum = "''shardcache_command_duration_seconds_sum''"
  have b: "map_of (samples (bucket_lines ft u l bs c)) (series name t) = None" for l bs c
    using samples_bucket_lines [of ft u l bs c] base_series [OF name(1), of t] name(2)
    by (intro base_differs) fastforce
  have kb: "series name t \<noteq> bucket_key u le" for le
    using base_bucket [of u le] base_series [OF name(1), of t] name(2) by metis
  have ks: "series name t \<noteq> series ?sum u" using other [of ?sum u] name(3) by auto
  have kc: "series name t = series ?count u \<longleftrightarrow> u = t \<and> name = ?count"
    using other [of ?count u] series_inj [of name t u] by (cases "name = ?count") auto
  let ?l = "cm_latency (h_metrics h u)"
  have s: "samples (duration_lines ft h u) = (if histogram_count ?l = 0 then []
      else samples (bucket_lines ft u ?l [0..<kBuckets] 0) @
        [(bucket_key u ''+Inf'', u64_to_string (histogram_count ?l)),
         (series ?sum u, ft_seconds ft (striped_value (lh_sum_ns ?l))),
         (series ?count u, u64_to_string (histogram_count ?l))])"
    using assms(1) by (simp add: duration_lines_def Let_def sample_bucket sample_series texts_ok_def)
  have m: "map_of (samples (duration_lines ft h u)) (series name t) = (if histogram_count ?l = 0 then None
      else if series name t = series ?count u then Some (u64_to_string (histogram_count ?l)) else None)"
    using b kb ks unfolding s by (cases "series name t = series ?count u") (auto simp: map_add_def)
  show ?thesis unfolding m kc by (simp add: shown_def)
qed

lemma line_ends:
  "LF \<notin> set (u64_to_string n)" "texts_ok ft \<Longrightarrow> LF \<notin> set (ft_bound ft b)" "texts_ok ft \<Longrightarrow> LF \<notin> set (ft_seconds ft n)"
  "LF \<notin> set name \<Longrightarrow> LF \<notin> set (series name t)" "LF \<notin> set le \<Longrightarrow> LF \<notin> set (bucket_key t le)"
  using plain_u64 [of n] by (auto simp: plain_text_def texts_ok_def series_def bucket_key_def command_label_plain)

lemma bucket_lines_ends: "texts_ok ft \<Longrightarrow> l \<in> set (bucket_lines ft t h bs c) \<Longrightarrow> LF \<notin> set l"
  by (induction bs arbitrary: c) (auto simp: bucket_line line_ends)

lemma duration_lines_ends: "texts_ok ft \<Longrightarrow> l \<in> set (duration_lines ft h t) \<Longrightarrow> LF \<notin> set l"
  by (auto simp: duration_lines_def Let_def bucket_line line_ends dest: bucket_lines_ends split: if_splits)

lemma counter_lines_ends: "LF \<notin> set name \<Longrightarrow> l \<in> set (counter_lines name f h) \<Longrightarrow> LF \<notin> set l"
  by (auto simp: counter_lines_def line_ends split: if_splits)

definition command_lines :: "float_texts \<Rightarrow> CommandHandler \<Rightarrow> string list" where
  "command_lines ft h =
     heading ''shardcache_commands_total'' ''counter'' ''Commands executed, by command.'' @
     counter_lines ''shardcache_commands_total'' (striped_value \<circ> cm_calls) h @
     heading ''shardcache_command_errors_total'' ''counter'' ''Commands answered with an error reply.'' @
     counter_lines ''shardcache_command_errors_total'' (striped_value \<circ> cm_errors) h @
     heading ''shardcache_command_duration_seconds'' ''histogram'' ''Command execution time on this node.'' @
     concat (map (duration_lines ft h) command_types)"

lemma heading_ends: "LF \<notin> set n \<Longrightarrow> LF \<notin> set t \<Longrightarrow> LF \<notin> set i \<Longrightarrow> l \<in> set (heading n t i) \<Longrightarrow> LF \<notin> set l"
  by (auto simp: heading_def)

lemma command_lines_ends: "texts_ok ft \<Longrightarrow> l \<in> set (command_lines ft h) \<Longrightarrow> LF \<notin> set l"
  unfolding command_lines_def set_append set_concat
  by (elim UnE; (elim UN_E)?) (auto dest!: heading_ends [rotated -1] counter_lines_ends [rotated] duration_lines_ends)

lemma page_lines:
  assumes ft: "texts_ok ft" and wf: "\<forall>t. metrics_wf (h_metrics h t)"
  shows "\<exists>rest. other_lines labelled rest \<and> getlines LF (render_metrics ft h) = command_lines ft h @ rest"
proof -
  obtain rest where r: "node_metrics ft h = unlines LF rest" "other_lines labelled rest"
    using node_metrics_other [OF ft, of h] by (auto simp: other_text_def)
  have page: "render_metrics ft h = unlines LF (command_lines ft h @ rest)"
    unfolding render_metrics_def metric_lines command_counter_lines durations_lines [OF wf] r(1) command_lines_def
      unlines_simps by simp
  have "\<forall>l \<in> set (command_lines ft h @ rest). LF \<notin> set l"
    using r(2) command_lines_ends [OF ft] by (auto simp: other_lines_def)
  with getlines_unlines [OF this] page r(2) show ?thesis by auto
qed

lemma scrape_page:
  assumes ft: "texts_ok ft" and wf: "\<forall>t. metrics_wf (h_metrics h t)"
  shows "scrape (render_metrics ft h) (series ''shardcache_commands_total'' t) = shown (striped_value (cm_calls (h_metrics h t)))"
    and "scrape (render_metrics ft h) (series ''shardcache_command_errors_total'' t) = shown (striped_value (cm_errors (h_metrics h t)))"
    and "scrape (render_metrics ft h) (series ''shardcache_command_duration_seconds_count'' t) =
      shown (histogram_count (cm_latency (h_metrics h t)))"
proof -
  from page_lines [OF assms] obtain rest where rest: "other_lines labelled rest"
    and "getlines LF (render_metrics ft h) = command_lines ft h @ rest" by blast
  then have page: "samples (getlines LF (render_metrics ft h)) =
       samples (counter_lines ''shardcache_commands_total'' (striped_value \<circ> cm_calls) h) @
       samples (counter_lines ''shardcache_command_errors_total'' (striped_value \<circ> cm_errors) h) @
       concat (map (\<lambda>u. samples (duration_lines ft h u)) command_types) @ samples rest"
    by (simp add: command_lines_def samples_concat comp_def)
  have r: "map_of (samples rest) (series name t) = None" if "name \<in> labelled" for name
    using rest that base_series [of name t] by (intro base_differs) (fastforce simp: other_lines_def labelled_def)
  have d: "map_of (concat (map (\<lambda>u. samples (duration_lines ft h u)) command_types)) (series name t) =
      (if name = ''shardcache_command_duration_seconds_count'' then shown (histogram_count (cm_latency (h_metrics h t))) else None)"
    if "name \<in> labelled" for name
    by (subst map_of_concat_single [where t = t and
          r = "if name = ''shardcache_command_duration_seconds_count'' then shown (histogram_count (cm_latency (h_metrics h t))) else None"])
      (auto simp: scrape_duration [OF ft that] all_command_types)
  show "scrape (render_metrics ft h) (series ''shardcache_commands_total'' t) = shown (striped_value (cm_calls (h_metrics h t)))"
    by (simp add: scrape_def page map_add_def r d scrape_counter counter_lines_other labelled_def split: option.split)
  show "scrape (render_metrics ft h) (series ''shardcache_command_errors_total'' t) = shown (striped_value (cm_errors (h_metrics h t)))"
    by (simp add: scrape_def page map_add_def r d scrape_counter counter_lines_other labelled_def split: option.split)
  show "scrape (render_metrics ft h) (series ''shardcache_command_duration_seconds_count'' t) =
      shown (histogram_count (cm_latency (h_metrics h t)))"
    by (simp add: scrape_def page map_add_def r d counter_lines_other labelled_def split: option.split)
qed

section \<open>What an HTTP client gets\<close>

text \<open>A client reads header lines up to the empty one and takes the rest as the body if its length is
  the announced one.\<close>

function read_head :: "string \<Rightarrow> (string list \<times> string) option" where
  "read_head s =
     (case crlf_at s of
        None \<Rightarrow> None
      | Some n \<Rightarrow>
          if n = 0 then Some ([], drop 2 s)
          else map_option (\<lambda>(ls, body). (take n s # ls, body)) (read_head (drop (n + 2) s)))"
  by auto
termination
proof (relation "measure length", goal_cases)
  case (2 s n)
  then show ?case using crlf_at_Some [OF 2(1)] by auto
qed simp

declare read_head.simps [simp del]

definition http_body :: "string \<Rightarrow> string option" where
  "http_body response =
     (case read_head response of
        None \<Rightarrow> None
      | Some (ls, body) \<Rightarrow>
          if ''Content-Length: '' @ nat_to_string (length body) \<in> set ls then Some body else None)"

lemma read_head_line:
  assumes "CR \<notin> set l" and "l \<noteq> []"
  shows "read_head (l @ CR # LF # s) = map_option (\<lambda>(ls, body). (l # ls, body)) (read_head s)"
  using assms crlf_at_append [OF assms(1), of s] by (subst read_head.simps) (simp add: option.map_comp)

lemma read_head_blank: "read_head (CR # LF # s) = Some ([], s)"
  by (subst read_head.simps) simp

lemma metrics_response:
  "\<exists>r. on_request ft (Some (''GET /metrics '' @ headers)) h = Some r \<and> http_body r = Some (render_metrics ft h)"
proof -
  let ?b = "render_metrics ft h"
  have w: "read_word (''GET /metrics '' @ headers) = (''GET'', '' /metrics '' @ headers)"
    "fst (read_word ('' /metrics '' @ headers)) = ''/metrics''"
    by (simp_all add: read_word_def is_space_def)
  have r: "on_request ft (Some (''GET /metrics '' @ headers)) h = Some (''HTTP/1.1 200 OK'' @ crlf @
      ''Content-Type: text/plain; version=0.0.4; charset=utf-8'' @ crlf @
      (''Content-Length: '' @ nat_to_string (length ?b)) @ crlf @ ''Connection: close'' @ crlf @ crlf @ ?b)"
    unfolding on_request_def w option.case prod.case Let_def using w(2)
    by (simp add: respond_def Let_def case_prod_beta del: append_Cons append_Nil)
  have "read_head (''HTTP/1.1 200 OK'' @ crlf @ ''Content-Type: text/plain; version=0.0.4; charset=utf-8'' @ crlf @
      (''Content-Length: '' @ nat_to_string (length ?b)) @ crlf @ ''Connection: close'' @ crlf @ crlf @ ?b) =
    Some ([''HTTP/1.1 200 OK'', ''Content-Type: text/plain; version=0.0.4; charset=utf-8'',
      ''Content-Length: '' @ nat_to_string (length ?b), ''Connection: close''], ?b)"
    using read_head_line [of "''HTTP/1.1 200 OK''"] read_head_line [of "''Connection: close''"]
      read_head_line [of "''Content-Type: text/plain; version=0.0.4; charset=utf-8''"]
      read_head_line [of "''Content-Length: '' @ nat_to_string (length ?b)"]
    by (simp add: read_head_blank)
  with r show ?thesis by (simp only: http_body_def option.case prod.case) simp
qed

text \<open>The counters of a command after it ran.\<close>

lemma execute_metrics:
  assumes wf: "\<forall>t. metrics_wf (h_metrics h t)" and e: "execute he cmd out h = (out', h')"
  shows "\<forall>t. metrics_wf (h_metrics h' t)"
    "striped_value (cm_calls (h_metrics h' t)) =
       striped_value (cm_calls (h_metrics h t)) + (if t = cmd_type cmd then 1 else 0)"
    "histogram_count (cm_latency (h_metrics h' t)) =
       histogram_count (cm_latency (h_metrics h t)) + (if t = cmd_type cmd then 1 else 0)"
    "t \<noteq> cmd_type cmd \<Longrightarrow> h_metrics h' t = h_metrics h t"
proof -
  obtain v c where d: "dispatch he cmd out (h_cluster h) = (out @ reply_bytes v, c)"
    using dispatch_answers [of out he cmd "h_cluster h"] by (auto simp: answered_def) (metis prod.collapse)
  have m: "metrics_wf (h_metrics h (cmd_type cmd))" using wf by blast
  note p = execute_parts [OF d, unfolded Let_def] e stripe_lt [of "he_stripe he"] m wf
  show "\<forall>t. metrics_wf (h_metrics h' t)"
    using p by (auto simp: metrics_wf_def histogram_wf_observe)
  show "striped_value (cm_calls (h_metrics h' t)) =
       striped_value (cm_calls (h_metrics h t)) + (if t = cmd_type cmd then 1 else 0)"
    "histogram_count (cm_latency (h_metrics h' t)) =
       histogram_count (cm_latency (h_metrics h t)) + (if t = cmd_type cmd then 1 else 0)"
    using p by (auto simp: metrics_wf_def striped_value_add histogram_count_observe)
  show "t \<noteq> cmd_type cmd \<Longrightarrow> h_metrics h' t = h_metrics h t" using p by auto
qed


definition plain_floats :: float_texts where
  "plain_floats = \<lparr>ft_bound = nat_to_string, ft_seconds = u64_to_string, ft_double = int_to_string\<rparr>"

lemma plain_floats_ok: "texts_ok plain_floats"
proof -
  have n: "plain_text (nat_to_string n)" for n
    using nat_to_string_digits [of LF n] nat_to_string_digits [of "CHR '' ''" n]
    by (auto simp: plain_text_def is_digit_def)
  then have "plain_text (int_to_string i)" for i by (auto simp: int_to_string_def plain_text_def)
  with n show ?thesis by (simp add: texts_ok_def plain_floats_def)
qed


end
