(* ===== verification/Logging.thy ===== *)
theory Logging
  imports Main
begin

text \<open>
  The logger (src/src/logger.cpp and include/shardcache/logger.hpp): the levels, the filter and the
  text of a line. The local time as text is an input.
\<close>

datatype LogLevel = DEBUG | INFO | WARNING | ERR

text \<open>The levels are compared by their number.\<close>

fun level_number :: "LogLevel \<Rightarrow> nat" where
  "level_number DEBUG = 0"
| "level_number INFO = 1"
| "level_number WARNING = 2"
| "level_number ERR = 3"

instantiation LogLevel :: linorder
begin

definition less_eq_LogLevel :: "LogLevel \<Rightarrow> LogLevel \<Rightarrow> bool" where
  "less_eq_LogLevel a b \<longleftrightarrow> level_number a \<le> level_number b"

definition less_LogLevel :: "LogLevel \<Rightarrow> LogLevel \<Rightarrow> bool" where
  "less_LogLevel a b \<longleftrightarrow> level_number a < level_number b"

instance
proof
  fix a b :: LogLevel
  assume "a \<le> b" "b \<le> a"
  then show "a = b" by (cases a; cases b; simp add: less_eq_LogLevel_def)
qed (auto simp: less_eq_LogLevel_def less_LogLevel_def)

end

record Logger =
  lg_min_level :: LogLevel
  lg_out :: "string list"

definition new_logger :: Logger where
  "new_logger = \<lparr>lg_min_level = INFO, lg_out = []\<rparr>"

definition set_level :: "LogLevel \<Rightarrow> Logger \<Rightarrow> Logger" where
  "set_level level l = l\<lparr>lg_min_level := level\<rparr>"

definition log_enabled :: "LogLevel \<Rightarrow> Logger \<Rightarrow> bool" where
  "log_enabled level l \<longleftrightarrow> lg_min_level l \<le> level"

definition level_text :: "LogLevel \<Rightarrow> string" where
  "level_text level =
     (case level of DEBUG \<Rightarrow> ''DEBUG'' | INFO \<Rightarrow> ''INFO'' | WARNING \<Rightarrow> ''WARN'' | ERR \<Rightarrow> ''ERROR'')"

definition log_line :: "string \<Rightarrow> LogLevel \<Rightarrow> string \<Rightarrow> Logger \<Rightarrow> Logger" where
  "log_line time level message l =
     (if \<not> log_enabled level l then l
      else l\<lparr>lg_out := lg_out l @ [''['' @ time @ ''] ['' @ level_text level @ ''] '' @ message]\<rparr>)"

text \<open>Raising the level only drops lines.\<close>

lemma log_enabled_mono: "log_enabled level (set_level a l) \<Longrightarrow> b \<le> a \<Longrightarrow> log_enabled level (set_level b l)"
  by (auto simp: log_enabled_def set_level_def)

lemma errors_are_logged: "lg_out (log_line time ERR message l) \<noteq> lg_out l"
  by (cases "lg_min_level l") (simp_all add: log_line_def log_enabled_def less_eq_LogLevel_def)

end
