(* ===== verification/Server_Main.thy ===== *)
theory Server_Main
  imports Text_Lines Snapshot Rebalance Logging
begin

text \<open>
  The program itself (src/src/main.cpp): settings from the environment and the command line, the
  cluster built from them, restoring the snapshot before serving, and what a termination signal
  does. \<open>getenv\<close> is a function from names to texts. The value of \<open>std::atoi\<close> on a number
  beyond the range of \<open>int\<close> is undefined and therefore an argument.
\<close>

section \<open>Settings\<close>

type_synonym environment = "string \<Rightarrow> string option"

definition atoi :: "int \<Rightarrow> string \<Rightarrow> int" where
  "atoi beyond s =
     (case strto s of
        None \<Rightarrow> 0
      | Some (neg, n) \<Rightarrow>
          let i = (if neg then - int n else int n)
          in if i < - (2 ^ 31) \<or> 2 ^ 31 \<le> i then beyond else i)"

record settings =
  set_node_id :: string
  set_port :: u16
  set_advertise_host :: string
  set_peers :: string
  set_io_threads :: nat
  set_rpc_threads :: nat
  set_log_level :: LogLevel

text \<open>The environment first, then the arguments of the command line.\<close>

definition read_settings :: "int \<Rightarrow> nat \<Rightarrow> environment \<Rightarrow> string list \<Rightarrow> settings" where
  "read_settings beyond hardware getenv args =
     (let orelse = (\<lambda>name d. case getenv name of Some v \<Rightarrow> v | None \<Rightarrow> d);
          port = (case getenv ''PORT'' of Some v \<Rightarrow> word_of_int (atoi beyond v) | None \<Rightarrow> 7001);
          io = (case getenv ''IO_THREADS'' of Some v \<Rightarrow> nat (max 1 (atoi beyond v)) | None \<Rightarrow> max 1 hardware);
          rpc = (case getenv ''RPC_THREADS'' of Some v \<Rightarrow> nat (max 1 (atoi beyond v)) | None \<Rightarrow> 64);
          level = (case getenv ''LOG_LEVEL'' of
                     Some v \<Rightarrow> if v = ''debug'' then DEBUG else if v = ''warn'' then WARNING
                               else if v = ''error'' then ERR else INFO
                   | None \<Rightarrow> INFO)
      in \<lparr>set_node_id = (if 1 < length args then args ! 1 else orelse ''NODE_ID'' ''nodeA''),
          set_port = (if 0 < length args then word_of_int (atoi beyond (args ! 0)) else port),
          set_advertise_host = orelse ''ADVERTISE_HOST'' ''127.0.0.1'',
          set_peers = (if 2 < length args then args ! 2 else orelse ''CLUSTER_PEERS'' []),
          set_io_threads = io, set_rpc_threads = rpc, set_log_level = level\<rparr>)"

definition env_size :: "int \<Rightarrow> environment \<Rightarrow> string \<Rightarrow> nat \<Rightarrow> nat" where
  "env_size beyond getenv name fallback =
     (case getenv name of Some v \<Rightarrow> nat (max 0 (atoi beyond v)) | None \<Rightarrow> fallback)"

text \<open>\<open>None\<close> is an unknown consistency mode, on which the program ends with status 1.\<close>

definition read_config :: "int \<Rightarrow> environment \<Rightarrow> ClusterConfig option" where
  "read_config beyond getenv =
     (let config = default_config
            \<lparr>cfg_replication_factor := max 1 (env_size beyond getenv ''REPLICATION_FACTOR'' 3),
             cfg_read_quorum := env_size beyond getenv ''READ_QUORUM'' 0,
             cfg_write_quorum := env_size beyond getenv ''WRITE_QUORUM'' 0,
             cfg_cache_capacity := env_size beyond getenv ''CACHE_CAPACITY'' 1000000\<rparr>
      in case getenv ''CONSISTENCY'' of
           None \<Rightarrow> Some config
         | Some m \<Rightarrow>
             if m = ''linearizable'' then Some (config\<lparr>cfg_consistency := Linearizable\<rparr>)
             else if m \<noteq> ''quorum'' then None else Some config)"

section \<open>Peers and seeds\<close>

text \<open>One \<open>std::getline\<close>: the text up to the delimiter and what follows it; at the end of the
  input it fails.\<close>

definition getline :: "char \<Rightarrow> string \<Rightarrow> (string \<times> string) option" where
  "getline d s =
     (if s = [] then None else Some (takeWhile (\<lambda>c. c \<noteq> d) s, drop 1 (dropWhile (\<lambda>c. c \<noteq> d) s)))"

definition read_peer :: "int \<Rightarrow> string \<Rightarrow> CacheNode option" where
  "read_peer beyond item =
     (case getline (CHR '':'') item of None \<Rightarrow> None | Some (p_id, r) \<Rightarrow>
      case getline (CHR '':'') r of None \<Rightarrow> None | Some (p_host, r) \<Rightarrow>
      case getline (CHR 0x0A) r of None \<Rightarrow> None | Some (p_port_str, r) \<Rightarrow>
        Some \<lparr>cn_id = p_id, cn_host = p_host, cn_port = word_of_int (atoi beyond p_port_str)\<rparr>)"

definition register_peer :: "int \<Rightarrow> string \<Rightarrow> string \<Rightarrow> Cluster \<Rightarrow> Cluster" where
  "register_peer beyond node_id item c =
     (case read_peer beyond item of
        None \<Rightarrow> c
      | Some node \<Rightarrow> if cn_id node \<noteq> node_id then cluster_add_node node c else c)"

definition register_peers :: "int \<Rightarrow> string \<Rightarrow> string \<Rightarrow> Cluster \<Rightarrow> Cluster" where
  "register_peers beyond node_id peers c =
     (if peers = [] then c else fold (register_peer beyond node_id) (getlines (CHR '','') peers) c)"

text \<open>A seed is split at its last colon.\<close>

definition read_seed :: "int \<Rightarrow> string \<Rightarrow> (string \<times> u16) option" where
  "read_seed beyond seed =
     (if CHR '':'' \<notin> set seed then None
      else
        (let port = rev (takeWhile (\<lambda>c. c \<noteq> CHR '':'') (rev seed))
         in Some (take (length seed - length port - 1) seed, word_of_int (atoi beyond port))))"

definition join_seeds :: "int \<Rightarrow> environment \<Rightarrow> Cluster \<Rightarrow> Cluster" where
  "join_seeds beyond getenv c =
     (case getenv ''SEEDS'' of
        None \<Rightarrow> c
      | Some seeds \<Rightarrow>
          fold (\<lambda>seed c. case read_seed beyond seed of None \<Rightarrow> c | Some (host, port) \<Rightarrow> add_seed host port c)
            (getlines (CHR '','') seeds) c)"

section \<open>Start and termination\<close>

definition snapshot_path :: "environment \<Rightarrow> string" where
  "snapshot_path getenv = (case getenv ''SNAPSHOT_PATH'' of Some v \<Rightarrow> v | None \<Rightarrow> [])"

definition snapshot_interval :: "int \<Rightarrow> environment \<Rightarrow> int" where
  "snapshot_interval beyond getenv =
     (case getenv ''SNAPSHOT_INTERVAL_SEC'' of Some v \<Rightarrow> max 1 (atoi beyond v) | None \<Rightarrow> 60)"

text \<open>The port of the metrics endpoint; without one in range there is none.\<close>

definition metrics_port :: "int \<Rightarrow> environment \<Rightarrow> u16 \<Rightarrow> u16 option" where
  "metrics_port beyond getenv port =
     (let p = (case getenv ''METRICS_PORT'' of Some v \<Rightarrow> atoi beyond v | None \<Rightarrow> uint port + 2000)
      in if 0 < p \<and> p < 65536 then Some (word_of_int p) else None)"

text \<open>What happens outside the program while it starts: the wall clock for the generation of the
  node and for the snapshot, the steady clock, and the number of processors.\<close>

record start_env =
  sv_beyond :: int
  sv_hardware :: nat
  sv_boot_ms :: u64
  sv_clock :: "nat \<Rightarrow> ticks"
  sv_now :: int

definition startup :: "start_env \<Rightarrow> environment \<Rightarrow> string list \<Rightarrow> files \<Rightarrow> Cluster option" where
  "startup se getenv args fs =
     (let st = read_settings (sv_beyond se) (sv_hardware se) getenv args in
      case read_config (sv_beyond se) getenv of
        None \<Rightarrow> None
      | Some config \<Rightarrow>
          (let local = \<lparr>cn_id = set_node_id st, cn_host = set_advertise_host st, cn_port = set_port st\<rparr>;
               c = new_cluster (sv_boot_ms se) local config;
               c = register_peers (sv_beyond se) (set_node_id st) (set_peers st) c;
               c = join_seeds (sv_beyond se) getenv c;
               path = snapshot_path getenv
           in Some (if path \<noteq> []
                    then c\<lparr>cu_local_cache := snd (load_snapshot (sv_clock se) (sv_now se) (cu_local_cache c) path fs)\<rparr>
                    else c)))"

text \<open>The periodic snapshot, and the handler of the termination signal.\<close>

definition periodic_snapshot ::
    "disk_faults \<Rightarrow> (nat \<Rightarrow> ticks) \<Rightarrow> int \<Rightarrow> environment \<Rightarrow> Cluster \<Rightarrow> files \<Rightarrow> files" where
  "periodic_snapshot faults clock now getenv c fs =
     snd (save_snapshot faults clock now (cu_local_cache c) (snapshot_path getenv) fs)"

definition on_signal ::
    "(string \<Rightarrow> u16 \<Rightarrow> RespValue RequestResult option) \<Rightarrow> rebalance_env \<Rightarrow> disk_faults \<Rightarrow> (nat \<Rightarrow> ticks) \<Rightarrow> int
     \<Rightarrow> environment \<Rightarrow> Cluster \<Rightarrow> files \<Rightarrow> Cluster \<times> files" where
  "on_signal net renv faults clock now getenv c fs =
     (let path = snapshot_path getenv in
      if getenv ''LEAVE_ON_SHUTDOWN'' \<noteq> Some ''0''
      then (leave net renv c, if path \<noteq> [] then fs(path := None) else fs)
      else if path \<noteq> [] then (c, periodic_snapshot faults clock now getenv c fs)
      else (c, fs))"

section \<open>Reading what was written\<close>

text \<open>How a peer and a list of peers are written in the settings.\<close>

definition node_text :: "CacheNode \<Rightarrow> string" where
  "node_text n = cn_id n @ '':'' @ cn_host n @ '':'' @ nat_to_string (unat (cn_port n))"

definition plain_name :: "string \<Rightarrow> bool" where
  "plain_name s \<longleftrightarrow> s \<noteq> [] \<and> CHR '':'' \<notin> set s \<and> CHR '','' \<notin> set s"

lemma digits_only: "\<not> is_digit c \<Longrightarrow> c \<notin> set (nat_to_string n)"
  using nat_to_string_digits by blast

lemma getline_at: "d \<notin> set l \<Longrightarrow> getline d (l @ d # r) = Some (l, r)"
  by (simp add: getline_def takeWhile_append dropWhile_append)

lemma atoi_port: "word_of_int (atoi beyond (nat_to_string (unat p))) = (p :: u16)"
proof -
  have "unat p < 2 ^ 16" using unsigned_less [of p] by simp
  then show ?thesis by (simp add: atoi_def strto_to_string)
qed

lemma read_node_text:
  assumes "plain_name (cn_id n)" and "plain_name (cn_host n)"
  shows "read_peer beyond (node_text n) = Some n"
proof -
  let ?p = "nat_to_string (unat (cn_port n))"
  have "CHR 0x0A \<notin> set ?p" by (rule digits_only) (simp add: is_digit_def)
  then have "takeWhile (\<lambda>c. c \<noteq> CHR 0x0A) ?p = ?p" by (simp add: takeWhile_eq_all_conv) blast
  then have "getline (CHR 0x0A) ?p = Some (?p, drop 1 (dropWhile (\<lambda>c. c \<noteq> CHR 0x0A) ?p))" by (simp add: getline_def)
  moreover have "getline (CHR '':'') (node_text n) = Some (cn_id n, cn_host n @ '':'' @ ?p)"
    "getline (CHR '':'') (cn_host n @ '':'' @ ?p) = Some (cn_host n, ?p)"
    using assms getline_at [of "CHR '':''" "cn_id n"] getline_at [of "CHR '':''" "cn_host n"]
    by (simp_all add: node_text_def plain_name_def)
  ultimately show ?thesis by (simp add: read_peer_def atoi_port)
qed

lemma node_text_in_list: "plain_name (cn_id n) \<Longrightarrow> plain_name (cn_host n) \<Longrightarrow> CHR '','' \<notin> set (node_text n) \<and> node_text n \<noteq> []"
  using digits_only [of "CHR '',''" "unat (cn_port n)"] by (simp add: node_text_def plain_name_def is_digit_def)

lemma register_written:
  assumes "\<forall>n \<in> set nodes. plain_name (cn_id n) \<and> plain_name (cn_host n)"
  shows "register_peers beyond self (join (CHR '','') (map node_text nodes)) c =
    fold (\<lambda>n c. if cn_id n \<noteq> self then cluster_add_node n c else c) nodes c"
proof (cases "nodes = []")
  case False
  let ?ls = "map node_text nodes"
  have l: "\<forall>l \<in> set ?ls. CHR '','' \<notin> set l \<and> l \<noteq> []" using assms node_text_in_list by auto
  then have "last ?ls \<noteq> []" using False last_in_set [of ?ls] by auto
  with l False have g: "getlines (CHR '','') (join (CHR '','') ?ls) = ?ls" by (intro getlines_join) auto
  then have "join (CHR '','') ?ls \<noteq> []" using False by auto
  moreover have "fold (register_peer beyond self) (map node_text nodes) c =
      fold (\<lambda>n c. if cn_id n \<noteq> self then cluster_add_node n c else c) nodes c"
    using assms by (induction nodes arbitrary: c) (simp_all add: register_peer_def read_node_text)
  ultimately show ?thesis using g by (simp add: register_peers_def)
qed (simp add: register_peers_def)

section \<open>Nodes with the same peers place keys alike\<close>

definition vnode_points :: "string \<Rightarrow> u32 set" where
  "vnode_points node_id = vnode_hash node_id ` {0..<256}"

text \<open>The points of a ring are exactly those of a set of nodes.\<close>

definition ring_of :: "CacheNode set \<Rightarrow> ConsistentHashRing \<Rightarrow> bool" where
  "ring_of S r \<longleftrightarrow> map_wf (r_ring r) \<and> r_num_vnodes r = 256
     \<and> (\<forall>h n. map_of (r_ring r) h = Some n \<longleftrightarrow> n \<in> S \<and> h \<in> vnode_points (cn_id n))"

lemma ring_of_unique: "ring_of S r \<Longrightarrow> ring_of S r' \<Longrightarrow> r_ring r = r_ring r'"
proof -
  assume r: "ring_of S r" and r': "ring_of S r'"
  then have "map_of (r_ring r) = map_of (r_ring r')"
    unfolding ring_of_def fun_eq_iff by (metis not_None_eq)
  with r r' show ?thesis by (auto simp: ring_of_def intro: map_wf_ext)
qed

lemma ring_of_add:
  assumes r: "ring_of S r" and apart: "\<forall>m \<in> S. vnode_points (cn_id m) \<inter> vnode_points (cn_id n) = {}"
  shows "ring_of (insert n S) (ring_add_node n r)"
proof -
  have wf: "map_wf (r_ring (ring_add_node n r))"
    using r om.inv_fold_upd [of "r_ring r"] by (simp add: ring_of_def ring_add_node_def)
  have "map_of (r_ring (ring_add_node n r)) h = Some m \<longleftrightarrow> m \<in> insert n S \<and> h \<in> vnode_points (cn_id m)" for h m
  proof -
    have p: "vnode_hash (cn_id n) ` {0..<r_num_vnodes r} = vnode_points (cn_id n)"
      using r by (simp add: ring_of_def vnode_points_def)
    have "map_of (r_ring (ring_add_node n r)) h = (if h \<in> vnode_points (cn_id n) then Some n else map_of (r_ring r) h)"
      using r by (subst map_of_ring_add) (simp_all add: ring_of_def p [symmetric])
    then show ?thesis using r apart unfolding ring_of_def by auto
  qed
  with wf r show ?thesis by (simp add: ring_of_def)
qed

lemma ring_of_first: "ring_of {n} (ring_add_node n (new_ring 256))"
  using ring_of_add [of "{}" "new_ring 256" n] by (simp add: ring_of_def new_ring_def map_wf_def)

lemma add_node_parts:
  assumes "map_of (cu_members c) (cn_id n) = None" and "map_of (cu_nodes c) (cn_id n) = None"
  shows "cu_ring (cluster_add_node n c) = ring_add_node n (cu_ring c)"
    "map_of (cu_members (cluster_add_node n c)) x = None \<longleftrightarrow> x \<noteq> cn_id n \<and> map_of (cu_members c) x = None"
    "map_of (cu_nodes (cluster_add_node n c)) x = None \<longleftrightarrow> x \<noteq> cn_id n \<and> map_of (cu_nodes c) x = None"
    "cu_config (cluster_add_node n c) = cu_config c" "local_id (cluster_add_node n c) = local_id c"
    "routing_fresh (cluster_add_node n c)"
  using assms
  by (simp_all add: cluster_add_node_def merge_gossip_def apply_member_def install_member_def Let_def map_of_umap_set)

lemma add_node_cache: "cu_local_cache (cluster_add_node n c) = cu_local_cache c"
  by (simp add: cluster_add_node_def merge_gossip_def apply_member_def install_member_def Let_def
      after_membership_change_def publish_routing_def split: option.split)

text \<open>A cluster after its own node and a set of peers were registered.\<close>

definition configured :: "ClusterConfig \<Rightarrow> string \<Rightarrow> CacheNode set \<Rightarrow> Cluster \<Rightarrow> bool" where
  "configured config self S c \<longleftrightarrow> ring_of S (cu_ring c) \<and> routing_fresh c \<and> cu_config c = config \<and> local_id c = self
     \<and> (\<forall>x. map_of (cu_members c) x = None \<longleftrightarrow> x \<notin> cn_id ` S) \<and> (\<forall>x. map_of (cu_nodes c) x = None \<longleftrightarrow> x \<notin> cn_id ` S)"

lemma configured_new: "configured config (cn_id l) {l} (new_cluster boot l config)"
  using init_common_parts(2,3,4,5) [of boot l config] ring_of_first [of l]
  by (simp add: configured_def new_cluster_def init_common_def publish_routing_def Let_def umap_set_def)

lemma configured_add:
  assumes c: "configured config self S c" and new: "cn_id n \<notin> cn_id ` S"
    and apart: "\<forall>m \<in> S. vnode_points (cn_id m) \<inter> vnode_points (cn_id n) = {}"
  shows "configured config self (insert n S) (cluster_add_node n c)"
proof -
  have none: "map_of (cu_members c) (cn_id n) = None" "map_of (cu_nodes c) (cn_id n) = None"
    using c new by (simp_all add: configured_def)
  note parts = add_node_parts [OF none]
  from c have "ring_of S (cu_ring c)" by (simp add: configured_def)
  from ring_of_add [OF this apart] c parts show ?thesis by (auto simp: configured_def)
qed

lemma configured_fold:
  assumes "configured config (cn_id l) S c" and "distinct (map cn_id nodes)"
    and "\<forall>n \<in> set nodes. n \<noteq> l \<longrightarrow> cn_id n \<notin> cn_id ` S" and "l \<in> S"
    and "\<forall>m \<in> S \<union> set nodes. \<forall>n \<in> S \<union> set nodes. m \<noteq> n \<longrightarrow> vnode_points (cn_id m) \<inter> vnode_points (cn_id n) = {}"
  shows "configured config (cn_id l) (S \<union> set nodes)
    (fold (\<lambda>n c. if cn_id n \<noteq> cn_id l then cluster_add_node n c else c) nodes c)"
  using assms
proof (induction nodes arbitrary: S c)
  case (Cons n nodes)
  show ?case
  proof (cases "n = l")
    case True
    with Cons.prems Cons.IH [of S c] show ?thesis by (simp add: insert_absorb)
  next
    case False
    with Cons.prems have new: "cn_id n \<notin> cn_id ` S" by auto
    then have ne: "cn_id n \<noteq> cn_id l" using Cons.prems(4) by auto
    have "\<forall>m \<in> S. vnode_points (cn_id m) \<inter> vnode_points (cn_id n) = {}"
      using Cons.prems(5) new by (metis Un_iff image_eqI list.set_intros(1))
    then have c: "configured config (cn_id l) (insert n S) (cluster_add_node n c)"
      by (rule configured_add [OF Cons.prems(1) new])
    have "configured config (cn_id l) (insert n S \<union> set nodes)
        (fold (\<lambda>n c. if cn_id n \<noteq> cn_id l then cluster_add_node n c else c) nodes (cluster_add_node n c))"
      using Cons.prems by (intro Cons.IH [OF c]) (auto simp: image_iff)
    with ne show ?thesis by simp
  qed
qed simp

lemma preference_list_same:
  "r_ring r = r_ring r' \<Longrightarrow> preference_list key (new_routing_table r n x) = preference_list key (new_routing_table r' n y)"
  by (simp add: preference_list_def rt_empty_def point_for_def preference_list_at_def rt_node_def new_routing_table_def Let_def)

lemma join_seeds_parts:
  "cu_routing (join_seeds beyond getenv c) = cu_routing c" "cu_ring (join_seeds beyond getenv c) = cu_ring c"
  "cu_config (join_seeds beyond getenv c) = cu_config c" "cu_local_node (join_seeds beyond getenv c) = cu_local_node c"
  "cu_local_cache (join_seeds beyond getenv c) = cu_local_cache c"
proof -
  have "cu_routing (fold (\<lambda>seed c. case read_seed beyond seed of None \<Rightarrow> c | Some (host, port) \<Rightarrow> add_seed host port c) xs c) = cu_routing c
    \<and> cu_ring (fold (\<lambda>seed c. case read_seed beyond seed of None \<Rightarrow> c | Some (host, port) \<Rightarrow> add_seed host port c) xs c) = cu_ring c
    \<and> cu_config (fold (\<lambda>seed c. case read_seed beyond seed of None \<Rightarrow> c | Some (host, port) \<Rightarrow> add_seed host port c) xs c) = cu_config c
    \<and> cu_local_node (fold (\<lambda>seed c. case read_seed beyond seed of None \<Rightarrow> c | Some (host, port) \<Rightarrow> add_seed host port c) xs c) = cu_local_node c
    \<and> cu_local_cache (fold (\<lambda>seed c. case read_seed beyond seed of None \<Rightarrow> c | Some (host, port) \<Rightarrow> add_seed host port c) xs c) = cu_local_cache c" for xs
    by (induction xs arbitrary: c) (auto simp: add_seed_def split: option.split)
  then show "cu_routing (join_seeds beyond getenv c) = cu_routing c" "cu_ring (join_seeds beyond getenv c) = cu_ring c"
    "cu_config (join_seeds beyond getenv c) = cu_config c" "cu_local_node (join_seeds beyond getenv c) = cu_local_node c"
    "cu_local_cache (join_seeds beyond getenv c) = cu_local_cache c"
    by (simp_all add: join_seeds_def split: option.split)
qed

text \<open>A node started for one entry of a list of peers.\<close>

definition runs_as :: "CacheNode \<Rightarrow> CacheNode list \<Rightarrow> environment \<Rightarrow> bool" where
  "runs_as n nodes getenv \<longleftrightarrow> getenv ''NODE_ID'' = Some (cn_id n)
     \<and> getenv ''PORT'' = Some (nat_to_string (unat (cn_port n))) \<and> getenv ''ADVERTISE_HOST'' = Some (cn_host n)
     \<and> getenv ''CLUSTER_PEERS'' = Some (join (CHR '','') (map node_text nodes))"

definition peers_ok :: "CacheNode list \<Rightarrow> bool" where
  "peers_ok nodes \<longleftrightarrow> distinct (map cn_id nodes) \<and> (\<forall>n \<in> set nodes. plain_name (cn_id n) \<and> plain_name (cn_host n))
     \<and> (\<forall>m \<in> set nodes. \<forall>n \<in> set nodes. m \<noteq> n \<longrightarrow> vnode_points (cn_id m) \<inter> vnode_points (cn_id n) = {})"

lemma startup_configured:
  assumes ok: "peers_ok nodes" and n: "n \<in> set nodes" and env: "runs_as n nodes getenv"
    and start: "startup se getenv [] fs = Some c"
  shows "\<exists>config. read_config (sv_beyond se) getenv = Some config
    \<and> routing_table c = new_routing_table (cu_ring c) (cfg_replication_factor config) (cn_id n)
    \<and> ring_of (set nodes) (cu_ring c)"
proof -
  let ?st = "read_settings (sv_beyond se) (sv_hardware se) getenv []"
  have st: "set_node_id ?st = cn_id n" "set_port ?st = cn_port n" "set_advertise_host ?st = cn_host n"
    "set_peers ?st = join (CHR '','') (map node_text nodes)"
    using env by (simp_all add: read_settings_def runs_as_def Let_def atoi_port)
  obtain config where config: "read_config (sv_beyond se) getenv = Some config"
    using start by (auto simp: startup_def Let_def split: option.splits)
  let ?new = "new_cluster (sv_boot_ms se) n config"
  let ?c = "fold (\<lambda>m c. if cn_id m \<noteq> cn_id n then cluster_add_node m c else c) nodes ?new"
  have eta: "\<lparr>cn_id = cn_id n, cn_host = cn_host n, cn_port = cn_port n\<rparr> = n" by simp
  have c: "cu_routing c = cu_routing ?c" "cu_ring c = cu_ring ?c"
    using start register_written [of nodes "sv_beyond se" "cn_id n" ?new] ok
    by (auto simp: startup_def Let_def config st eta peers_ok_def join_seeds_parts split: if_splits)
  have "configured config (cn_id n) ({n} \<union> set nodes) ?c"
  proof (rule configured_fold [OF configured_new])
    show "\<forall>m \<in> set nodes. m \<noteq> n \<longrightarrow> cn_id m \<notin> cn_id ` {n}"
      using ok n by (auto simp: peers_ok_def distinct_map inj_on_def)
  qed (use ok n in \<open>auto simp: peers_ok_def\<close>)
  then have "configured config (cn_id n) (set nodes) ?c" using n by (simp add: insert_absorb)
  with c config show ?thesis by (auto simp: configured_def routing_fresh_def)
qed

text \<open>C24: Nodes that are started with the same list of peers place every key alike: whatever node of
  the list a process runs as, its settings name the same nodes, and as long as the replication factor
  is the same and no two nodes have a virtual node at the same hash, the replicas it computes for a
  key, in their order, are the same on every node. No gossip is needed for that.\<close>

theorem same_peers_same_placement:
  assumes "peers_ok nodes" and "m \<in> set nodes" and "n \<in> set nodes"
    and "runs_as m nodes getenv" and "runs_as n nodes getenv'"
    and "startup se getenv [] fs = Some c" and "startup se' getenv' [] fs' = Some c'"
    and "map_option cfg_replication_factor (read_config (sv_beyond se) getenv) =
      map_option cfg_replication_factor (read_config (sv_beyond se') getenv')"
  shows "cluster_preference_list key c = cluster_preference_list key c'"
proof -
  obtain config where c: "read_config (sv_beyond se) getenv = Some config"
    "routing_table c = new_routing_table (cu_ring c) (cfg_replication_factor config) (cn_id m)"
    "ring_of (set nodes) (cu_ring c)" using startup_configured [OF assms(1,2,4,6)] by blast
  obtain config' where c': "read_config (sv_beyond se') getenv' = Some config'"
    "routing_table c' = new_routing_table (cu_ring c') (cfg_replication_factor config') (cn_id n)"
    "ring_of (set nodes) (cu_ring c')" using startup_configured [OF assms(1,3,5,7)] by blast
  have "cfg_replication_factor config = cfg_replication_factor config'" using assms(8) c(1) c'(1) by simp
  with ring_of_unique [OF c(3) c'(3)] show ?thesis
    by (simp add: cluster_preference_list_def c(2) c'(2) preference_list_same)
qed

text \<open>Without that condition the order of registration decides which node keeps a shared point, and
  every process registers itself first.\<close>

lemma clash_depends_on_order:
  assumes "h \<in> vnode_points (cn_id m)" and "h \<in> vnode_points (cn_id n)" and "m \<noteq> n"
  shows "r_ring (ring_add_node m (ring_add_node n (new_ring 256))) \<noteq>
    r_ring (ring_add_node n (ring_add_node m (new_ring 256)))"
proof -
  have wf: "map_wf (r_ring (ring_add_node x (new_ring 256)))" for x
    by (intro ring_wf_sorted ring_add_node_wf new_ring_wf)
  have "map_of (r_ring (ring_add_node x (ring_add_node y (new_ring 256)))) h = Some x" if "h \<in> vnode_points (cn_id x)" for x y
    using that by (simp add: map_of_ring_add [OF wf] vnode_points_def)
  from this [OF assms(1), of n] this [OF assms(2), of m] assms(3) show ?thesis by auto
qed

section \<open>A restart\<close>

lemma register_cache: "cu_local_cache (register_peers beyond self peers c) = cu_local_cache c"
proof -
  have "cu_local_cache (fold (register_peer beyond self) items c) = cu_local_cache c" for items
    by (induction items arbitrary: c) (simp_all add: register_peer_def add_node_cache split: option.split)
  then show ?thesis by (simp add: register_peers_def)
qed

lemma startup_cache:
  assumes "startup se getenv args fs = Some c" and "read_config (sv_beyond se) getenv = Some config"
    and "snapshot_path getenv = path" and "path \<noteq> []"
  shows "cu_local_cache c = snd (load_snapshot (sv_clock se) (sv_now se)
    (new_sharded_cache (cfg_cache_capacity config) 16 (cfg_tombstone_ttl config)) path fs)"
  using assms
  by (auto simp: startup_def Let_def register_cache join_seeds_parts new_cluster_def init_common_def publish_routing_def)

text \<open>C19: A node that is stopped without leaving the cluster comes back with its data. With a snapshot
  path and \<open>LEAVE_ON_SHUTDOWN=0\<close>, whatever requests its cache has served, if the save on the
  termination signal succeeds then after the next start with the same settings every key that was
  visible at the save and has not expired meanwhile is stored again, with its value, version and
  tombstone flag and the rest of its time to live.\<close>

theorem restart_keeps_data:
  assumes config: "read_config (sv_beyond se) getenv = Some config"
    and path: "snapshot_path getenv \<noteq> []" and stay: "getenv ''LEAVE_ON_SHUTDOWN'' = Some ''0''"
    and served: "cu_local_cache c =
      snd (run sharded_step secs (new_sharded_cache (cfg_cache_capacity config) 16 (cfg_tombstone_ttl config)))"
    and storable: "\<forall>p \<in> set (concat (for_each_shard_snapshot clock (cu_local_cache c))). storable now p"
    and small: "length (concat (for_each_shard_snapshot clock (cu_local_cache c))) < 2 ^ 64"
    and saved: "isl (fst (save_snapshot faults clock now (cu_local_cache c) (snapshot_path getenv) fs)) = False"
    and signal: "on_signal net renv faults clock now getenv c fs = (c', fs')"
    and start: "startup se getenv args fs' = Some d"
    and seen: "visible (clock (get_shard_index k (cu_local_cache c))) (sharded_look (cu_local_cache c) k) = Some v"
    and live: "case vv_ttl v of None \<Rightarrow> True | Some t \<Rightarrow> 0 \<le> now + t \<and> sv_now se < now + t"
  shows "\<exists>i. sharded_look (cu_local_cache d) k = Some (entry_of (sv_clock se i) (cfg_tombstone_ttl config)
    (v\<lparr>vv_ttl := if vv_tombstone v then None else map_option (\<lambda>t. now + t - sv_now se) (vv_ttl v)\<rparr>))"
proof -
  obtain stats where s: "save_snapshot faults clock now (cu_local_cache c) (snapshot_path getenv) fs = (Inr stats, fs')"
    using saved signal path stay by (cases "fst (save_snapshot faults clock now (cu_local_cache c) (snapshot_path getenv) fs)")
      (auto simp: on_signal_def periodic_snapshot_def Let_def prod_eq_iff)
  show ?thesis
    unfolding startup_cache [OF start config refl path]
    by (rule restart_restores [OF served storable small s seen live])
qed

section \<open>Examples\<close>

text \<open>The virtual nodes of two nodes, by computation: all but the last digit of a virtual node's name
  decide the upper bits of its hash.\<close>

definition fnv_nat :: "nat \<Rightarrow> char \<Rightarrow> nat" where
  "fnv_nat h c = (h XOR of_char c) * 16777619 mod 2 ^ 32"

lemma unat_fnv: "unat (foldl fnv_step h s) = foldl fnv_nat (unat h) s"
proof (induction s arbitrary: h)
  case (Cons c s)
  have "unat (of_char c :: u32) = unat (of_nat (of_char c) :: u32)" by (simp only: of_nat_of_char)
  also have "\<dots> = of_char c"
  proof -
    have "of_char c < (4294967296 :: nat)" using nat_of_char_less_256 [of c] by linarith
    then show ?thesis by (simp add: unat_of_nat)
  qed
  finally have "unat (fnv_step h c) = fnv_nat (unat h) c"
    by (simp add: fnv_step_def fnv_nat_def unat_word_ariths unsigned_xor_eq)
  with Cons show ?case by simp
qed simp

definition stems :: "string list" where
  "stems = [] # map nat_to_string [1..<26]"

lemma stem: "i < 256 \<Longrightarrow> \<exists>p \<in> set stems. \<exists>d < 10. nat_to_string i = p @ [digit_char d]"
proof (cases "i < 10")
  case True
  then show ?thesis by (auto simp: nat_to_string.simps [of i] stems_def)
next
  case False
  assume "i < 256"
  with False have "1 \<le> i div 10" "i div 10 < 26" by linarith+
  then have "nat_to_string (i div 10) \<in> set stems"
    unfolding stems_def list.set(2) set_map set_upt by (intro insertI2 imageI) simp
  moreover from False have "nat_to_string i = nat_to_string (i div 10) @ [digit_char (i mod 10)]"
    by (simp add: nat_to_string.simps [of i])
  ultimately show ?thesis by (meson mod_less_divisor zero_less_numeral)
qed

lemma upper_bits:
  assumes "d < 10" and "e < 10" and "fnv_step g (digit_char d) = fnv_step h (digit_char e)"
  shows "unat g div 16 = unat h div 16"
proof -
  have "g XOR of_char (digit_char d) = h XOR of_char (digit_char e)"
    using assms(3) unfolding fnv_step_def by (rule mult_cancel_by_inverse [of _ 899433627, rotated]) simp
  then have "drop_bit 4 g XOR drop_bit 4 (of_char (digit_char d)) = drop_bit 4 h XOR drop_bit 4 (of_char (digit_char e) :: u32)"
    by (metis drop_bit_xor)
  moreover have "drop_bit 4 (of_char (digit_char x) :: u32) = 3" if "x < 10" for x
  proof -
    have "x \<in> {0, 1, 2, 3, 4, 5, 6, 7, 8, 9}" using that by auto
    moreover have "(of_char (digit_char x) :: u32) = of_nat (48 + x)"
      using of_char_digit_char [OF that] of_nat_of_char [of "digit_char x", where 'a = u32] by metis
    ultimately show ?thesis by (auto simp: drop_bit_eq_div)
  qed
  ultimately have "drop_bit 4 g = drop_bit 4 h" using assms(1,2) by (simp add: xor_cancel_right)
  then have "unat (g div 16) = unat (h div 16)" by (simp add: drop_bit_eq_div)
  then show ?thesis by (simp add: unat_div)
qed

lemma ab_apart: "vnode_points ''a'' \<inter> vnode_points ''b'' = {}"
proof (rule ccontr)
  assume "vnode_points ''a'' \<inter> vnode_points ''b'' \<noteq> {}"
  then obtain i j where ij: "i < 256" "j < 256" and h: "vnode_hash ''a'' i = vnode_hash ''b'' j"
    by (auto simp: vnode_points_def)
  obtain p d where p: "p \<in> set stems" "d < 10" "nat_to_string i = p @ [digit_char d]" using stem [OF ij(1)] by blast
  obtain q e where q: "q \<in> set stems" "e < 10" "nat_to_string j = q @ [digit_char e]" using stem [OF ij(2)] by blast
  from h have "fnv_step (foldl fnv_step 2166136261 (''a#'' @ p)) (digit_char d) =
      fnv_step (foldl fnv_step 2166136261 (''b#'' @ q)) (digit_char e)"
    by (simp add: vnode_hash_def hash_fn_def murmur_finalizer_inj p(3) q(3))
  from upper_bits [OF p(2) q(2) this]
  have eq: "foldl fnv_nat 2166136261 (''a#'' @ p) div 16 = foldl fnv_nat 2166136261 (''b#'' @ q) div 16"
    by (simp only: unat_fnv) simp
  have st: "stems = [[], ''1'', ''2'', ''3'', ''4'', ''5'', ''6'', ''7'', ''8'', ''9'', ''10'', ''11'', ''12'', ''13'',
      ''14'', ''15'', ''16'', ''17'', ''18'', ''19'', ''20'', ''21'', ''22'', ''23'', ''24'', ''25'']" by code_simp
  have "set (map (\<lambda>p. foldl fnv_nat 2166136261 (''a#'' @ p) div 16) stems) \<inter>
      set (map (\<lambda>p. foldl fnv_nat 2166136261 (''b#'' @ p) div 16) stems) = {}"
    unfolding st by (simp add: fnv_nat_def)
  moreover have "foldl fnv_nat 2166136261 (''a#'' @ p) div 16 \<in> set (map (\<lambda>p. foldl fnv_nat 2166136261 (''a#'' @ p) div 16) stems)"
    unfolding set_map using p(1) by (rule imageI)
  moreover have "foldl fnv_nat 2166136261 (''a#'' @ p) div 16 \<in> set (map (\<lambda>p. foldl fnv_nat 2166136261 (''b#'' @ p) div 16) stems)"
    unfolding set_map eq using q(1) by (rule imageI)
  ultimately show False by blast
qed

definition ab_env :: "CacheNode \<Rightarrow> environment" where
  "ab_env n = [''NODE_ID'' \<mapsto> cn_id n, ''PORT'' \<mapsto> nat_to_string (unat (cn_port n)), ''ADVERTISE_HOST'' \<mapsto> cn_host n,
     ''CLUSTER_PEERS'' \<mapsto> join (CHR '','') (map node_text [node_a, node_b])]"

definition some_start :: start_env where
  "some_start = \<lparr>sv_beyond = 0, sv_hardware = 4, sv_boot_ms = 1000, sv_clock = (\<lambda>_. 0), sv_now = 1000\<rparr>"

lemma startup_Some: "read_config (sv_beyond se) getenv \<noteq> None \<Longrightarrow> startup se getenv args fs = Some (the (startup se getenv args fs))"
  by (auto simp: startup_def Let_def)

theorem same_peers_same_placement_witness:
  "cluster_preference_list ''k'' (the (startup some_start (ab_env node_a) [] (\<lambda>_. None))) =
   cluster_preference_list ''k'' (the (startup some_start (ab_env node_b) [] (\<lambda>_. None)))"
proof (rule same_peers_same_placement)
  have "vnode_points ''b'' \<inter> vnode_points ''a'' = {}" using ab_apart by blast
  with ab_apart show "peers_ok [node_a, node_b]"
    by (simp add: peers_ok_def plain_name_def node_a_def node_b_def)
  have r: "read_config (sv_beyond some_start) (ab_env n) \<noteq> None" for n by (simp add: read_config_def ab_env_def Let_def)
  then show "startup some_start (ab_env node_a) [] (\<lambda>_. None) = Some (the (startup some_start (ab_env node_a) [] (\<lambda>_. None)))"
    "startup some_start (ab_env node_b) [] (\<lambda>_. None) = Some (the (startup some_start (ab_env node_b) [] (\<lambda>_. None)))"
    by (blast intro: startup_Some)+
  show "runs_as node_a [node_a, node_b] (ab_env node_a)" "runs_as node_b [node_a, node_b] (ab_env node_b)"
    by (simp_all add: runs_as_def ab_env_def)
  show "map_option cfg_replication_factor (read_config (sv_beyond some_start) (ab_env node_a)) =
      map_option cfg_replication_factor (read_config (sv_beyond some_start) (ab_env node_b))"
    by (simp add: read_config_def ab_env_def Let_def env_size_def)
qed simp_all

definition stay_env :: environment where
  "stay_env = [''SNAPSHOT_PATH'' \<mapsto> ''f'', ''LEAVE_ON_SHUTDOWN'' \<mapsto> ''0'']"

definition one_key_node :: Cluster where
  "one_key_node =
     (new_cluster 1 node_a (default_config\<lparr>cfg_cache_capacity := 1000000\<rparr>))\<lparr>cu_local_cache := one_key_cache 1000000 16\<rparr>"

definition no_faults :: disk_faults where
  "no_faults = \<lparr>df_open_fails = False, df_write_fails = None, df_rename_fails = False\<rparr>"

definition no_peer :: rebalance_env where
  "no_peer = \<lparr>rb_clock = (\<lambda>_. 0), rb_now = 0, rb_net = (\<lambda>_ _. None)\<rparr>"

theorem restart_keeps_data_witness:
  "\<exists>i. sharded_look (cu_local_cache (the (startup some_start stay_env []
       (snd (on_signal (\<lambda>_ _. None) no_peer no_faults (\<lambda>_. 5) 500 stay_env one_key_node (\<lambda>_. None)))))) ''k'' =
     Some (entry_of (sv_clock some_start i) 60000 one_value_at)"
proof -
  let ?sig = "on_signal (\<lambda>_ _. None) no_peer no_faults (\<lambda>_. 5) 500 stay_env one_key_node (\<lambda>_. None)"
  let ?config = "default_config\<lparr>cfg_cache_capacity := 1000000\<rparr>"
  have config: "read_config (sv_beyond some_start) stay_env = Some ?config"
    by (simp add: read_config_def stay_env_def env_size_def default_config_def)
  have path: "snapshot_path stay_env \<noteq> []" "stay_env ''LEAVE_ON_SHUTDOWN'' = Some ''0''"
    by (simp_all add: snapshot_path_def stay_env_def)
  have cache: "cu_local_cache one_key_node = one_key_cache 1000000 16" by (simp add: one_key_node_def)
  have tt: "cfg_cache_capacity ?config = 1000000" "cfg_tombstone_ttl ?config = 60000" by (simp_all add: default_config_def)
  have served: "cu_local_cache one_key_node = snd (run sharded_step [(0, OpSet 0 ''k'' ''v'' None)]
      (new_sharded_cache (cfg_cache_capacity ?config) 16 (cfg_tombstone_ttl ?config)))"
    unfolding cache tt by (rule one_key_cache) simp
  have store: "\<forall>p \<in> set (concat (for_each_shard_snapshot (\<lambda>_. 5) (cu_local_cache one_key_node))). storable 500 p"
    unfolding cache using one_key_cache(3) [of 16 1000000] by (simp add: storable_def one_value_at_def del: set_concat)
  have small: "length (concat (for_each_shard_snapshot (\<lambda>_. 5) (cu_local_cache one_key_node))) < 2 ^ 64"
    unfolding cache using one_key_cache(4) [of 16 1000000] by (simp del: length_concat)
  have saved: "isl (fst (save_snapshot no_faults (\<lambda>_. 5) 500 (cu_local_cache one_key_node) (snapshot_path stay_env) (\<lambda>_. None))) = False"
    by (simp add: save_snapshot_def no_faults_def Let_def)
  have start: "startup some_start stay_env [] (snd ?sig) = Some (the (startup some_start stay_env [] (snd ?sig)))"
    using config by (intro startup_Some) simp
  have seen: "visible 5 (sharded_look (cu_local_cache one_key_node) ''k'') = Some one_value_at"
    unfolding cache by (rule one_key_cache) simp
  have live: "case vv_ttl one_value_at of None \<Rightarrow> True | Some t \<Rightarrow> 0 \<le> 500 + t \<and> sv_now some_start < 500 + t"
    by (simp add: one_value_at_def)
  from restart_keeps_data [OF config path served store small saved prod.collapse [symmetric] start seen live]
  show ?thesis by (simp add: tt one_value_at_def)
qed

end
