(* ===== verification/Tcp_Server.thy ===== *)
theory Tcp_Server
  imports Session
begin

text \<open>
  The listener (src/network/tcp_server.cpp) and the pool of I/O contexts it spreads connections over
  (io_context_pool.cpp). Running the contexts on threads is left out; a context is its number.
\<close>

section \<open>The pool\<close>

record IoContextPool =
  io_contexts :: nat
  io_next :: u64

definition new_io_pool :: "nat \<Rightarrow> IoContextPool" where
  "new_io_pool n = \<lparr>io_contexts = (if n = 0 then 1 else n), io_next = 0\<rparr>"

definition next_context :: "IoContextPool \<Rightarrow> nat \<times> IoContextPool" where
  "next_context p = (unat (io_next p) mod io_contexts p, p\<lparr>io_next := io_next p + 1\<rparr>)"

section \<open>The server\<close>

text \<open>The connection that is being accepted has its context already; \<open>None\<close> is the context of the
  acceptor itself, which is used without a pool.\<close>

record TCPServer =
  ts_pool :: "IoContextPool option"
  ts_target :: "nat option"
  ts_handler :: CommandHandler
  ts_sessions :: "(nat option \<times> ClientSession) list"
  ts_errors :: "string list"

definition start_accept :: "TCPServer \<Rightarrow> TCPServer" where
  "start_accept s =
     (case ts_pool s of
        None \<Rightarrow> s\<lparr>ts_target := None\<rparr>
      | Some p \<Rightarrow> (case next_context p of (i, p) \<Rightarrow> s\<lparr>ts_pool := Some p, ts_target := Some i\<rparr>))"

definition new_server :: "IoContextPool option \<Rightarrow> Cluster \<Rightarrow> TCPServer" where
  "new_server pool c =
     start_accept \<lparr>ts_pool = pool, ts_target = None, ts_handler = new_command_handler c, ts_sessions = [], ts_errors = []\<rparr>"

text \<open>The completion of an accept, with the message of its error, if any, and the stripe of the thread
  that counts the connection.\<close>

definition on_accept :: "string option \<Rightarrow> nat \<Rightarrow> TCPServer \<Rightarrow> TCPServer" where
  "on_accept ec mine s =
     start_accept
       (case ec of
          None \<Rightarrow> s\<lparr>ts_sessions := ts_sessions s @ [(ts_target s, new_session)],
                    ts_handler := connection_opened mine (ts_handler s)\<rparr>
        | Some msg \<Rightarrow> s\<lparr>ts_errors := ts_errors s @ [''Accept error: '' @ msg]\<rparr>)"

section \<open>Connections are spread evenly\<close>

lemma turns_of_context:
  assumes "i < k"
  shows "length (filter (\<lambda>j. j mod k = i) [0..<n]) = (n + (k - 1 - i)) div k"
proof (induction n)
  case 0
  then show ?case using assms by simp
next
  case (Suc n)
  have "Suc (n + (k - 1 - i)) mod k = 0 \<longleftrightarrow> n mod k = i"
  proof -
    have "Suc (n + (k - 1 - i)) = n + (k - i)" using assms by simp
    then have "Suc (n + (k - 1 - i)) mod k = (n mod k + (k - i)) mod k" by (simp only: mod_add_left_eq)
    moreover have "(r + (k - i)) mod k = 0 \<longleftrightarrow> r = i" if "r < k" for r
    proof (cases "r < i")
      case True
      then have "0 < r + (k - i)" "r + (k - i) < k" using assms by auto
      with True mod_less [of "r + (k - i)" k] show ?thesis by (metis less_irrefl)
    next
      case False
      then have "r + (k - i) = (r - i) + k" using assms by simp
      then have "(r + (k - i)) mod k = r - i" using that by (simp only: mod_add_self2) simp
      with False show ?thesis by linarith
    qed
    ultimately show ?thesis using assms by simp
  qed
  with Suc show ?case by (simp add: div_Suc)
qed

definition accepts :: "nat list \<Rightarrow> TCPServer \<Rightarrow> TCPServer" where
  "accepts mines s = fold (on_accept None) mines s"

lemma accepts_spread:
  assumes "length mines < 2 ^ 64 - 1" and "0 < k"
  shows "accepts mines (new_server (Some (new_io_pool k)) c) =
    \<lparr>ts_pool = Some \<lparr>io_contexts = k, io_next = of_nat (length mines + 1)\<rparr>, ts_target = Some (length mines mod k),
     ts_handler = fold connection_opened mines (new_command_handler c),
     ts_sessions = map (\<lambda>j. (Some (j mod k), new_session)) [0..<length mines], ts_errors = []\<rparr>"
  using assms(1)
proof (induction mines rule: rev_induct)
  case Nil
  then show ?case using assms(2)
    by (simp add: accepts_def new_server_def start_accept_def next_context_def new_io_pool_def)
next
  case (snoc m mines)
  have "unat (of_nat (length mines + 1) :: u64) = length mines + 1"
    using snoc.prems by (simp add: unat_of_nat del: of_nat_add of_nat_Suc)
  with snoc show ?case
    by (simp add: accepts_def on_accept_def start_accept_def next_context_def add.commute)
qed

lemma opened_total:
  assumes "length (h_connections_total h) = kStripes" and "\<forall>m \<in> set mines. m < kStripes"
  shows "striped_value (h_connections_total (fold connection_opened mines h)) =
      striped_value (h_connections_total h) + of_nat (length mines)"
    "h_connections_active (fold connection_opened mines h) = h_connections_active h + of_nat (length mines)"
  using assms
  by (induction mines arbitrary: h) (simp_all add: connection_opened_def striped_value_add algebra_simps)

text \<open>Connections are spread evenly over the I/O contexts: after any number of accepted connections
  that a 64-bit counter holds, each of the \<open>k\<close> contexts serves its k-th part of them, rounded down or up, and the
  counters show that number.\<close>

theorem connections_spread_evenly:
  assumes "length mines < 2 ^ 64 - 1" and "\<forall>m \<in> set mines. m < kStripes" and "0 < k" and "i < k"
  shows "let s = accepts mines (new_server (Some (new_io_pool k)) c);
      load = length (filter (\<lambda>(t, session). t = Some i) (ts_sessions s))
    in length mines div k \<le> load \<and> load \<le> (length mines + k - 1) div k
      \<and> unat (striped_value (h_connections_total (ts_handler s))) = length mines
      \<and> unat (h_connections_active (ts_handler s)) = length mines"
proof -
  let ?n = "length mines"
  have load: "length (filter (\<lambda>(t, session). t = Some i) (map (\<lambda>j. (Some (j mod k), new_session)) [0..<?n])) =
      (?n + (k - 1 - i)) div k"
    using turns_of_context [OF assms(4), of ?n] by (simp add: filter_map comp_def)
  have "?n div k \<le> (?n + (k - 1 - i)) div k" "(?n + (k - 1 - i)) div k \<le> (?n + k - 1) div k"
    using assms(4) by (auto intro: div_le_mono)
  moreover have "unat (of_nat ?n :: u64) = ?n" using assms(1) by (simp add: unat_of_nat)
  moreover note opened_total [of "new_command_handler c" mines]
  ultimately show ?thesis
    unfolding accepts_spread [OF assms(1,3)] Let_def using assms(2) load by (simp add: new_command_handler_def)
qed

theorem connections_spread_evenly_witness:
  "let s = accepts [0, 1, 2, 3, 0] (new_server (Some (new_io_pool 2)) loner)
   in 2 \<le> length (filter (\<lambda>(t, session). t = Some 0) (ts_sessions s))
      \<and> length (filter (\<lambda>(t, session). t = Some 0) (ts_sessions s)) \<le> 3"
  using connections_spread_evenly [of "[0, 1, 2, 3, 0]" 2 0 loner] by (simp add: kStripes_def Let_def)

end
