(* ===== verification/Chaos.thy ===== *)
theory Chaos
  imports Std_Map Decimal "HOL-Library.Multiset"
begin

text \<open>
  The judgement of the fault-injection test (src/chaos): how its clients record their operations
  (main.go, \<open>runClient\<close>), the register model and the partition of a history by key (model.go), and
  the two detectors of anomalies (anomaly.go). The linearizability checker itself is a third-party
  package; what it decides is stated here as a definition. Sorting with \<open>sort.Slice\<close>, which leaves
  the order of equal elements open, and the order in which a Go map is visited are arguments.
\<close>

section \<open>The model of the store\<close>

datatype kv_op = KvGet | KvPut | KvDel

record kvInput =
  in_op :: kv_op
  in_key :: string
  in_value :: string

record kvOutput =
  out_found :: bool
  out_value :: string

record kvState =
  ks_found :: bool
  ks_value :: string

record Operation =
  op_client :: nat
  op_input :: kvInput
  op_call :: int
  op_output :: kvOutput
  op_return :: int

definition kv_init :: kvState where
  "kv_init = \<lparr>ks_found = False, ks_value = []\<rparr>"

definition kv_step :: "kvState \<Rightarrow> kvInput \<Rightarrow> kvOutput \<Rightarrow> bool \<times> kvState" where
  "kv_step st i out =
     (case in_op i of
        KvGet \<Rightarrow> (out_found out = ks_found st \<and> (\<not> out_found out \<or> out_value out = ks_value st), st)
      | KvPut \<Rightarrow> (True, \<lparr>ks_found = True, ks_value = in_value i\<rparr>)
      | KvDel \<Rightarrow> (True, kv_init))"

abbreviation op_key :: "Operation \<Rightarrow> string" where
  "op_key op \<equiv> in_key (op_input op)"

abbreviation op_kind :: "Operation \<Rightarrow> kv_op" where
  "op_kind op \<equiv> in_op (op_input op)"

definition group_at :: "('k \<times> 'v list) list \<Rightarrow> 'k \<Rightarrow> 'v list" where
  "group_at m k = (case map_of m k of Some l \<Rightarrow> l | None \<Rightarrow> [])"

definition append_at :: "'k \<Rightarrow> 'v \<Rightarrow> ('k \<times> 'v list) list \<Rightarrow> ('k \<times> 'v list) list" where
  "append_at k v m = umap_set k (group_at m k @ [v]) m"

definition kv_partition :: "Operation list \<Rightarrow> Operation list list" where
  "kv_partition history = map snd (fold (\<lambda>op. append_at (op_key op) op) history [])"

definition describe_operation :: "kvInput \<Rightarrow> kvOutput \<Rightarrow> string" where
  "describe_operation i out =
     (case in_op i of
        KvGet \<Rightarrow>
          if \<not> out_found out then ''get('' @ in_key i @ '') -> nil''
          else ''get('' @ in_key i @ '') -> '' @ out_value out
      | KvPut \<Rightarrow> ''put('' @ in_key i @ '', '' @ in_value i @ '')''
      | KvDel \<Rightarrow> ''del('' @ in_key i @ '')'')"

section \<open>The clients\<close>

definition max_int64 :: int where
  "max_int64 = 2 ^ 63 - 1"

datatype reply = Answered bool string | ServerError string | Broken

text \<open>One turn of a client: its random numbers, the clock before and after the call, and what the call
  gave.\<close>

record client_turn =
  tn_key :: nat
  tn_choice :: nat
  tn_call :: int
  tn_ret :: int
  tn_reply :: reply

definition turn_input :: "nat \<Rightarrow> nat \<Rightarrow> client_turn \<Rightarrow> kvInput" where
  "turn_input cid seq t =
     (let key = ''k'' @ nat_to_string (tn_key t)
      in if tn_choice t < 5 then \<lparr>in_op = KvGet, in_key = key, in_value = []\<rparr>
         else if tn_choice t < 9
         then \<lparr>in_op = KvPut, in_key = key, in_value = ''c'' @ nat_to_string cid @ ''-'' @ nat_to_string seq\<rparr>
         else \<lparr>in_op = KvDel, in_key = key, in_value = []\<rparr>)"

text \<open>A failed read is dropped; a failed write may take effect at any later time.\<close>

definition turn_history :: "nat \<Rightarrow> nat \<Rightarrow> client_turn \<Rightarrow> Operation list" where
  "turn_history cid seq t =
     (let i = turn_input cid seq t;
          no_output = \<lparr>out_found = False, out_value = []\<rparr>
      in case tn_reply t of
           Answered null str \<Rightarrow>
             [\<lparr>op_client = cid, op_input = i, op_call = tn_call t,
               op_output = (if in_op i = KvGet \<and> \<not> null then \<lparr>out_found = True, out_value = str\<rparr> else no_output),
               op_return = tn_ret t\<rparr>]
         | _ \<Rightarrow>
             if in_op i = KvGet then []
             else [\<lparr>op_client = cid, op_input = i, op_call = tn_call t, op_output = no_output, op_return = max_int64\<rparr>])"

record stats =
  st_ok :: "(string \<times> nat) list"
  st_failed :: "(string \<times> nat) list"
  st_indeterminate :: "(string \<times> nat) list"
  st_errors :: "(string \<times> nat) list"

definition new_stats :: stats where
  "new_stats = \<lparr>st_ok = [], st_failed = [], st_indeterminate = [], st_errors = []\<rparr>"

definition counted :: "(string \<times> nat) list \<Rightarrow> string \<Rightarrow> nat" where
  "counted m k = (case map_of m k of Some n \<Rightarrow> n | None \<Rightarrow> 0)"

definition stats_add :: "string \<Rightarrow> (string \<times> nat) list \<Rightarrow> (string \<times> nat) list" where
  "stats_add k m = umap_set k (counted m k + 1) m"

fun op_name :: "kv_op \<Rightarrow> string" where
  "op_name KvGet = ''GET''"
| "op_name KvPut = ''SET''"
| "op_name KvDel = ''DEL''"

definition turn_stats :: "nat \<Rightarrow> nat \<Rightarrow> client_turn \<Rightarrow> stats \<Rightarrow> stats" where
  "turn_stats cid seq t st =
     (let i = turn_input cid seq t; name = op_name (in_op i)
      in case tn_reply t of
           Answered null str \<Rightarrow> st\<lparr>st_ok := stats_add name (st_ok st)\<rparr>
         | ServerError msg \<Rightarrow>
             if in_op i = KvGet then st\<lparr>st_failed := stats_add name (st_failed st)\<rparr>
             else st\<lparr>st_failed := stats_add name (st_failed st), st_errors := stats_add msg (st_errors st)\<rparr>
         | Broken \<Rightarrow>
             if in_op i = KvGet then st\<lparr>st_failed := stats_add name (st_failed st)\<rparr>
             else st\<lparr>st_indeterminate := stats_add name (st_indeterminate st)\<rparr>)"

fun run_client :: "nat \<Rightarrow> nat \<Rightarrow> client_turn list \<Rightarrow> Operation list" where
  "run_client cid seq [] = []"
| "run_client cid seq (t # ts) = turn_history cid seq t @ run_client cid (seq + 1) ts"

definition collect_history :: "client_turn list list \<Rightarrow> Operation list" where
  "collect_history clients = concat (map (\<lambda>i. run_client i 0 (clients ! i)) [0..<length clients])"

section \<open>Stale reads\<close>

record kv_write =
  wr_call :: int
  wr_ret :: int
  wr_desc :: string

definition settled :: "Operation \<Rightarrow> bool" where
  "settled op \<longleftrightarrow> \<not> (op_kind op = KvGet \<or> op_return op = max_int64)"

definition writes_by_key :: "Operation list \<Rightarrow> (string \<times> kv_write list) list" where
  "writes_by_key history =
     fold (\<lambda>op m. if settled op
         then append_at (op_key op)
           \<lparr>wr_call = op_call op, wr_ret = op_return op, wr_desc = describe_operation (op_input op) (op_output op)\<rparr> m
         else m) history []"

definition writer_of :: "(Operation \<Rightarrow> bool) \<Rightarrow> Operation list \<Rightarrow> (string \<times> Operation) list" where
  "writer_of counts history =
     fold (\<lambda>op m. if counts op \<and> op_kind op = KvPut then umap_set (in_value (op_input op)) op m else m) history []"

fun min_rets :: "kv_write list \<Rightarrow> int list" where
  "min_rets [] = [max_int64]"
| "min_rets (w # ws) = (let rest = min_rets ws in min (wr_ret w) (hd rest) # rest)"

text \<open>\<open>sort.Search\<close>: the smallest index that satisfies a predicate that is false up to it.\<close>

function search :: "(nat \<Rightarrow> bool) \<Rightarrow> nat \<Rightarrow> nat \<Rightarrow> nat" where
  "search f i j =
     (if i < j
      then (let h = (i + j) div 2 in if \<not> f h then search f (h + 1) j else search f i h)
      else i)"
  by auto
termination
  by (relation "measure (\<lambda>(f, i, j). j - i)") auto

declare search.simps [simp del]

text \<open>One read against the index: how many it adds to the count, and the example it gives.\<close>

definition stale_read ::
    "(kv_write list \<Rightarrow> kv_write list) \<Rightarrow> Operation list \<Rightarrow> Operation \<Rightarrow> (Operation \<times> kv_write \<times> Operation) option" where
  "stale_read sort_slice history op =
     (if op_kind op \<noteq> KvGet \<or> \<not> out_found (op_output op) then None
      else
        case map_of (writer_of settled history) (out_value (op_output op)) of
          None \<Rightarrow> None
        | Some w1 \<Rightarrow>
            (let ws = (case map_of (writes_by_key history) (op_key op) of Some l \<Rightarrow> sort_slice l | None \<Rightarrow> []);
                 i = search (\<lambda>i. op_return w1 < wr_call (ws ! i)) 0 (length ws)
             in if i < length ws \<and> min_rets ws ! i < op_call op
                then Some (op, the (find (\<lambda>w. wr_ret w < op_call op) (drop i ws)), w1)
                else None))"

definition stale_reads ::
    "(kv_write list \<Rightarrow> kv_write list) \<Rightarrow> Operation list \<Rightarrow> nat \<times> (Operation \<times> kv_write \<times> Operation) list" where
  "stale_reads sort_slice history =
     (let found = List.map_filter (stale_read sort_slice history) history in (length found, take 3 found))"

section \<open>Inversions\<close>

type_synonym kv_read = "Operation \<times> Operation"

definition reads_by_key :: "Operation list \<Rightarrow> (string \<times> kv_read list) list" where
  "reads_by_key history =
     fold (\<lambda>op m. if op_kind op \<noteq> KvGet \<or> \<not> out_found (op_output op) then m
         else case map_of (writer_of (\<lambda>_. True) history) (out_value (op_output op)) of
                None \<Rightarrow> m
              | Some w \<Rightarrow> append_at (op_key op) (op, w) m) history []"

definition inverted :: "kv_read \<Rightarrow> kv_read \<Rightarrow> bool" where
  "inverted r1 r2 \<longleftrightarrow>
     \<not> (op_call (fst r2) \<le> op_return (fst r1) \<or> op_call (snd r1) \<le> op_return (snd r2))"

fun inverted_pairs :: "kv_read list \<Rightarrow> (kv_read \<times> kv_read) list" where
  "inverted_pairs [] = []"
| "inverted_pairs (r # rs) = map (Pair r) (filter (inverted r) rs) @ inverted_pairs rs"

definition inversions ::
    "((string \<times> kv_read list) list \<Rightarrow> (string \<times> kv_read list) list) \<Rightarrow> (kv_read list \<Rightarrow> kv_read list) \<Rightarrow> Operation list
     \<Rightarrow> nat \<times> (kv_read \<times> kv_read) list" where
  "inversions visit sort_slice history =
     (let found = concat (map (\<lambda>(key, reads). inverted_pairs (sort_slice reads)) (visit (reads_by_key history)))
      in (length found, take 3 found))"

section \<open>The verdict\<close>

datatype check_result = CheckOk | CheckIllegal | CheckUnknown

fun exit_code :: "check_result \<Rightarrow> nat" where
  "exit_code CheckOk = 0"
| "exit_code CheckIllegal = 1"
| "exit_code CheckUnknown = 3"

section \<open>Linearizability\<close>

text \<open>A history of one register: some order of its operations that keeps the order of those that did
  not overlap and that the model accepts.\<close>

fun legal :: "kvState \<Rightarrow> Operation list \<Rightarrow> bool" where
  "legal st [] = True"
| "legal st (op # ops) = (case kv_step st (op_input op) (op_output op) of (ok, st') \<Rightarrow> ok \<and> legal st' ops)"

definition real_time :: "Operation list \<Rightarrow> bool" where
  "real_time ops = sorted_wrt (\<lambda>a b. \<not> op_return b < op_call a) ops"

definition linearizable :: "Operation list \<Rightarrow> bool" where
  "linearizable history \<longleftrightarrow> (\<exists>ops. mset ops = mset history \<and> real_time ops \<and> legal kv_init ops)"

text \<open>A history of the whole store, with a register for each key.\<close>

fun store_legal :: "(string \<Rightarrow> kvState) \<Rightarrow> Operation list \<Rightarrow> bool" where
  "store_legal st [] = True"
| "store_legal st (op # ops) =
     (case kv_step (st (op_key op)) (op_input op) (op_output op) of
        (ok, s) \<Rightarrow> ok \<and> store_legal (st(op_key op := s)) ops)"

definition store_linearizable :: "Operation list \<Rightarrow> bool" where
  "store_linearizable history \<longleftrightarrow> (\<exists>ops. mset ops = mset history \<and> real_time ops \<and> store_legal (\<lambda>_. kv_init) ops)"

section \<open>Grouping by key\<close>

lemma map_of_append_at: "map_of (append_at k v m) = (map_of m)(k \<mapsto> group_at m k @ [v])"
  by (simp add: append_at_def map_of_umap_set)

lemma group_at_append: "group_at (append_at k v m) k' = (if k' = k then group_at m k @ [v] else group_at m k')"
  by (simp add: group_at_def map_of_append_at)

lemma group_at_fold:
  "group_at (fold (\<lambda>x m. if P x then append_at (f x) (g x) m else m) xs m) k =
     group_at m k @ map g (filter (\<lambda>x. P x \<and> f x = k) xs)"
  by (induction xs arbitrary: m) (simp_all add: group_at_append)

definition groups_ok :: "('k \<times> 'v list) list \<Rightarrow> bool" where
  "groups_ok m \<longleftrightarrow> umap_wf m \<and> (\<forall>k. map_of m k \<noteq> Some [])"

lemma groups_ok_append: "groups_ok m \<Longrightarrow> groups_ok (append_at k v m)"
  by (auto simp: groups_ok_def map_of_append_at append_at_def [of k v m] umap_wf_set map_of_umap_set)

lemma groups_ok_fold: "groups_ok m \<Longrightarrow> groups_ok (fold (\<lambda>x m. if P x then append_at (f x) (g x) m else m) xs m)"
  by (induction xs arbitrary: m) (simp_all add: groups_ok_append)

lemma groups_ok_Nil [simp]: "groups_ok []"
  by (simp add: groups_ok_def umap_wf_def)

text \<open>The groups of a map are the groups at its keys.\<close>

lemma groups_of:
  assumes "groups_ok m"
  shows "set (map snd m) = {group_at m k |k. group_at m k \<noteq> []}"
proof -
  have d: "distinct (map fst m)" using assms by (simp add: groups_ok_def umap_wf_def)
  have "l \<in> set (map snd m) \<longleftrightarrow> (\<exists>k. map_of m k = Some l)" for l
    using d by (force simp: map_of_eq_Some_iff)
  moreover have "map_of m k = Some l \<longleftrightarrow> group_at m k = l \<and> l \<noteq> []" for k l
    using assms by (auto simp: groups_ok_def group_at_def split: option.splits)
  ultimately have "l \<in> set (map snd m) \<longleftrightarrow> (\<exists>k. group_at m k = l \<and> l \<noteq> [])" for l by simp
  then show ?thesis by (intro set_eqI) (simp only: mem_Collect_eq, blast)
qed

abbreviation on_key :: "string \<Rightarrow> Operation list \<Rightarrow> Operation list" where
  "on_key k ops \<equiv> filter (\<lambda>op. op_key op = k) ops"

lemma kv_partition_groups: "set (kv_partition history) = {on_key k history |k. on_key k history \<noteq> []}"
proof -
  let ?m = "fold (\<lambda>op. append_at (op_key op) op) history []"
  have m: "?m = fold (\<lambda>op m. if True then append_at (op_key op) op m else m) history []" by simp
  have "group_at ?m k = on_key k history" for k
    unfolding m group_at_fold by (simp add: group_at_def)
  moreover have "groups_ok ?m" unfolding m by (rule groups_ok_fold) simp
  ultimately show ?thesis unfolding kv_partition_def by (simp only: groups_of)
qed

text \<open>The empty history of a key is linearizable, so the keys that occur are enough.\<close>

lemma linearizable_Nil [simp]: "linearizable []"
  by (auto simp: linearizable_def real_time_def)

lemma partition_linearizable:
  "(\<forall>p \<in> set (kv_partition history). linearizable p) \<longleftrightarrow> (\<forall>k. linearizable (on_key k history))"
  unfolding kv_partition_groups by (auto, metis linearizable_Nil)

section \<open>Registers are independent\<close>

lemma store_legal_keys: "store_legal st ops \<longleftrightarrow> (\<forall>k. legal (st k) (on_key k ops))"
proof (induction ops arbitrary: st)
  case (Cons op ops)
  obtain ok s where s: "kv_step (st (op_key op)) (op_input op) (op_output op) = (ok, s)" by (meson surj_pair)
  have "store_legal st (op # ops) \<longleftrightarrow> ok \<and> (\<forall>k. legal ((st(op_key op := s)) k) (on_key k ops))"
    by (simp add: s Cons.IH)
  also have "\<dots> \<longleftrightarrow> (\<forall>k. legal (st k) (on_key k (op # ops)))"
    using s by (auto split: if_splits)
  finally show ?case .
qed simp

lemma real_time_filter: "real_time ops \<Longrightarrow> real_time (filter P ops)"
  by (simp add: real_time_def sorted_wrt_filter)

lemma store_linearizable_keys: "store_linearizable history \<Longrightarrow> linearizable (on_key k history)"
  unfolding store_linearizable_def linearizable_def
  by (metis mset_filter real_time_filter store_legal_keys)

text \<open>The other direction merges the orders of the keys along points in time: an operation takes
  effect at the latest call up to it in the order of its key.\<close>

fun points :: "int \<Rightarrow> Operation list \<Rightarrow> int list" where
  "points m [] = []"
| "points m (op # ops) = max m (op_call op) # points (max m (op_call op)) ops"

lemma length_points [simp]: "length (points m ops) = length ops"
  by (induction ops arbitrary: m) simp_all

lemma points_ge: "p \<in> set (points m ops) \<Longrightarrow> m \<le> p"
  by (induction ops arbitrary: m) force+

lemma sorted_points: "sorted (points m ops)"
  by (induction ops arbitrary: m) (auto dest: points_ge)

lemma points_within:
  assumes "real_time ops" and "\<forall>op \<in> set ops. op_call op \<le> op_return op \<and> m \<le> op_return op"
    and "(op, p) \<in> set (zip ops (points m ops))"
  shows "op_call op \<le> p \<and> p \<le> op_return op"
  using assms
proof (induction ops arbitrary: m)
  case (Cons a ops)
  let ?m = "max m (op_call a)"
  have r: "real_time ops" "\<forall>b \<in> set ops. \<not> op_return b < op_call a" using Cons.prems(1) by (auto simp: real_time_def)
  show ?case
  proof (cases "(op, p) = (a, ?m)")
    case True
    with Cons.prems(2) show ?thesis by auto
  next
    case False
    with Cons.prems(3) have "(op, p) \<in> set (zip ops (points ?m ops))" by auto
    moreover have "\<forall>b \<in> set ops. op_call b \<le> op_return b \<and> ?m \<le> op_return b"
      using Cons.prems(2) r(2) by auto
    ultimately show ?thesis using Cons.IH r(1) by blast
  qed
qed simp

lemma concat_pick: "distinct ks \<Longrightarrow> concat (map (\<lambda>k'. if k' = k then t else []) ks) = (if k \<in> set ks then t else [])"
  by (induction ks) auto

lemma mset_by_key: "(\<And>k. mset (on_key k xs) = mset (on_key k ys)) \<Longrightarrow> mset xs = mset ys"
  by (rule multiset_eqI) (metis (mono_tags, lifting) count_filter_mset mset_filter)

lemma merge_keys:
  assumes times: "\<forall>op \<in> set history. op_call op \<le> op_return op"
    and lins: "\<forall>k. linearizable (on_key k history)"
  shows "store_linearizable history"
proof -
  obtain lin where lin: "mset (lin k) = mset (on_key k history)" "real_time (lin k)" "legal kv_init (lin k)" for k
    using lins unfolding linearizable_def by metis
  define m where "m = Min (insert 0 (op_call ` set history))"
  define tagged where "tagged k = zip (lin k) (points m (lin k))" for k
  define merged where "merged = sort_key snd (concat (map tagged (remdups (map op_key history))))"
  have sets: "set (lin k) = set (on_key k history)" for k using lin(1) by (metis set_mset_mset)
  have m: "op \<in> set history \<Longrightarrow> m \<le> op_call op" for op unfolding m_def by (intro Min_le) auto
  have keys: "x \<in> set (tagged k) \<Longrightarrow> op_key (fst x) = k" for x k
    using sets [of k] by (cases x) (auto simp: tagged_def dest: set_zip_leftD)
  have "filter (\<lambda>x. op_key (fst x) = k) (tagged k') = (if k' = k then tagged k else [])" for k k'
    using keys by (auto simp: filter_empty_conv filter_id_conv)
  moreover have "tagged k = []" if "k \<notin> op_key ` set history" for k
  proof -
    have "set (lin k) = {}" using that unfolding sets by auto
    then show ?thesis by (simp add: tagged_def)
  qed
  ultimately have part: "filter (\<lambda>x. op_key (fst x) = k) (concat (map tagged (remdups (map op_key history)))) = tagged k" for k
    by (auto simp: filter_concat comp_def concat_pick)
  have "sort_key snd (tagged k) = tagged k" for k
    by (rule sort_key_id_if_sorted) (simp add: tagged_def sorted_points)
  then have "filter (\<lambda>x. op_key (fst x) = k) merged = tagged k" for k
    by (simp add: merged_def filter_sort part)
  then have on: "on_key k (map fst merged) = lin k" for k
    by (simp add: filter_map comp_def) (simp add: tagged_def)
  have within: "op_call (fst x) \<le> snd x \<and> snd x \<le> op_return (fst x)" if "x \<in> set merged" for x
  proof -
    have "\<exists>k. x \<in> set (tagged k)" using that unfolding merged_def by auto
    then obtain k where "x \<in> set (tagged k)" by blast
    moreover have "\<forall>op \<in> set (lin k). op_call op \<le> op_return op \<and> m \<le> op_return op"
      using times m unfolding sets by (auto intro: order_trans)
    ultimately show ?thesis using points_within [OF lin(2), of k m "fst x" "snd x"] by (simp add: tagged_def)
  qed
  have "sorted_wrt (\<lambda>x y. snd x \<le> snd y) merged"
    using sorted_sort_key [of snd] by (simp add: merged_def sorted_map)
  then have "sorted_wrt (\<lambda>x y. \<not> op_return (fst y) < op_call (fst x)) merged"
  proof (rule sorted_wrt_mono_rel [rotated])
    fix x y
    assume "x \<in> set merged" "y \<in> set merged" "snd x \<le> snd y"
    with within [of x] within [of y] show "\<not> op_return (fst y) < op_call (fst x)" by linarith
  qed
  then have "real_time (map fst merged)" by (simp add: real_time_def sorted_wrt_map)
  moreover have "mset (map fst merged) = mset history" by (rule mset_by_key) (simp only: on lin(1))
  moreover have "store_legal (\<lambda>_. kv_init) (map fst merged)" unfolding store_legal_keys on by (simp add: lin(3))
  ultimately show ?thesis unfolding store_linearizable_def by blast
qed

section \<open>What a read sees\<close>

fun state_after :: "kvState \<Rightarrow> Operation list \<Rightarrow> kvState" where
  "state_after st [] = st"
| "state_after st (op # ops) = state_after (snd (kv_step st (op_input op) (op_output op))) ops"

lemma legal_append: "legal st (xs @ ys) \<longleftrightarrow> legal st xs \<and> legal (state_after st xs) ys"
  by (induction xs arbitrary: st) (auto split: prod.splits)

lemma state_after_append: "state_after st (xs @ ys) = state_after (state_after st xs) ys"
  by (induction xs arbitrary: st) simp_all

lemma found_writer:
  "ks_found (state_after kv_init xs) \<Longrightarrow> \<exists>as w bs. xs = as @ w # bs \<and> op_kind w = KvPut
     \<and> in_value (op_input w) = ks_value (state_after kv_init xs) \<and> (\<forall>b \<in> set bs. op_kind b = KvGet)"
proof (induction xs rule: rev_induct)
  case (snoc x xs)
  show ?case
  proof (cases "op_kind x")
    case KvGet
    then have same: "state_after kv_init (xs @ [x]) = state_after kv_init xs" by (simp add: state_after_append kv_step_def)
    with snoc obtain as w bs where "xs = as @ w # bs" "op_kind w = KvPut"
      "in_value (op_input w) = ks_value (state_after kv_init xs)" "\<forall>b \<in> set bs. op_kind b = KvGet" by auto
    with KvGet same show ?thesis by (intro exI [of _ as] exI [of _ w] exI [of _ "bs @ [x]"]) auto
  next
    case KvPut
    then show ?thesis by (intro exI [of _ xs] exI [of _ x] exI [of _ "[]"]) (simp add: state_after_append kv_step_def)
  next
    case KvDel
    with snoc.prems show ?thesis by (simp add: state_after_append kv_step_def kv_init_def)
  qed
qed (simp add: kv_init_def)

lemma read_from:
  assumes "legal kv_init (xs @ r # ys)" and "op_kind r = KvGet" and "out_found (op_output r)"
  shows "\<exists>as w bs. xs = as @ w # bs \<and> op_kind w = KvPut \<and> in_value (op_input w) = out_value (op_output r)
    \<and> (\<forall>b \<in> set bs. op_kind b = KvGet)"
  using assms found_writer [of xs] by (auto simp: legal_append kv_step_def)

definition unique_puts :: "Operation list \<Rightarrow> bool" where
  "unique_puts history = distinct (map (\<lambda>op. in_value (op_input op)) (filter (\<lambda>op. op_kind op = KvPut) history))"

lemma unique_putsD:
  "unique_puts history \<Longrightarrow> a \<in> set history \<Longrightarrow> b \<in> set history \<Longrightarrow> op_kind a = KvPut \<Longrightarrow> op_kind b = KvPut \<Longrightarrow>
     in_value (op_input a) = in_value (op_input b) \<Longrightarrow> a = b"
  unfolding unique_puts_def by (auto simp: distinct_map inj_on_def)

lemma real_time_split: "real_time (xs @ ys) \<Longrightarrow> a \<in> set xs \<Longrightarrow> b \<in> set ys \<Longrightarrow> \<not> op_return b < op_call a"
  by (auto simp: real_time_def sorted_wrt_append)

text \<open>A read of an overwritten value, and a read of an older value after a read of a newer one, have no
  place in any order of the operations on their key.\<close>

lemma stale_refutes:
  assumes u: "unique_puts history" "set ops \<subseteq> set history" and ops: "real_time ops" "legal kv_init ops"
    and r: "r \<in> set ops" "op_kind r = KvGet" "out_found (op_output r)"
    and w1: "w1 \<in> set history" "op_kind w1 = KvPut" "in_value (op_input w1) = out_value (op_output r)"
      "op_call w1 \<le> op_return w1"
    and w2: "w2 \<in> set ops" "op_kind w2 \<noteq> KvGet" "op_return w1 < op_call w2" "op_return w2 < op_call r"
  shows False
proof -
  obtain xs ys where o: "ops = xs @ r # ys" using r(1) by (meson split_list)
  obtain as w bs where x: "xs = as @ w # bs" "op_kind w = KvPut" "in_value (op_input w) = out_value (op_output r)"
    "\<forall>b \<in> set bs. op_kind b = KvGet" using read_from ops(2) r(2,3) unfolding o by blast
  have w: "w = w1" using unique_putsD [OF u(1), of w w1] u(2) o x w1 by auto
  have "w2 \<notin> set as" using real_time_split [of as "w # bs @ r # ys" w2 w] ops(1) w2(3) by (auto simp: o x w)
  moreover have "w2 \<notin> set ys" using real_time_split [of "xs @ [r]" ys r w2] ops(1) w2(4) by (auto simp: o)
  moreover have "w2 \<noteq> w" using w1(4) w2(3) by (auto simp: w)
  moreover have "w2 \<notin> set (bs @ [r])" using w2(2) x(4) r(2) by auto
  ultimately show False using w2(1) by (auto simp: o x)
qed

lemma inversion_refutes:
  assumes u: "unique_puts history" "set ops \<subseteq> set history" and ops: "real_time ops" "legal kv_init ops"
    and r1: "r1 \<in> set ops" "op_kind r1 = KvGet" "out_found (op_output r1)" "op_call r1 \<le> op_return r1"
    and r2: "r2 \<in> set ops" "op_kind r2 = KvGet" "out_found (op_output r2)" "op_return r1 < op_call r2"
    and w1: "w1 \<in> set history" "op_kind w1 = KvPut" "in_value (op_input w1) = out_value (op_output r1)"
    and w2: "w2 \<in> set history" "op_kind w2 = KvPut" "in_value (op_input w2) = out_value (op_output r2)"
      "op_call w2 \<le> op_return w2" "op_return w2 < op_call w1"
  shows False
proof -
  obtain xs ys where o: "ops = xs @ r2 # ys" using r2(1) by (meson split_list)
  obtain as w bs where x: "xs = as @ w # bs" "op_kind w = KvPut" "in_value (op_input w) = out_value (op_output r2)"
    "\<forall>b \<in> set bs. op_kind b = KvGet" using read_from ops(2) r2(2,3) unfolding o by blast
  have w: "w = w2" using unique_putsD [OF u(1), of w w2] u(2) o x w2 by auto
  have "r1 \<notin> set ys" using real_time_split [of "xs @ [r2]" ys r2 r1] ops(1) r2(4) by (auto simp: o)
  moreover have "r1 \<noteq> r2" using r1(4) r2(4) by auto
  ultimately obtain xs1 xs2 where x1: "xs = xs1 @ r1 # xs2" using r1(1) split_list [of r1 xs] by (auto simp: o)
  have "legal kv_init (xs1 @ r1 # (xs2 @ r2 # ys))" using ops(2) by (simp add: o x1)
  from read_from [OF this r1(2,3)] obtain cs v ds
    where v: "xs1 = cs @ v # ds" "op_kind v = KvPut" "in_value (op_input v) = out_value (op_output r1)" by blast
  then have "v = w1" using unique_putsD [OF u(1), of v w1] u(2) w1 by (auto simp: o x1)
  then have "w1 \<in> set xs" using v(1) x1 by simp
  moreover have "w1 \<notin> set as" using real_time_split [of as "w # bs @ r2 # ys" w1 w] ops(1) w2(5) by (auto simp: o x w)
  moreover have "w1 \<noteq> w" using w2(4,5) by (auto simp: w)
  moreover have "w1 \<notin> set bs" using w1(2) x(4) by auto
  ultimately show False unfolding x(1) by simp
qed

section \<open>What the detectors count\<close>

lemma writer_of_fold:
  "map_of (fold (\<lambda>op m. if counts op \<and> op_kind op = KvPut then umap_set (in_value (op_input op)) op m else m) ops m) v = Some w \<Longrightarrow>
     map_of m v = Some w \<or> w \<in> set ops \<and> counts w \<and> op_kind w = KvPut \<and> in_value (op_input w) = v"
proof (induction ops arbitrary: m)
  case (Cons a ops)
  let ?m = "if counts a \<and> op_kind a = KvPut then umap_set (in_value (op_input a)) a m else m"
  have "map_of ?m v = Some w \<or> w \<in> set ops \<and> counts w \<and> op_kind w = KvPut \<and> in_value (op_input w) = v"
    by (rule Cons.IH) (use Cons.prems in \<open>simp only: fold_simps\<close>)
  then show ?case by (auto simp: map_of_umap_set split: if_splits)
qed simp

lemma writer_ofD:
  "map_of (writer_of counts history) v = Some w \<Longrightarrow>
     w \<in> set history \<and> counts w \<and> op_kind w = KvPut \<and> in_value (op_input w) = v"
  unfolding writer_of_def by (drule writer_of_fold) simp

lemma writer_of_kept:
  "map_of m v \<noteq> None \<Longrightarrow>
     map_of (fold (\<lambda>op m. if counts op \<and> op_kind op = KvPut then umap_set (in_value (op_input op)) op m else m) ops m) v \<noteq> None"
  by (induction ops arbitrary: m) (simp_all add: map_of_umap_set)

lemma writer_of_found:
  "w \<in> set ops \<Longrightarrow> counts w \<Longrightarrow> op_kind w = KvPut \<Longrightarrow>
     map_of (fold (\<lambda>op m. if counts op \<and> op_kind op = KvPut then umap_set (in_value (op_input op)) op m else m) ops m)
       (in_value (op_input w)) \<noteq> None"
proof (induction ops arbitrary: m)
  case (Cons a ops)
  show ?case
  proof (cases "w = a")
    case True
    with Cons.prems show ?thesis
      using writer_of_kept [of "umap_set (in_value (op_input a)) a m" "in_value (op_input a)"] by (simp add: map_of_umap_set)
  next
    case False
    with Cons show ?thesis by simp
  qed
qed simp

lemma writer_of_unique:
  assumes "unique_puts history" and "w \<in> set history" and "counts w" and "op_kind w = KvPut"
  shows "map_of (writer_of counts history) (in_value (op_input w)) = Some w"
proof -
  obtain w' where w': "map_of (writer_of counts history) (in_value (op_input w)) = Some w'"
    using writer_of_found [of w history counts "[]"] assms(2-4) unfolding writer_of_def by blast
  with writer_ofD [OF w'] unique_putsD [OF assms(1)] assms show ?thesis by metis
qed

text \<open>The binary search finds the border of a predicate that never turns false again.\<close>

lemma search_border:
  assumes "i \<le> j" and "\<And>a b. i \<le> a \<Longrightarrow> a \<le> b \<Longrightarrow> b < j \<Longrightarrow> f a \<Longrightarrow> f b"
  shows "i \<le> search f i j \<and> search f i j \<le> j \<and> (\<forall>x. i \<le> x \<and> x < j \<longrightarrow> f x = (search f i j \<le> x))"
  using assms
proof (induction f i j rule: search.induct)
  case (1 f i j)
  show ?case
  proof (cases "i < j")
    case False
    then have "search f i j = i" by (simp add: search.simps [of f i j])
    with False 1(3) show ?thesis by auto
  next
    case True
    define h where "h = (i + j) div 2"
    have h: "i \<le> h" "h < j" using True unfolding h_def by linarith+
    show ?thesis
    proof (cases "f h")
      case fh: True
      have "i \<le> search f i h \<and> search f i h \<le> h \<and> (\<forall>x. i \<le> x \<and> x < h \<longrightarrow> f x = (search f i h \<le> x))"
      proof (rule 1(2) [OF True h_def])
        show "\<not> \<not> f h" "i \<le> h" using fh h(1) by simp_all
        show "f b" if "i \<le> a" "a \<le> b" "b < h" "f a" for a b by (rule 1(4) [OF that(1,2) _ that(4)]) (use that(3) h(2) in linarith)
      qed
      moreover have "search f i j = search f i h" using True fh by (simp add: search.simps [of f i j] h_def Let_def)
      moreover have "f x" if "h \<le> x" "x < j" for x using 1(4) [OF h(1) that fh] .
      ultimately show ?thesis using h(2) by (auto simp: not_less) (metis le_trans linorder_not_le)+
    next
      case fh: False
      have s: "h + 1 \<le> search f (h + 1) j \<and> search f (h + 1) j \<le> j
          \<and> (\<forall>x. h + 1 \<le> x \<and> x < j \<longrightarrow> f x = (search f (h + 1) j \<le> x))"
      proof (rule 1(1) [OF True h_def])
        show "\<not> f h" "h + 1 \<le> j" using fh h(2) by simp_all
        show "f b" if "h + 1 \<le> a" "a \<le> b" "b < j" "f a" for a b by (rule 1(4) [OF _ that(2-4)]) (use that(1) h(1) in linarith)
      qed
      moreover have "search f i j = search f (h + 1) j" using True fh by (simp add: search.simps [of f i j] h_def Let_def)
      moreover have "\<not> f x" if "i \<le> x" "x \<le> h" for x using 1(4) [OF that h(2)] fh by blast
      ultimately show ?thesis using h(1) by (metis Suc_eq_plus1 le_trans not_less_eq_eq le_SucI)
    qed
  qed
qed

lemma min_rets_nth:
  "i \<le> length ws \<Longrightarrow> min_rets ws ! i < c \<longleftrightarrow> max_int64 < c \<or> (\<exists>j. i \<le> j \<and> j < length ws \<and> wr_ret (ws ! j) < c)"
proof (induction ws arbitrary: i)
  case (Cons w ws)
  have hd: "hd (min_rets ws) = min_rets ws ! 0" by (cases ws) (simp_all add: Let_def)
  show ?case
  proof (cases i)
    case 0
    have "(\<exists>j < length (w # ws). wr_ret ((w # ws) ! j) < c) \<longleftrightarrow> wr_ret w < c \<or> (\<exists>j < length ws. wr_ret (ws ! j) < c)"
      by (auto simp: less_Suc_eq_0_disj)
    then show ?thesis using Cons.IH [of 0] by (simp add: 0 Let_def hd) (auto simp: min_less_iff_disj)
  next
    case (Suc n)
    have "(\<exists>j. Suc n \<le> j \<and> j < length (w # ws) \<and> wr_ret ((w # ws) ! j) < c) \<longleftrightarrow>
        (\<exists>j. n \<le> j \<and> j < length ws \<and> wr_ret (ws ! j) < c)"
      by (auto simp: less_Suc_eq_0_disj)
    then show ?thesis using Cons.IH [of n] Cons.prems by (simp add: Suc Let_def)
  qed
qed simp

definition sorts_by :: "('a \<Rightarrow> int) \<Rightarrow> ('a list \<Rightarrow> 'a list) \<Rightarrow> bool" where
  "sorts_by f sort_slice \<longleftrightarrow> (\<forall>xs. mset (sort_slice xs) = mset xs \<and> sorted (map f (sort_slice xs)))"

lemma sorts_by_set: "sorts_by f sort_slice \<Longrightarrow> set (sort_slice xs) = set xs"
  unfolding sorts_by_def by (metis set_mset_mset)

lemma first_after:
  fixes c t :: int
  assumes "sorted (map wr_call ws)" and "c \<le> max_int64"
  defines "i \<equiv> search (\<lambda>i. t < wr_call (ws ! i)) 0 (length ws)"
  shows "i < length ws \<and> min_rets ws ! i < c \<longleftrightarrow> (\<exists>w \<in> set ws. t < wr_call w \<and> wr_ret w < c)"
proof -
  have "wr_call (ws ! a) \<le> wr_call (ws ! b)" if "a \<le> b" "b < length ws" for a b
    using sorted_nth_mono [OF assms(1), of a b] that by simp
  then have b: "i \<le> length ws \<and> (\<forall>x < length ws. t < wr_call (ws ! x) \<longleftrightarrow> i \<le> x)"
    unfolding i_def using search_border [of 0 "length ws" "\<lambda>i. t < wr_call (ws ! i)"] by fastforce
  then have "i < length ws \<and> min_rets ws ! i < c \<longleftrightarrow> (\<exists>j < length ws. i \<le> j \<and> wr_ret (ws ! j) < c)"
    using min_rets_nth [of i ws c] assms(2) by (meson le_less_trans not_less)
  also have "\<dots> \<longleftrightarrow> (\<exists>j < length ws. t < wr_call (ws ! j) \<and> wr_ret (ws ! j) < c)" using b by blast
  also have "\<dots> \<longleftrightarrow> (\<exists>w \<in> set ws. t < wr_call w \<and> wr_ret w < c)" by (metis in_set_conv_nth)
  finally show ?thesis .
qed

text \<open>What the comment on \<open>staleReads\<close> calls a stale read.\<close>

definition is_stale :: "Operation list \<Rightarrow> Operation \<Rightarrow> bool" where
  "is_stale history r \<longleftrightarrow> op_kind r = KvGet \<and> out_found (op_output r)
     \<and> (\<exists>w1 \<in> set history. settled w1 \<and> op_kind w1 = KvPut \<and> in_value (op_input w1) = out_value (op_output r)
         \<and> (\<exists>w2 \<in> set history. settled w2 \<and> op_key w2 = op_key r \<and> op_return w1 < op_call w2 \<and> op_return w2 < op_call r))"

definition write_mark :: "Operation \<Rightarrow> kv_write" where
  "write_mark op = \<lparr>wr_call = op_call op, wr_ret = op_return op, wr_desc = describe_operation (op_input op) (op_output op)\<rparr>"

lemma write_mark_simps [simp]: "wr_call (write_mark op) = op_call op" "wr_ret (write_mark op) = op_return op"
  by (simp_all add: write_mark_def)

lemma writes_by_key_group:
  "group_at (writes_by_key history) k = map write_mark (filter (\<lambda>op. settled op \<and> op_key op = k) history)"
  unfolding writes_by_key_def write_mark_def [symmetric] group_at_fold by (simp add: group_at_def)

lemma sorts_by_group:
  "sorts_by f sort_slice \<Longrightarrow>
     (case map_of m k of Some l \<Rightarrow> sort_slice l | None \<Rightarrow> []) = sort_slice (group_at m k)"
  using sorts_by_set [of f sort_slice "[]"] by (auto simp: group_at_def split: option.splits)

lemma stale_read_iff:
  assumes u: "unique_puts history" and srt: "sorts_by wr_call sort_slice" and "op_call r \<le> max_int64"
  shows "stale_read sort_slice history r \<noteq> None \<longleftrightarrow> is_stale history r"
proof (cases "op_kind r = KvGet \<and> out_found (op_output r)")
  case True
  let ?ws = "sort_slice (group_at (writes_by_key history) (op_key r))"
  have after: "search (\<lambda>i. t < wr_call (?ws ! i)) 0 (length ?ws) < length ?ws
      \<and> min_rets ?ws ! search (\<lambda>i. t < wr_call (?ws ! i)) 0 (length ?ws) < op_call r \<longleftrightarrow>
      (\<exists>w2 \<in> set history. settled w2 \<and> op_key w2 = op_key r \<and> t < op_call w2 \<and> op_return w2 < op_call r)" for t
  proof -
    have "sorted (map wr_call ?ws)" using srt by (simp add: sorts_by_def)
    from first_after [OF this assms(3), of t] show ?thesis
      by (simp only: sorts_by_set [OF srt] writes_by_key_group) auto
  qed
  show ?thesis
  proof (cases "map_of (writer_of settled history) (out_value (op_output r))")
    case None
    then have "\<not> is_stale history r"
      using writer_of_unique [OF u, of _ settled] unfolding is_stale_def by (metis option.distinct(1))
    with True None show ?thesis by (simp add: stale_read_def)
  next
    case (Some w1)
    from writer_ofD [OF this] unique_putsD [OF u, of _ w1]
    have "is_stale history r \<longleftrightarrow>
        (\<exists>w2 \<in> set history. settled w2 \<and> op_key w2 = op_key r \<and> op_return w1 < op_call w2 \<and> op_return w2 < op_call r)"
      using True unfolding is_stale_def by metis
    with True Some after [of "op_return w1"] show ?thesis
      by (simp add: stale_read_def sorts_by_group [OF srt] Let_def)
  qed
qed (auto simp: stale_read_def is_stale_def)

lemma length_map_filter: "length (List.map_filter f xs) = length (filter (\<lambda>x. f x \<noteq> None) xs)"
  by (induction xs) (auto simp: map_filter_simps split: option.splits)

section \<open>What the clients record\<close>

text \<open>The clock of the test is never negative and does not go back during a call.\<close>

definition turn_ok :: "client_turn \<Rightarrow> bool" where
  "turn_ok t \<longleftrightarrow> 0 \<le> tn_call t \<and> tn_call t \<le> tn_ret t \<and> tn_ret t \<le> max_int64"

definition times_ok :: "Operation list \<Rightarrow> bool" where
  "times_ok history \<longleftrightarrow> (\<forall>op \<in> set history. op_call op \<le> op_return op \<and> op_return op \<le> max_int64)"

definition put_text :: "nat \<Rightarrow> nat \<Rightarrow> string" where
  "put_text cid seq = ''c'' @ nat_to_string cid @ ''-'' @ nat_to_string seq"

lemma put_text_inj: "put_text a b = put_text c d \<longleftrightarrow> a = c \<and> b = d"
proof -
  have "CHR ''-'' \<notin> set (nat_to_string n)" for n by (rule nat_to_string_no) (simp add: is_digit_def)
  then show ?thesis by (simp add: put_text_def append_Cons_eq_iff nat_to_string_inj)
qed

definition put_values :: "Operation list \<Rightarrow> string list" where
  "put_values ops = map (\<lambda>op. in_value (op_input op)) (filter (\<lambda>op. op_kind op = KvPut) ops)"

lemma put_values_simps [simp]: "put_values [] = []" "put_values (xs @ ys) = put_values xs @ put_values ys"
  by (simp_all add: put_values_def)

lemma turn_puts: "put_values (turn_history cid seq t) \<in> {[], [put_text cid seq]}"
  by (auto simp: put_values_def turn_history_def turn_input_def put_text_def Let_def split: reply.splits)

lemma run_client_puts:
  "distinct (put_values (run_client cid seq ts))
   \<and> set (put_values (run_client cid seq ts)) \<subseteq> {put_text cid s |s. seq \<le> s}"
proof (induction ts arbitrary: seq)
  case (Cons t ts)
  have "put_text cid seq \<notin> {put_text cid s |s. seq + 1 \<le> s}" by (auto simp: put_text_inj)
  then have "put_text cid seq \<notin> set (put_values (run_client cid (seq + 1) ts))" using Cons.IH [of "seq + 1"] by blast
  moreover have "{put_text cid s |s. seq + 1 \<le> s} \<subseteq> {put_text cid s |s. seq \<le> s}" by force
  then have "set (put_values (run_client cid (seq + 1) ts)) \<subseteq> {put_text cid s |s. seq \<le> s}"
    using Cons.IH [of "seq + 1"] by (meson subset_trans)
  moreover have "put_text cid seq \<in> {put_text cid s |s. seq \<le> s}" by blast
  ultimately show ?case using turn_puts [of cid seq t] Cons.IH [of "seq + 1"]
    by (simp only: run_client.simps put_values_simps distinct_append set_append) auto
qed simp

lemma clients_puts:
  "distinct (put_values (concat (map (\<lambda>i. run_client i 0 (clients ! i)) [0..<n])))
   \<and> set (put_values (concat (map (\<lambda>i. run_client i 0 (clients ! i)) [0..<n]))) \<subseteq> {put_text i s |i s. i < n}"
proof (induction n)
  case (Suc n)
  have "{put_text n s |s. 0 \<le> s} \<inter> {put_text i s |i s. i < n} = {}" by (auto simp: put_text_inj)
  moreover have "{put_text n s |s. 0 \<le> s} \<subseteq> {put_text i s |i s. i < Suc n}"
    "{put_text i s |i s. i < n} \<subseteq> {put_text i s |i s. i < Suc n}" by force+
  moreover note run_client_puts [of n 0 "clients ! n"]
  ultimately show ?case using Suc.IH by (simp only: upt_Suc_append le0 map_append concat_append put_values_simps
      distinct_append set_append list.map concat.simps append_Nil2) blast
qed simp

lemma collect_unique: "unique_puts (collect_history clients)"
  using clients_puts [of clients "length clients"]
  by (simp add: unique_puts_def collect_history_def put_values_def)

lemma turn_times:
  "turn_ok t \<Longrightarrow> op \<in> set (turn_history cid seq t) \<Longrightarrow> op_call op \<le> op_return op \<and> op_return op \<le> max_int64"
  by (auto simp: turn_ok_def turn_history_def Let_def split: reply.splits if_splits)

lemma run_client_times:
  "\<forall>t \<in> set ts. turn_ok t \<Longrightarrow> op \<in> set (run_client cid seq ts) \<Longrightarrow> op_call op \<le> op_return op \<and> op_return op \<le> max_int64"
proof (induction ts arbitrary: seq)
  case (Cons t ts)
  then show ?case using turn_times [of t op cid seq] by auto
qed simp

lemma collect_times: "\<forall>ts \<in> set clients. \<forall>t \<in> set ts. turn_ok t \<Longrightarrow> times_ok (collect_history clients)"
  unfolding times_ok_def collect_history_def using run_client_times by fastforce

text \<open>Every operation of a client is counted once.\<close>

lemma stats_add_counts:
  "counted (stats_add k m) k' = counted m k' + (if k' = k then 1 else 0)"
  by (simp add: counted_def stats_add_def map_of_umap_set)

lemma turn_stats_counts:
  "let total = (\<lambda>st. counted (st_ok st) name + counted (st_failed st) name + counted (st_indeterminate st) name)
   in total (turn_stats cid seq t st) = total st + (if name = op_name (in_op (turn_input cid seq t)) then 1 else 0)"
  by (simp add: turn_stats_def Let_def stats_add_counts split: reply.splits)

section \<open>Anomalies and linearizability\<close>

lemma on_key_order:
  assumes "linearizable (on_key k history)"
  obtains ops where "set ops = set (on_key k history)" "real_time ops" "legal kv_init ops"
  using assms unfolding linearizable_def by (metis set_mset_mset)

lemma stale_not_linearizable:
  assumes "unique_puts history" "times_ok history" "r \<in> set history" "is_stale history r"
  shows "\<not> linearizable (on_key (op_key r) history)"
proof
  assume "linearizable (on_key (op_key r) history)"
  then obtain ops where ops: "set ops = set (on_key (op_key r) history)" "real_time ops" "legal kv_init ops"
    by (rule on_key_order)
  obtain w1 w2 where w: "w1 \<in> set history" "op_kind w1 = KvPut" "in_value (op_input w1) = out_value (op_output r)"
    "w2 \<in> set history" "settled w2" "op_key w2 = op_key r" "op_return w1 < op_call w2" "op_return w2 < op_call r"
    "op_kind r = KvGet" "out_found (op_output r)" using assms(4) unfolding is_stale_def by blast
  have "set ops \<subseteq> set history" "r \<in> set ops" "w2 \<in> set ops" using assms(3) w by (auto simp: ops(1))
  moreover have "op_kind w2 \<noteq> KvGet" using w(5) by (simp add: settled_def)
  moreover have "op_call w1 \<le> op_return w1" using assms(2) w(1) by (simp add: times_ok_def)
  ultimately show False using stale_refutes [OF assms(1) _ ops(2,3)] w by blast
qed

text \<open>The reads of a key in the index, each with the write it saw.\<close>

lemma reads_by_key_group:
  "(k, reads) \<in> set (reads_by_key history) \<Longrightarrow> (r, w) \<in> set reads \<Longrightarrow>
     r \<in> set history \<and> op_key r = k \<and> op_kind r = KvGet \<and> out_found (op_output r)
     \<and> map_of (writer_of (\<lambda>_. True) history) (out_value (op_output r)) = Some w"
proof -
  let ?w = "\<lambda>op. map_of (writer_of (\<lambda>_. True) history) (out_value (op_output op))"
  let ?P = "\<lambda>op. op_kind op = KvGet \<and> out_found (op_output op) \<and> ?w op \<noteq> None"
  have m: "reads_by_key history =
      fold (\<lambda>op m. if ?P op then append_at (op_key op) (op, the (?w op)) m else m) history []"
    unfolding reads_by_key_def by (intro fold_cong ext) (auto split: option.splits)
  have "groups_ok (reads_by_key history)" unfolding m by (rule groups_ok_fold) simp
  moreover assume "(k, reads) \<in> set (reads_by_key history)"
  ultimately have "reads = group_at (reads_by_key history) k"
    by (simp add: groups_ok_def umap_wf_def group_at_def)
  also have "\<dots> = map (\<lambda>op. (op, the (?w op))) (filter (\<lambda>op. ?P op \<and> op_key op = k) history)"
    unfolding m group_at_fold by (simp add: group_at_def)
  finally show "(r, w) \<in> set reads \<Longrightarrow> ?thesis" by auto
qed

lemma inverted_pairs_set: "(a, b) \<in> set (inverted_pairs rs) \<Longrightarrow> a \<in> set rs \<and> b \<in> set rs \<and> inverted a b"
  by (induction rs) auto

definition permutes :: "('a list \<Rightarrow> 'a list) \<Rightarrow> bool" where
  "permutes visit \<longleftrightarrow> (\<forall>xs. mset (visit xs) = mset xs)"

lemma permutes_set: "permutes visit \<Longrightarrow> set (visit xs) = set xs"
  unfolding permutes_def by (metis set_mset_mset)

lemma inversions_found:
  assumes "permutes visit" "sorts_by f sort_slice" "0 < fst (inversions visit sort_slice history)"
  shows "\<exists>k reads r1 w1 r2 w2. (k, reads) \<in> set (reads_by_key history)
    \<and> (r1, w1) \<in> set reads \<and> (r2, w2) \<in> set reads \<and> inverted (r1, w1) (r2, w2)"
proof -
  have "\<exists>k reads. (k, reads) \<in> set (reads_by_key history) \<and> inverted_pairs (sort_slice reads) \<noteq> []"
    using assms(3) unfolding inversions_def Let_def by (auto simp: permutes_set [OF assms(1)])
  then obtain k reads a b where "(k, reads) \<in> set (reads_by_key history)" "(a, b) \<in> set (inverted_pairs (sort_slice reads))"
    by (metis list.set_intros(1) neq_Nil_conv surj_pair)
  then show ?thesis using inverted_pairs_set [of a b] sorts_by_set [OF assms(2)] by (metis surj_pair)
qed

lemma inversion_not_linearizable:
  assumes "unique_puts history" "times_ok history" "(k, reads) \<in> set (reads_by_key history)"
    "(r1, w1) \<in> set reads" "(r2, w2) \<in> set reads" "inverted (r1, w1) (r2, w2)"
  shows "\<not> linearizable (on_key k history)"
proof
  assume "linearizable (on_key k history)"
  then obtain ops where ops: "set ops = set (on_key k history)" "real_time ops" "legal kv_init ops"
    by (rule on_key_order)
  note r1 = reads_by_key_group [OF assms(3,4)] and r2 = reads_by_key_group [OF assms(3,5)]
  have w: "w1 \<in> set history \<and> op_kind w1 = KvPut \<and> in_value (op_input w1) = out_value (op_output r1)"
    "w2 \<in> set history \<and> op_kind w2 = KvPut \<and> in_value (op_input w2) = out_value (op_output r2)"
    using r1 r2 writer_ofD by blast+
  have "set ops \<subseteq> set history" "r1 \<in> set ops" "r2 \<in> set ops" using r1 r2 by (auto simp: ops(1))
  moreover have "op_return r1 < op_call r2" "op_return w2 < op_call w1" using assms(6) by (simp_all add: inverted_def)
  moreover have "op_call r1 \<le> op_return r1" "op_call w2 \<le> op_return w2" using assms(2) r1 w by (simp_all add: times_ok_def)
  ultimately show False using inversion_refutes [OF assms(1) _ ops(2,3)] r1 r2 w by blast
qed

section \<open>Properties\<close>

text \<open>C14: Checking the keys one by one is enough. A history is split by key before it is checked; every
  part is linearizable for a single register exactly if the whole history is linearizable for the
  store, provided no operation returns before its call.\<close>

theorem partition_is_sound:
  assumes "times_ok history"
  shows "(\<forall>p \<in> set (kv_partition history). linearizable p) \<longleftrightarrow> store_linearizable history"
  unfolding partition_linearizable using merge_keys [of history] store_linearizable_keys assms
  by (auto simp: times_ok_def)

definition example_clients :: "client_turn list list" where
  "example_clients =
     [[\<lparr>tn_key = 0, tn_choice = 5, tn_call = 0, tn_ret = 1, tn_reply = Answered False ''OK''\<rparr>,
       \<lparr>tn_key = 0, tn_choice = 5, tn_call = 2, tn_ret = 3, tn_reply = Answered False ''OK''\<rparr>],
      [\<lparr>tn_key = 0, tn_choice = 0, tn_call = 4, tn_ret = 5, tn_reply = Answered False ''c0-0''\<rparr>]]"

lemma example_turns: "\<forall>ts \<in> set example_clients. \<forall>t \<in> set ts. turn_ok t"
  by (simp add: example_clients_def turn_ok_def max_int64_def)

theorem partition_is_sound_witness:
  "times_ok (collect_history example_clients)
   \<and> ((\<forall>p \<in> set (kv_partition (collect_history example_clients)). linearizable p)
        \<longleftrightarrow> store_linearizable (collect_history example_clients))"
  using partition_is_sound [OF collect_times [OF example_turns]] collect_times [OF example_turns] by blast

text \<open>C15: The detector counts exactly the stale reads. With the binary search over the writes of the
  key, sorted by their call, and the least return time of each suffix, it counts precisely the reads
  of a value whose write had returned before another write of the key was called that had itself
  returned before the read was called, writes of unknown outcome apart.\<close>

theorem stale_reads_exact:
  assumes "sorts_by wr_call sort_slice" and "\<forall>ts \<in> set clients. \<forall>t \<in> set ts. turn_ok t"
  shows "fst (stale_reads sort_slice (collect_history clients)) =
    length (filter (is_stale (collect_history clients)) (collect_history clients))"
proof -
  let ?h = "collect_history clients"
  have "op_call op \<le> max_int64" if "op \<in> set ?h" for op
    using collect_times [OF assms(2)] that unfolding times_ok_def by (meson order_trans)
  then have "filter (\<lambda>op. stale_read sort_slice ?h op \<noteq> None) ?h = filter (is_stale ?h) ?h"
    by (intro filter_cong refl stale_read_iff [OF collect_unique assms(1)])
  then show ?thesis by (simp add: stale_reads_def Let_def length_map_filter)
qed

lemma sort_key_sorts: "sorts_by f (sort_key f)"
  by (simp add: sorts_by_def)

theorem stale_reads_exact_witness:
  "sorts_by wr_call (sort_key wr_call) \<and> fst (stale_reads (sort_key wr_call) (collect_history example_clients)) = 1
   \<and> length (filter (is_stale (collect_history example_clients)) (collect_history example_clients)) = 1"
proof -
  have "fst (stale_reads (sort_key wr_call) (collect_history example_clients)) = 1" by code_simp
  then show ?thesis using stale_reads_exact [OF sort_key_sorts example_turns] sort_key_sorts by metis
qed

text \<open>C13: A reported anomaly is a violation. Whatever the clients did and the servers answered, if the
  detectors count a stale read or a new-old inversion in the recorded history, the history is not
  linearizable, so with a checker that accepts only linearizable histories the test does not
  exit with success.\<close>

theorem anomalies_refute_linearizability:
  assumes "sorts_by wr_call sort_writes" and "sorts_by (\<lambda>r. op_call (fst r)) sort_reads" and "permutes visit"
    and "\<forall>ts \<in> set clients. \<forall>t \<in> set ts. turn_ok t"
    and "check (collect_history clients) = CheckOk \<longrightarrow> (\<forall>p \<in> set (kv_partition (collect_history clients)). linearizable p)"
    and "0 < fst (stale_reads sort_writes (collect_history clients))
      \<or> 0 < fst (inversions visit sort_reads (collect_history clients))"
  shows "\<not> store_linearizable (collect_history clients) \<and> exit_code (check (collect_history clients)) \<noteq> 0"
proof -
  let ?h = "collect_history clients"
  note u = collect_unique [of clients] and t = collect_times [OF assms(4)]
  have "\<exists>k. \<not> linearizable (on_key k ?h)"
  proof (cases "0 < fst (stale_reads sort_writes ?h)")
    case True
    then obtain r where r: "r \<in> set ?h" "stale_read sort_writes ?h r \<noteq> None"
      by (auto simp: stale_reads_def Let_def length_map_filter filter_empty_conv)
    moreover have "op_call r \<le> max_int64" using t r(1) unfolding times_ok_def by (meson order_trans)
    ultimately have "is_stale ?h r" using stale_read_iff [OF u assms(1)] by blast
    with stale_not_linearizable [OF u t r(1)] show ?thesis by blast
  next
    case False
    with assms(6) inversions_found [OF assms(3,2)] inversion_not_linearizable [OF u t] show ?thesis by metis
  qed
  then have "\<not> (\<forall>p \<in> set (kv_partition ?h). linearizable p)" "\<not> store_linearizable ?h"
    using store_linearizable_keys unfolding partition_linearizable by blast+
  moreover from this(1) assms(5) have "exit_code (check ?h) \<noteq> 0" by (cases "check ?h") auto
  ultimately show ?thesis by blast
qed

theorem anomalies_refute_linearizability_witness:
  "\<not> store_linearizable (collect_history example_clients)
   \<and> exit_code ((\<lambda>h. if \<forall>p \<in> set (kv_partition h). linearizable p then CheckOk else CheckIllegal)
       (collect_history example_clients)) \<noteq> 0"
proof (rule anomalies_refute_linearizability [OF sort_key_sorts sort_key_sorts _ example_turns])
  show "permutes (\<lambda>xs :: (string \<times> kv_read list) list. xs)" by (simp add: permutes_def)
  show "0 < fst (stale_reads (sort_key wr_call) (collect_history example_clients))
      \<or> 0 < fst (inversions (\<lambda>xs. xs) (sort_key (\<lambda>r. op_call (fst r))) (collect_history example_clients))"
    by code_simp
qed auto

end
