(* ===== verification/Spec2Isabelle.thy ===== *)
theory Spec2Isabelle
  imports Lww Snapshot Single_Flight Remote_Calls Background Fuzz Metrics_Server Server_Main Tcp_Server Chaos
begin

text \<open>
  ShardCache, a sharded and replicated in-memory cache, modelled from the sources under src/.

  \<^bold>\<open>The program and its parts.\<close> A node is one process. Clients and other nodes connect to it and send
  RESP requests; a session splits the bytes into requests, the parser turns them into commands, and the
  command handler runs them on the cluster object. The cluster object finds the replicas of a key in a
  routing table built from a consistent hash ring, sends the operation to them (directly to its own
  sharded cache, through pipelined channels to its peers), and counts answers against the quorums.
  Versions come from a hybrid clock, and every replica keeps the newer of two versions. Writes that a
  replica missed are kept as hints and replayed; membership spreads by gossip; a change of membership
  moves data. A snapshot file carries the data over a restart.

  \<^bold>\<open>Conventions.\<close> Classes are records and their methods functions on them, with the names of the
  source. Counters, versions and checksums are words of their width, times are integers. Containers
  are association lists, sorted for \<open>std::map\<close>. A method that holds a lock is one step; methods
  that release it in between, asynchronous handlers and threads are step relations. Everything outside
  the process is an argument: clock readings, what sockets and files do, which callbacks of a call ran
  before its deadline and in which order, what other connections did in the meantime. A theorem holds
  for all values of these arguments unless it says otherwise.

  \<^bold>\<open>Shared ground.\<close> Prelude (machine integers, time arithmetic, lemma collections), Std_Map (maps, with
  the locale \<open>assoc_container\<close>), Decimal (numbers as text), Text_Lines (\<open>std::getline\<close>).

  \<^bold>\<open>Storage.\<close>
  \<^item> Cache_Entry (cache_entry.hpp): entries and \<open>supersedes\<close>, a linear order on stamps.
  \<^item> Cache (cache.cpp), Lru (lru.cpp, locale \<open>recency\<close>): one shard with its list, index and
    eviction. Cache_Spec shows that it refines a map in order of use, operation by operation and for
    every sequence of critical sections.
  \<^item> Lww: replicas that receive the same writes in any order end up alike. Versioned_Store states this
    contract as the locale \<open>versioned_store\<close>, which replication relies on.
  \<^item> Sharded_Cache (sharded_cache.cpp): the shards do not affect each other.
  \<^item> Single_Flight (single_flight.cpp): concurrent loads of a key by any number of threads; each caller
    gets the result of a load that overlaps its call, and every caller returns.
  \<^item> Snapshot (snapshot.cpp): a failed save leaves the old file; a changed byte is detected; loading
    restores what was saved.

  \<^bold>\<open>Placement and time.\<close>
  \<^item> Hash_Ring (consistent_hash.cpp), Routing_Table (routing_table.cpp): a node that leaves moves only
    its own keys; the precomputed table answers as the walk on the ring does, for at most 65536 nodes,
    the range of its 16-bit indices.
  \<^item> Hybrid_Clock (hybrid_clock.hpp): timestamps of concurrent threads increase, until the 64-bit
    counter is exhausted.

  \<^bold>\<open>The cluster\<close> (cluster.cpp).
  \<^item> Cluster_State: configuration, tables and queries. Membership: gossip, departures and an invariant
    that ties the ring, the tables and the published routing table together.
  \<^item> Coordinator: coordinated reads and writes in both consistency modes. Replication: acknowledgements
    are counted correctly; with overlapping quorums a read sees every acknowledged write; linearizable
    reads never go back.
  \<^item> Hinted_Handoff: hints are bounded, replayed in order and drain. Rebalance: a key is dropped
    exactly when its new owners have it.
  \<^item> Health_Checker (health_checker.cpp): health follows the thresholds on consecutive pings.
  \<^item> Background (ttl_manager.cpp, and the threads of the health checker and the cluster): the locale
    \<open>stoppable\<close> covers the loops over a condition variable. \<open>stop\<close> returns, within 34 steps
    of each thread, and no request for rebalancing is lost.

  \<^bold>\<open>The network.\<close>
  \<^item> Resp (resp.cpp), Command_Parser (parser.cpp): the codec in both directions, for buffers that arrive
    in pieces. Fuzz (src/fuzz) runs the fuzz target on the codec, for inputs of up to 1 MiB.
  \<^item> Command_Handler (command_handler.cpp), Metrics (metrics.hpp), Metrics_Server (metrics_server.cpp):
    every command, where it runs, its counters, and the page that shows them.
  \<^item> Session (session.cpp): pipelined requests are answered in order, as a server that handles them one
    by one would. Tcp_Server (tcp_server.cpp, io_context_pool.cpp): accepted connections are spread
    evenly.
  \<^item> Replica_Rpc (client.cpp), Peer_Channel (peer_channel.cpp, peer_pool.cpp): every call gets its own
    reply or an error, once. Remote_Calls composes caller, wire, session and handler: a remote call has
    the effect and the result of the local operation.

  \<^bold>\<open>The process and its test.\<close>
  \<^item> Server_Main (main.cpp), Logging (logger.cpp): settings, start and termination. Nodes with the same
    peers place keys alike unless virtual nodes collide; a restart keeps the data.
  \<^item> Chaos (src/chaos): the histories that the clients of the fault-injection test record, the partition
    by key and the anomaly detectors. Linearizability is defined here; the parts of a history are
    linearizable exactly if the whole is, and a reported anomaly is a violation.

  \<^bold>\<open>Bounds.\<close> There is no fuel: every loop is a total function with a termination proof or a step
  relation. The number of virtual nodes (256), of shards (16), of hints per batch and the limits of the
  parsers are those of the source.

  \<^bold>\<open>Not modelled.\<close>
  \<^item> Boost.Asio, the operating system and the C++ memory model: running I/O contexts on threads, thread
    pools, sockets. Their outcomes are arguments.
  \<^item> Floating-point numbers: hit rates, and how the metrics page prints a number. The texts are arguments.
  \<^item> The waiting of the snapshot thread in main.cpp and the order in which the process stops its contexts.
  \<^item> Log lines, apart from the logger itself.
  \<^item> Of src/chaos: starting processes, proxies, the nemesis, the client's reply parser, the wording of
    the examples, and the third-party linearizability checker, whose answer is an argument.
  \<^item> Unit tests, benchmarks and scripts.
\<close>

end
